(* ===== verification/Prelude.thy ===== *)
theory Prelude
  imports Main "HOL-Library.Word" "HOL-Library.List_Lexorder" "HOL-Library.Multiset"
begin

text \<open>
  Shared vocabulary of the development: the machine integers and byte strings of the Rust code,
  the ways in which a Rust function can fail (a panic, or an error value that it returns), and
  generic lemmas on lists, sorting and positions that several components use.

  A function that may panic has a result of type \<open>panic + 'a\<close>; a function that may panic or
  return an error value has a result of type \<open>'e fault + 'a\<close>. Every \<open>unwrap\<close>, \<open>expect\<close>,
  \<open>panic!\<close>, slice index and early return of the modelled code is one of these branches.
\<close>

section \<open>Machine types and failures\<close>

type_synonym byte = "8 word"
type_synonym bytes = "8 word list"
type_synonym u16 = "16 word"
type_synonym u64 = "64 word"

text \<open>The largest value of \<open>usize\<close> plus one, and the bound of \<open>Vec\<close> allocations.\<close>

abbreviation usize_limit :: nat where
  "usize_limit \<equiv> 2 ^ 64"

abbreviation isize_limit :: nat where
  "isize_limit \<equiv> 2 ^ 63"

datatype panic =
    IndexOutOfBounds
  | UnwrapFailed
  | ExpectFailed
  | ExplicitPanic
  | ArithOverflow
  | CapacityOverflow

datatype 'e fault = Panic panic | Err 'e

text \<open>The kinds of \<open>std::io::Error\<close> that the code produces or tells apart.\<close>

datatype io_kind = NotFound | InvalidInput | InvalidData | UnexpectedEof | AlreadyExists | OtherIo

text \<open>
  Subtraction and addition on \<open>u16\<close>: with overflow checks (a debug build) an overflow is a
  panic, without (a release build) the result wraps. The flag is an argument of every definition
  in which the code computes on \<open>u16\<close> values.
\<close>

definition u16_sub :: "bool \<Rightarrow> u16 \<Rightarrow> u16 \<Rightarrow> panic + u16" where
  "u16_sub checks a b = (if checks \<and> a < b then Inl ArithOverflow else Inr (a - b))"

definition u16_add :: "bool \<Rightarrow> u16 \<Rightarrow> u16 \<Rightarrow> panic + u16" where
  "u16_add checks a b =
     (if checks \<and> 2 ^ 16 \<le> unat a + unat b then Inl ArithOverflow else Inr (a + b))"

section \<open>Sequencing of fallible steps\<close>

text \<open>\<open>Result::and_then\<close>, the meaning of the operator \<open>?\<close>: the first failure is the result.\<close>

definition and_then :: "'e + 'a \<Rightarrow> ('a \<Rightarrow> 'e + 'b) \<Rightarrow> 'e + 'b" where
  "and_then r f = (case r of Inl e \<Rightarrow> Inl e | Inr x \<Rightarrow> f x)"

lemma and_then_simps [simp]:
  "and_then (Inl e) f = Inl e"
  "and_then (Inr x) f = f x"
  by (simp_all add: and_then_def)

lemma and_then_eq_Inr:
  "and_then r f = Inr y \<longleftrightarrow> (\<exists>x. r = Inr x \<and> f x = Inr y)"
  by (cases r) auto

lemma and_then_eq_Inl:
  "and_then r f = Inl e \<longleftrightarrow> r = Inl e \<or> (\<exists>x. r = Inr x \<and> f x = Inl e)"
  by (cases r) auto

text \<open>A panic inside a function that also returns errors stays a panic.\<close>

definition panics :: "panic + 'a \<Rightarrow> 'e fault + 'a" where
  "panics r = map_sum Panic id r"

lemma panics_simps [simp]: "panics (Inl p) = Inl (Panic p)" "panics (Inr x) = Inr x"
  by (simp_all add: panics_def)

text \<open>The order in which a hash map or set is iterated over may be any, of each element once.\<close>

definition hash_order :: "('a set \<Rightarrow> 'a list) \<Rightarrow> bool" where
  "hash_order order \<longleftrightarrow> (\<forall>S. finite S \<longrightarrow> set (order S) = S \<and> distinct (order S))"

text \<open>\<open>vec![0; n]\<close> panics when \<open>n\<close> exceeds the largest allocation.\<close>

definition vec_zeroed :: "nat \<Rightarrow> panic + unit" where
  "vec_zeroed n = (if isize_limit \<le> n then Inl CapacityOverflow else Inr ())"

section \<open>Collections of facts\<close>

named_theorems codec_simps \<open>round-trip equations of encoders and decoders\<close>
named_theorems frame_simps \<open>fields and parts of a state that a step leaves alone\<close>

section \<open>Positions in lists\<close>

text \<open>\<open>Iterator::position\<close>: the index of the first element that satisfies the predicate.\<close>

fun position :: "('a \<Rightarrow> bool) \<Rightarrow> 'a list \<Rightarrow> nat option" where
  "position P [] = None"
| "position P (x # xs) = (if P x then Some 0 else map_option Suc (position P xs))"

lemma position_None_iff: "position P xs = None \<longleftrightarrow> (\<forall>x \<in> set xs. \<not> P x)"
  by (induction xs) auto

lemma position_SomeD: "position P xs = Some i \<Longrightarrow> i < length xs \<and> P (xs ! i)"
  by (induction xs arbitrary: i) (auto split: if_splits)

lemma position_eq_None [simp]: "position (\<lambda>x. x = a) xs = None \<longleftrightarrow> a \<notin> set xs"
  by (auto simp: position_None_iff)

lemma position_nth:
  "distinct xs \<Longrightarrow> i < length xs \<Longrightarrow> position (\<lambda>x. x = xs ! i) xs = Some i"
proof (induction xs arbitrary: i)
  case Nil
  then show ?case by simp
next
  case (Cons x xs)
  then show ?case
    by (cases i) (auto dest: nth_mem)
qed

lemma position_eq_Some_iff:
  "distinct xs \<Longrightarrow> position (\<lambda>x. x = a) xs = Some i \<longleftrightarrow> i < length xs \<and> xs ! i = a"
  by (auto simp: position_nth dest: position_SomeD)

lemma position_mem: "a \<in> set xs \<Longrightarrow> \<exists>i. position (\<lambda>x. x = a) xs = Some i"
  using position_eq_None by (metis option.exhaust)

section \<open>Sorting by a key\<close>

lemma mset_sort_key [simp]: "mset (sort_key f xs) = mset xs"
  by (induction xs) simp_all

text \<open>The result of sorting by an injective key does not depend on the order of the input.\<close>

lemma sort_key_perm_eq:
  assumes "mset xs = mset ys" and "inj_on f (set xs)"
  shows "sort_key f xs = sort_key f ys"
  by (rule sort_key_eq_sort_key [OF assms])

lemma sort_key_idem [simp]: "sort_key f (sort_key f xs) = sort_key f xs"
  by (rule sort_key_id_if_sorted) simp

section \<open>Machine integers\<close>

lemma unat_of_nat_u8: "n < 256 \<Longrightarrow> unat (word_of_nat n :: 8 word) = n"
  by (simp add: unsigned_of_nat take_bit_nat_eq_self)

lemma unat_of_nat_u16: "n < 65536 \<Longrightarrow> unat (word_of_nat n :: 16 word) = n"
  by (simp add: unsigned_of_nat take_bit_nat_eq_self)

lemma unat_u8_less: "unat (b :: 8 word) < 256"
  using unsigned_less [of b, where ?'a = nat] by simp

lemma unat_u16_less: "unat (b :: 16 word) < 65536"
  using unsigned_less [of b, where ?'a = nat] by simp

lemma u16_sub_ok: "b \<le> a \<Longrightarrow> u16_sub checks a b = Inr (a - b)"
  by (auto simp: u16_sub_def)

lemma u16_add_ok: "unat a + unat b < 65536 \<Longrightarrow> u16_add checks a b = Inr (a + b)"
  by (simp add: u16_add_def)

lemma unat_u16_add:
  "unat a + unat b < 65536 \<Longrightarrow> unat (a + b :: 16 word) = unat a + unat b"
  by (simp add: unat_word_ariths)

lemma unat_u16_sub: "b \<le> a \<Longrightarrow> unat (a - b :: 16 word) = unat a - unat b"
  by (simp add: unat_sub)

section \<open>Folding a step that may panic over a list\<close>

text \<open>A \<open>for\<close> loop whose body may panic: the first panic ends the loop.\<close>

fun fold_may :: "('a \<Rightarrow> 's \<Rightarrow> 'e + 's) \<Rightarrow> 'a list \<Rightarrow> 's \<Rightarrow> 'e + 's" where
  "fold_may f [] s = Inr s"
| "fold_may f (x # xs) s = (case f x s of Inl e \<Rightarrow> Inl e | Inr s' \<Rightarrow> fold_may f xs s')"

lemma fold_may_invariant:
  assumes "\<And>x s s'. x \<in> set xs \<Longrightarrow> I s \<Longrightarrow> f x s = Inr s' \<Longrightarrow> I s'"
    and "I s" and "fold_may f xs s = Inr t"
  shows "I t"
  using assms
proof (induction xs arbitrary: s)
  case Nil
  then show ?case by simp
next
  case (Cons x xs)
  from Cons.prems(3) obtain s' where s': "f x s = Inr s'" and t: "fold_may f xs s' = Inr t"
    by (auto split: sum.splits)
  have "I s'" using Cons.prems(1) [of x s s'] Cons.prems(2) s' by simp
  moreover have "\<And>y u u'. y \<in> set xs \<Longrightarrow> I u \<Longrightarrow> f y u = Inr u' \<Longrightarrow> I u'"
    using Cons.prems(1) by (meson list.set_intros(2))
  ultimately show ?case using Cons.IH t by blast
qed

lemma fold_may_append:
  "fold_may f (xs @ ys) s =
     (case fold_may f xs s of Inl e \<Rightarrow> Inl e | Inr s' \<Rightarrow> fold_may f ys s')"
  by (induction xs arbitrary: s) (auto split: sum.splits)

end
