(* ===== verification/Varint.thy ===== *)
theory Varint
  imports Prelude
begin

text \<open>
  The crate \<open>unsigned_varint\<close> is not part of the repository. Its encoders and readers are the
  argument \<open>V\<close> of every definition that uses them, and \<open>varint_ok V\<close> names what the code relies
  on: reading what was written gives the value back and leaves the following bytes alone, an
  encoded \<open>usize\<close> is one to ten bytes long, and reading from an empty stream is an end of file.
  A reader returns an I/O error of the stream or a decoding error.

  The second section is a sample instance in the usual format (seven bits per byte, least
  significant group first). It serves the witnesses of the theorems that assume \<open>varint_ok\<close> and
  nothing else.
\<close>

section \<open>The interface\<close>

datatype read_error = ReadIo io_kind | ReadDecode

type_synonym 'a reader = "bytes \<Rightarrow> read_error + 'a \<times> bytes"

record varint_ops =
  enc_u8 :: "byte \<Rightarrow> bytes"
  enc_u16 :: "u16 \<Rightarrow> bytes"
  enc_u64 :: "u64 \<Rightarrow> bytes"
  enc_usize :: "nat \<Rightarrow> bytes"
  read_u8 :: "byte reader"
  read_u16 :: "u16 reader"
  read_u64 :: "u64 reader"
  read_usize :: "nat reader"

definition varint_ok :: "varint_ops \<Rightarrow> bool" where
  "varint_ok V \<longleftrightarrow>
     (\<forall>x rest. read_u8 V (enc_u8 V x @ rest) = Inr (x, rest)) \<and>
     (\<forall>x rest. read_u16 V (enc_u16 V x @ rest) = Inr (x, rest)) \<and>
     (\<forall>x rest. read_u64 V (enc_u64 V x @ rest) = Inr (x, rest)) \<and>
     (\<forall>n rest. n < usize_limit \<longrightarrow> read_usize V (enc_usize V n @ rest) = Inr (n, rest)) \<and>
     (\<forall>n. n < usize_limit \<longrightarrow> enc_usize V n \<noteq> [] \<and> length (enc_usize V n) \<le> 10) \<and>
     read_usize V [] = Inl (ReadIo UnexpectedEof)"

lemma varint_okD [codec_simps]:
  assumes "varint_ok V"
  shows "read_u8 V (enc_u8 V b @ rest) = Inr (b, rest)"
    and "read_u16 V (enc_u16 V h @ rest) = Inr (h, rest)"
    and "read_u64 V (enc_u64 V d @ rest) = Inr (d, rest)"
    and "n < usize_limit \<Longrightarrow> read_usize V (enc_usize V n @ rest) = Inr (n, rest)"
    and "read_usize V [] = Inl (ReadIo UnexpectedEof)"
  using assms by (auto simp: varint_ok_def)

lemma enc_usize_length:
  assumes "varint_ok V" and "n < usize_limit"
  shows "enc_usize V n \<noteq> []" and "length (enc_usize V n) \<le> 10"
  using assms by (auto simp: varint_ok_def)

section \<open>A sample instance\<close>

fun leb_enc :: "nat \<Rightarrow> bytes" where
  "leb_enc n = (if n < 128 then [word_of_nat n]
                else word_of_nat (n mod 128 + 128) # leb_enc (n div 128))"

declare leb_enc.simps [simp del]

fun leb_dec :: "bytes \<Rightarrow> read_error + nat \<times> bytes" where
  "leb_dec [] = Inl (ReadIo UnexpectedEof)"
| "leb_dec (b # bs) =
     (if unat b < 128 then Inr (unat b, bs)
      else case leb_dec bs of
        Inl e \<Rightarrow> Inl e
      | Inr (v, rest) \<Rightarrow> Inr (unat b - 128 + 128 * v, rest))"

definition leb_bounded :: "nat \<Rightarrow> (nat \<Rightarrow> 'a) \<Rightarrow> 'a reader" where
  "leb_bounded lim f bs =
     (case leb_dec bs of
        Inl e \<Rightarrow> Inl e
      | Inr (v, rest) \<Rightarrow> if v < lim then Inr (f v, rest) else Inl ReadDecode)"

definition leb_ops :: varint_ops where
  "leb_ops =
     \<lparr>enc_u8 = (\<lambda>x. leb_enc (unat x)), enc_u16 = (\<lambda>x. leb_enc (unat x)),
      enc_u64 = (\<lambda>x. leb_enc (unat x)), enc_usize = leb_enc,
      read_u8 = leb_bounded (2 ^ 8) word_of_nat, read_u16 = leb_bounded (2 ^ 16) word_of_nat,
      read_u64 = leb_bounded (2 ^ 64) word_of_nat, read_usize = leb_bounded (2 ^ 64) (\<lambda>n. n)\<rparr>"

lemma leb_dec_enc: "leb_dec (leb_enc n @ rest) = Inr (n, rest)"
proof (induction n rule: leb_enc.induct)
  case (1 n)
  show ?case
  proof (cases "n < 128")
    case True
    then show ?thesis by (simp add: leb_enc.simps [of n] unat_of_nat_u8)
  next
    case False
    have "unat (word_of_nat (n mod 128 + 128) :: byte) = n mod 128 + 128"
      by (rule unat_of_nat_u8) (use mod_less_divisor [of 128 n] in linarith)
    moreover have "n mod 128 + 128 * (n div 128) = n" by simp
    ultimately show ?thesis using 1 False by (simp add: leb_enc.simps [of n])
  qed
qed

lemma leb_enc_length: "n < 128 ^ Suc k \<Longrightarrow> length (leb_enc n) \<le> Suc k"
proof (induction k arbitrary: n)
  case 0
  then show ?case by (simp add: leb_enc.simps [of n])
next
  case (Suc k)
  have "n div 128 < 128 ^ Suc k"
    using Suc.prems by (simp add: div_less_iff_less_mult mult.commute)
  then show ?case using Suc.IH [of "n div 128"] by (simp add: leb_enc.simps [of n])
qed

lemma leb_enc_nonempty: "leb_enc n \<noteq> []"
  by (simp add: leb_enc.simps [of n])

lemma leb_bounded_word:
  fixes x :: "'w :: len word"
  shows "leb_bounded (2 ^ LENGTH('w)) word_of_nat (leb_enc (unat x) @ rest) = Inr (x, rest)"
  by (simp add: leb_bounded_def leb_dec_enc)

lemma leb_ops_ok: "varint_ok leb_ops"
proof -
  note w = leb_bounded_word
  have len: "length (leb_enc n) \<le> 10" if "n < usize_limit" for n
    using leb_enc_length [of n 9] that by simp
  show ?thesis
    using w [where 'w = 8] w [where 'w = 16] w [where 'w = 64] len
    by (simp add: varint_ok_def leb_ops_def leb_enc_nonempty)
       (simp add: leb_bounded_def leb_dec_enc)
qed

end
