(* ===== verification/Std_IO.thy ===== *)
theory Std_IO
  imports Prelude
begin

text \<open>
  The two buffered adapters of the Rust standard library that the wire formats of this repository
  go through: \<open>std::io::BufWriter\<close> over a \<open>Vec<u8>\<close> and \<open>std::io::BufReader\<close> over a byte
  slice, both with the default capacity of 8 KiB. What the code reads off a \<open>BufWriter\<close> is
  \<open>buffer()\<close>, the bytes that have \<^emph>\<open>not\<close> yet been flushed to the inner vector, and what it reads
  with \<open>BufReader::read\<close> may be shorter than asked for at the end of a buffer; both facts are part
  of the model. The lemmas say when the adapters are transparent.
\<close>

section \<open>Buffered writer\<close>

abbreviation io_cap :: nat where
  "io_cap \<equiv> 8192"

record buf_writer =
  bw_inner :: bytes
  bw_buf :: bytes

definition bw_new :: buf_writer where
  "bw_new = \<lparr>bw_inner = [], bw_buf = []\<rparr>"

text \<open>
  \<open>write_all\<close>: data that fits in the spare capacity is buffered. Otherwise the buffer is first
  flushed (when the data exceeds the spare capacity), and data at least as long as the capacity
  goes straight to the inner writer.
\<close>

definition bw_write_all :: "bytes \<Rightarrow> buf_writer \<Rightarrow> buf_writer" where
  "bw_write_all b w =
     (let spare = io_cap - length (bw_buf w) in
      if length b < spare then w\<lparr>bw_buf := bw_buf w @ b\<rparr>
      else
        let w' = (if spare < length b
                  then w\<lparr>bw_inner := bw_inner w @ bw_buf w, bw_buf := []\<rparr> else w)
        in if io_cap \<le> length b then w'\<lparr>bw_inner := bw_inner w' @ b\<rparr>
           else w'\<lparr>bw_buf := bw_buf w' @ b\<rparr>)"

text \<open>All the bytes written so far, flushed or not.\<close>

definition bw_written :: "buf_writer \<Rightarrow> bytes" where
  "bw_written w = bw_inner w @ bw_buf w"

definition bw_ok :: "buf_writer \<Rightarrow> bool" where
  "bw_ok w \<longleftrightarrow> length (bw_buf w) \<le> io_cap"

lemma bw_new_simps [simp]: "bw_written bw_new = []" "bw_buf bw_new = []" "bw_ok bw_new"
  by (simp_all add: bw_new_def bw_written_def bw_ok_def)

lemma bw_write_all_ok [simp]: "bw_ok w \<Longrightarrow> bw_ok (bw_write_all b w)"
  by (auto simp: bw_ok_def bw_write_all_def Let_def)

text \<open>
  A write of at least one byte at a time never loses data; a write that goes past the buffer to
  the inner vector does so only after the buffer was flushed, except for a full-capacity write
  into an empty buffer.
\<close>

lemma bw_write_all_written:
  "bw_ok w \<Longrightarrow> bw_written (bw_write_all b w) = bw_written w @ b"
  by (cases "bw_buf w") (auto simp: bw_ok_def bw_write_all_def bw_written_def Let_def)

lemma bw_write_all_fits:
  assumes "length (bw_buf w) + length b \<le> io_cap" and "bw_buf w \<noteq> [] \<or> length b < io_cap"
  shows "bw_write_all b w = w\<lparr>bw_buf := bw_buf w @ b\<rparr>"
proof -
  have "length b < io_cap" using assms by (cases "bw_buf w") auto
  then show ?thesis using assms(1) by (auto simp: bw_write_all_def Let_def)
qed

lemma bw_write_all_huge:
  assumes "bw_ok w" and "io_cap \<le> length b" and "bw_buf w \<noteq> []"
  shows "bw_buf (bw_write_all b w) = []"
proof -
  from assms(3) have "0 < length (bw_buf w)" by simp
  with assms(1) have "io_cap - length (bw_buf w) < io_cap" by (simp add: bw_ok_def)
  with assms(2) have "io_cap - length (bw_buf w) < length b" by simp
  then show ?thesis using assms(2) by (simp add: bw_write_all_def Let_def)
qed

text \<open>The buffered bytes are a suffix of what was written, at most one capacity long.\<close>

lemma bw_buf_short:
  assumes "bw_ok w" and "io_cap < length (bw_written w)"
  shows "bw_buf w \<noteq> bw_written w"
  using assms by (auto simp: bw_ok_def bw_written_def)

section \<open>Buffered reader\<close>

record buf_reader =
  br_buf :: bytes
  br_rest :: bytes

definition br_new :: "bytes \<Rightarrow> buf_reader" where
  "br_new b = \<lparr>br_buf = [], br_rest = b\<rparr>"

definition br_contents :: "buf_reader \<Rightarrow> bytes" where
  "br_contents r = br_buf r @ br_rest r"

text \<open>\<open>fill_buf\<close>: an empty buffer is refilled with up to one capacity of the rest.\<close>

definition br_fill :: "buf_reader \<Rightarrow> buf_reader" where
  "br_fill r =
     (if br_buf r = [] then \<lparr>br_buf = take io_cap (br_rest r), br_rest = drop io_cap (br_rest r)\<rparr>
      else r)"

text \<open>
  \<open>read\<close> into a slice of length \<open>k\<close>: a read of at least the capacity bypasses an empty buffer;
  any other read copies what is buffered after a refill, up to \<open>k\<close> bytes, and no more.
\<close>

definition br_read :: "nat \<Rightarrow> buf_reader \<Rightarrow> bytes \<times> buf_reader" where
  "br_read k r =
     (if br_buf r = [] \<and> io_cap \<le> k
      then (take k (br_rest r), r\<lparr>br_rest := drop k (br_rest r)\<rparr>)
      else let r' = br_fill r in (take k (br_buf r'), r'\<lparr>br_buf := drop k (br_buf r')\<rparr>))"

lemma br_new_contents [simp]: "br_contents (br_new b) = b"
  by (simp add: br_new_def br_contents_def)

lemma br_fill_contents [simp]: "br_contents (br_fill r) = br_contents r"
  by (simp add: br_fill_def br_contents_def)

lemma br_fill_empty: "br_buf (br_fill r) = [] \<longleftrightarrow> br_contents r = []"
  by (auto simp: br_fill_def br_contents_def)

lemma br_read_contents: "br_read k r = (b, r') \<Longrightarrow> b @ br_contents r' = br_contents r"
proof (cases "br_buf r = [] \<and> io_cap \<le> k")
  case True
  then show "br_read k r = (b, r') \<Longrightarrow> ?thesis"
    by (auto simp: br_read_def br_contents_def)
next
  case False
  assume "br_read k r = (b, r')"
  with False have "b = take k (br_buf (br_fill r))"
    and "br_contents r' = drop k (br_buf (br_fill r)) @ br_rest (br_fill r)"
    by (auto simp: br_read_def br_contents_def Let_def)
  then have "b @ br_contents r' = br_contents (br_fill r)"
    unfolding br_contents_def by (metis append.assoc append_take_drop_id)
  then show ?thesis by simp
qed

lemma br_read_contents_length:
  "br_read k r = (b, r') \<Longrightarrow> length (br_contents r) = length b + length (br_contents r')"
  by (drule br_read_contents) (metis length_append)

lemma br_read_length_le: "br_read k r = (b, r') \<Longrightarrow> length b \<le> k"
  by (auto simp: br_read_def Let_def split: if_splits)

lemma br_read_progress:
  assumes "br_read k r = (b, r')" and "0 < k" and "br_contents r \<noteq> []"
  shows "b \<noteq> []"
proof (cases "br_buf r = [] \<and> io_cap \<le> k")
  case True
  with assms show ?thesis by (auto simp: br_read_def br_contents_def)
next
  case False
  with assms(1) have "b = take k (br_buf (br_fill r))"
    by (auto simp: br_read_def Let_def)
  moreover have "br_buf (br_fill r) \<noteq> []" using assms(3) by (simp add: br_fill_empty)
  ultimately show ?thesis using assms(2) by simp
qed

text \<open>\<open>read_exact\<close>: read until the slice is full; an empty read is \<open>UnexpectedEof\<close>.\<close>

function br_read_exact :: "nat \<Rightarrow> buf_reader \<Rightarrow> io_kind + bytes \<times> buf_reader" where
  "br_read_exact k r =
     (if k = 0 then Inr ([], r)
      else case br_read k r of
        (b, r') \<Rightarrow>
          if b = [] then Inl UnexpectedEof
          else (case br_read_exact (k - length b) r' of
                  Inl e \<Rightarrow> Inl e
                | Inr (b', r'') \<Rightarrow> Inr (b @ b', r'')))"
  by pat_completeness auto
termination
  by (relation "measure (\<lambda>(k, r). k)") auto

declare br_read_exact.simps [simp del]

text \<open>
  On the contents of the reader \<open>read_exact\<close> is a plain split: the buffer is transparent.
\<close>

definition read_exact :: "nat \<Rightarrow> bytes \<Rightarrow> io_kind + bytes \<times> bytes" where
  "read_exact k b = (if k \<le> length b then Inr (take k b, drop k b) else Inl UnexpectedEof)"

lemma br_read_exact_contents:
  "map_sum id (\<lambda>(b, r'). (b, br_contents r')) (br_read_exact k r) = read_exact k (br_contents r)"
proof (induction k r rule: br_read_exact.induct)
  case (1 k r)
  obtain b r' where br: "br_read k r = (b, r')" by (cases "br_read k r")
  note split = br_read_contents [OF br] and len = br_read_length_le [OF br]
  show ?case
  proof (cases "k = 0 \<or> b = []")
    case True
    then show ?thesis
    proof (cases "k = 0")
      case True
      then show ?thesis by (simp add: br_read_exact.simps [of 0] read_exact_def)
    next
      case False
      with True have "b = []" by simp
      with False have "br_contents r = []" using br_read_progress [OF br] by auto
      with False \<open>b = []\<close> br show ?thesis
        by (simp add: br_read_exact.simps [of k] read_exact_def)
    qed
  next
    case False
    then have k: "k \<noteq> 0" and b: "b \<noteq> []" by auto
    from "1.IH" [OF k br [symmetric] b]
    have IH: "map_sum id (\<lambda>(b, r'). (b, br_contents r')) (br_read_exact (k - length b) r')
      = read_exact (k - length b) (br_contents r')" .
    have c: "br_contents r = b @ br_contents r'" using split by simp
    show ?thesis
      using IH k b br len
      by (auto simp: br_read_exact.simps [of k r] read_exact_def c split: sum.splits if_splits)
  qed
qed

lemma br_read_nonempty:
  assumes "br_buf r \<noteq> []" and "k < io_cap"
  shows "br_read k r = (take k (br_buf r), r\<lparr>br_buf := drop k (br_buf r)\<rparr>)"
  using assms by (simp add: br_read_def br_fill_def Let_def)

lemma br_read_end:
  assumes "br_buf r = []" and "br_rest r = []"
  shows "br_read k r = ([], r)"
  using assms by (cases r) (simp add: br_read_def br_fill_def Let_def)

end
