(* ===== verification/Messages.thy ===== *)
theory Messages
  imports Varint Std_IO
begin

text \<open>
  The wire format of one room's request-response protocol
  (\<open>node/network/src/messages.rs\<close>): the request with its context and the response, each with its
  writer and reader. A substream is the byte string on it; writers give the bytes they put on the
  substream before closing it. The lemmas show that a reader undoes its writer, what it does with
  an oversized or malformed request, and that what it accepts respects the size limit.
\<close>

section \<open>Data\<close>

datatype message_type = Coordination | Computation

record message_context =
  message_type :: message_type
  session_id :: u64
  protocol_id :: u64

record wire_message =
  wm_context :: message_context
  wm_payload :: bytes
  wm_is_broadcast :: bool

record generic_codec =
  max_request_size :: nat
  max_response_size :: nat

text \<open>The discriminants of \<open>MessageType\<close> and the cast of a \<open>bool\<close> to \<open>u8\<close>.\<close>

fun message_type_u8 :: "message_type \<Rightarrow> byte" where
  "message_type_u8 Coordination = 0"
| "message_type_u8 Computation = 1"

definition bool_u8 :: "bool \<Rightarrow> byte" where
  "bool_u8 b = (if b then 1 else 0)"

section \<open>Requests\<close>

text \<open>Every varint error of a request is reported as \<open>InvalidInput\<close>.\<close>

definition invalid_input :: "read_error + 'a \<Rightarrow> io_kind fault + 'a" where
  "invalid_input r = map_sum (\<lambda>_. Err InvalidInput) id r"

lemma invalid_input_simps [simp]:
  "invalid_input (Inr x) = Inr x" "invalid_input (Inl e) = Inl (Err InvalidInput)"
  by (simp_all add: invalid_input_def)

text \<open>A byte other than 0 and 1 in the place of the message type is an explicit panic.\<close>

definition message_type_of :: "byte \<Rightarrow> io_kind fault + message_type" where
  "message_type_of b =
     (if b = 0 then Inr Coordination else if b = 1 then Inr Computation
      else Inl (Panic ExplicitPanic))"

text \<open>Reading a length-delimited payload: allocate, then fill the whole buffer.\<close>

definition read_payload :: "nat \<Rightarrow> bytes \<Rightarrow> io_kind fault + bytes \<times> bytes" where
  "read_payload len io =
     and_then (panics (vec_zeroed len)) (\<lambda>_. map_sum Err id (read_exact len io))"

definition read_request ::
  "varint_ops \<Rightarrow> generic_codec \<Rightarrow> bytes \<Rightarrow> io_kind fault + wire_message \<times> bytes" where
  "read_request V c io =
     and_then (invalid_input (read_u8 V io)) (\<lambda>(t, io).
     and_then (message_type_of t) (\<lambda>mt.
     and_then (invalid_input (read_u8 V io)) (\<lambda>(bc, io).
     and_then (invalid_input (read_u64 V io)) (\<lambda>(sid, io).
     and_then (invalid_input (read_u64 V io)) (\<lambda>(pid, io).
     and_then (invalid_input (read_usize V io)) (\<lambda>(len, io).
       if max_request_size c < len then Inl (Err InvalidInput)
       else and_then (read_payload len io) (\<lambda>(payload, io).
         Inr (\<lparr>wm_context =
                 \<lparr>message_type = mt, session_id = sid, protocol_id = pid\<rparr>,
               wm_payload = payload, wm_is_broadcast = (bc \<noteq> 0)\<rparr>, io))))))))"

definition write_request :: "varint_ops \<Rightarrow> wire_message \<Rightarrow> bytes" where
  "write_request V req =
     enc_u8 V (message_type_u8 (message_type (wm_context req))) @
     enc_u8 V (bool_u8 (wm_is_broadcast req)) @
     enc_u64 V (session_id (wm_context req)) @
     enc_u64 V (protocol_id (wm_context req)) @
     enc_usize V (length (wm_payload req)) @
     wm_payload req"

section \<open>Responses\<close>

text \<open>
  A response is a payload or the refusal \<open>Err(())\<close>, written as nothing at all: an end of file in
  the place of the length reads as a refusal.
\<close>

type_synonym response = "unit + bytes"

definition read_response ::
  "varint_ops \<Rightarrow> generic_codec \<Rightarrow> bytes \<Rightarrow> io_kind fault + response \<times> bytes" where
  "read_response V c io =
     (case read_usize V io of
        Inl (ReadIo UnexpectedEof) \<Rightarrow> Inr (Inl (), io)
      | Inl _ \<Rightarrow> Inl (Err InvalidInput)
      | Inr (len, io) \<Rightarrow>
          if max_response_size c < len then Inl (Err InvalidInput)
          else and_then (read_payload len io) (\<lambda>(payload, io). Inr (Inr payload, io)))"

definition write_response :: "varint_ops \<Rightarrow> response \<Rightarrow> bytes" where
  "write_response V res =
     (case res of Inl () \<Rightarrow> [] | Inr r \<Rightarrow> enc_usize V (length r) @ r)"

section \<open>Lemmas\<close>

lemma message_type_of_u8 [simp, codec_simps]: "message_type_of (message_type_u8 t) = Inr t"
  by (cases t) (simp_all add: message_type_of_def)

lemma bool_u8_nonzero [simp]: "bool_u8 b \<noteq> 0 \<longleftrightarrow> b"
  by (simp add: bool_u8_def)

lemma read_payload_append [simp, codec_simps]:
  "length p < isize_limit \<Longrightarrow> read_payload (length p) (p @ rest) = Inr (p, rest)"
  by (simp add: read_payload_def vec_zeroed_def read_exact_def)

lemma read_payload_length:
  "read_payload n io = Inr (p, io') \<Longrightarrow> length p = n \<and> io = p @ io'"
  by (auto simp: read_payload_def vec_zeroed_def read_exact_def and_then_eq_Inr
      split: if_splits)

lemma read_write_request:
  assumes "varint_ok V" and "length (wm_payload m) \<le> max_request_size c"
    and "length (wm_payload m) < isize_limit"
  shows "read_request V c (write_request V m @ rest) = Inr (m, rest)"
  using assms
  by (simp add: read_request_def write_request_def varint_okD)

lemma read_request_oversized:
  assumes "varint_ok V" and "max_request_size c < length (wm_payload m)"
    and "length (wm_payload m) < usize_limit"
  shows "read_request V c (write_request V m @ rest) = Inl (Err InvalidInput)"
  using assms by (simp add: read_request_def write_request_def varint_okD)

lemma read_request_bound:
  "read_request V c io = Inr (m, rest) \<Longrightarrow> length (wm_payload m) \<le> max_request_size c"
  by (auto simp: read_request_def and_then_eq_Inr dest!: read_payload_length split: if_splits)

lemma read_request_unknown_type:
  assumes "read_u8 V io = Inr (b, io')" and "b \<noteq> 0" and "b \<noteq> 1"
  shows "read_request V c io = Inl (Panic ExplicitPanic)"
  using assms by (simp add: read_request_def message_type_of_def)

lemma read_write_response:
  assumes "varint_ok V" and "\<And>r. res = Inr r \<Longrightarrow> length r \<le> max_response_size c"
    and "\<And>r. res = Inr r \<Longrightarrow> length r < isize_limit"
  shows "read_response V c (write_response V res) = Inr (res, [])"
proof (cases res)
  case (Inl u)
  have "write_response V res = []" by (simp add: write_response_def Inl split: unit.split)
  moreover have "read_usize V [] = Inl (ReadIo UnexpectedEof)"
    by (rule varint_okD [OF assms(1)])
  ultimately show ?thesis by (simp add: read_response_def Inl)
next
  case (Inr r)
  with assms have "length r \<le> max_response_size c" and "length r < isize_limit" by auto
  with assms(1) Inr show ?thesis
    using read_payload_append [of r "[]"]
    by (simp add: read_response_def write_response_def varint_okD)
qed

lemma read_response_bound:
  "read_response V c io = Inr (Inr p, rest) \<Longrightarrow> length p \<le> max_response_size c"
  by (auto simp: read_response_def and_then_eq_Inr dest!: read_payload_length
      split: sum.splits read_error.splits io_kind.splits if_splits)


section \<open>Properties\<close>

text \<open>
  C30: A request that was written is read back as it was, with what follows on the substream left
  over, exactly when its payload is no longer than the codec's limit for requests, a payload of just
  that length included; a longer one is refused as invalid input before its payload is read.
\<close>

theorem wire_request_roundtrip:
  assumes "varint_ok V" and "length (wm_payload m) < isize_limit"
  shows "read_request V c (write_request V m @ rest) =
    (if length (wm_payload m) \<le> max_request_size c then Inr (m, rest)
     else Inl (Err InvalidInput))"
proof -
  have "length (wm_payload m) < usize_limit" using assms(2) by simp
  then show ?thesis
    using read_write_request [OF assms(1) _ assms(2), of c rest]
      read_request_oversized [OF assms(1), of c m rest]
    by (cases "length (wm_payload m) \<le> max_request_size c") simp_all
qed

definition sample_wire :: "bytes \<Rightarrow> wire_message" where
  "sample_wire payload =
     \<lparr>wm_context = \<lparr>message_type = Computation, session_id = 300, protocol_id = 1\<rparr>,
      wm_payload = payload, wm_is_broadcast = True\<rparr>"

theorem wire_request_roundtrip_witness:
  "read_request leb_ops \<lparr>max_request_size = 2, max_response_size = 2\<rparr>
     (write_request leb_ops (sample_wire [7, 8]) @ [9]) = Inr (sample_wire [7, 8], [9]) \<and>
   read_request leb_ops \<lparr>max_request_size = 2, max_response_size = 2\<rparr>
     (write_request leb_ops (sample_wire [7, 8, 9])) = Inl (Err InvalidInput)"
  using wire_request_roundtrip [OF leb_ops_ok, of "sample_wire [7, 8]"
      "\<lparr>max_request_size = 2, max_response_size = 2\<rparr>" "[9]"]
    wire_request_roundtrip [OF leb_ops_ok, of "sample_wire [7, 8, 9]"
      "\<lparr>max_request_size = 2, max_response_size = 2\<rparr>" "[]"]
  by (simp add: sample_wire_def)

text \<open>
  A response that was written is read back as it was: a payload within the codec's limit for
  responses as that payload, and a refusal, of which nothing is written, as a refusal. A longer payload is
  refused as invalid input.
\<close>

theorem wire_response_roundtrip:
  assumes "varint_ok V" and "\<forall>r. res = Inr r \<longrightarrow> length r < isize_limit"
  shows "read_response V c (write_response V res) =
    (case res of
       Inl u \<Rightarrow> Inr (Inl u, [])
     | Inr r \<Rightarrow> if length r \<le> max_response_size c then Inr (Inr r, []) else Inl (Err InvalidInput))"
proof (cases res)
  case (Inl u)
  then show ?thesis using read_write_response [OF assms(1), of res c] by simp
next
  case (Inr r)
  then have len: "length r < isize_limit" "length r < usize_limit" using assms(2) by simp_all
  then show ?thesis
    using read_write_response [OF assms(1), of res c] Inr assms(1)
    by (auto simp: read_response_def write_response_def varint_okD)
qed

theorem wire_response_roundtrip_witness:
  "read_response leb_ops \<lparr>max_request_size = 2, max_response_size = 2\<rparr>
     (write_response leb_ops (Inr [7, 8])) = Inr (Inr [7, 8], [])"
  using wire_response_roundtrip [OF leb_ops_ok, of "Inr [7, 8]"
      "\<lparr>max_request_size = 2, max_response_size = 2\<rparr>"] by simp

text \<open>
  Any peer can stop the reader of requests with one byte: a request whose message type is neither
  0 nor 1 panics, whatever follows it.
\<close>

theorem unknown_message_type_panics:
  assumes "varint_ok V" and "b \<noteq> 0" and "b \<noteq> 1"
  shows "read_request V c (enc_u8 V b @ rest) = Inl (Panic ExplicitPanic)"
  by (rule read_request_unknown_type [OF varint_okD(1) [OF assms(1)] assms(2,3)])

theorem unknown_message_type_panics_witness:
  "read_request leb_ops \<lparr>max_request_size = 2, max_response_size = 2\<rparr> [2] =
     Inl (Panic ExplicitPanic)"
  using unknown_message_type_panics [OF leb_ops_ok, of 2
      "\<lparr>max_request_size = 2, max_response_size = 2\<rparr>" "[]"]
  by (simp add: leb_ops_def leb_enc.simps)

end
