(* ===== verification/Broadcast.thy ===== *)
theory Broadcast
  imports Messages
begin

text \<open>
  The request-response multiplexer of a node (\<open>node/network/src/broadcast.rs\<close>): one libp2p
  \<open>RequestResponse\<close> behaviour per room, the table of outbound requests that await a reply, and the
  bookkeeping of inbound requests.

  The libp2p behaviour is not part of the repository: its state is the type variable \<open>'rr\<close> and its
  operations are the argument \<open>R\<close> of the definitions. Channels are identified by a number; what a
  handler sends on a channel is in the list of effects that it returns, and whether the other end
  still accepts (\<open>try_send\<close> succeeds) is an argument; an effect is an attempt to send. Instants are numbers. The hash maps are HOL
  maps. The flag \<open>dbg\<close> says whether \<open>debug_assert!\<close> is compiled in.
\<close>

section \<open>Data\<close>

type_synonym chan = nat
type_synonym request_id = nat
type_synonym outbound_failure = string
type_synonym inbound_failure = string

record 'pid incoming_message =
  im_peer_id :: 'pid
  im_peer_index :: u16
  im_payload :: bytes
  im_is_broadcast :: bool
  im_pending_response :: chan
  im_context :: message_context

record outgoing_response =
  or_result :: response
  or_sent_feedback :: "chan option"

datatype request_failure = NotConnected | UnknownProtocol | Refused | Obsolete
  | Network outbound_failure

datatype response_failure = ResponseNetwork inbound_failure

datatype register_error = DuplicateProtocol string

record protocol_config =
  pc_name :: string
  pc_max_request_size :: nat
  pc_max_response_size :: nat
  pc_request_timeout :: nat
  pc_inbound_queue :: "chan option"

definition protocol_config_new :: "string \<Rightarrow> chan option \<Rightarrow> protocol_config" where
  "protocol_config_new name q =
     \<lparr>pc_name = name, pc_max_request_size = 8 * 1024 * 1024, pc_max_response_size = 10 * 1024,
      pc_request_timeout = 20, pc_inbound_queue = q\<rparr>"

datatype if_disconnected = TryConnect | ImmediateError

fun should_connect :: "if_disconnected \<Rightarrow> bool" where
  "should_connect TryConnect = True"
| "should_connect ImmediateError = False"

text \<open>A reply to a request: the failure, or the responding peer with its payload.\<close>

type_synonym 'pid reply = "request_failure + 'pid \<times> bytes"

datatype 'pid effect =
    Reply chan "'pid reply"
  | Inbound chan "'pid incoming_message"
  | Feedback chan

datatype 'pid broadcast_out =
    InboundMessage 'pid string "response_failure + nat"
  | BroadcastFinished 'pid string nat "request_failure + unit"

section \<open>The libp2p behaviour\<close>

datatype protocol_support = FullSupport | OutboundSupport

text \<open>The notifications of the swarm that every behaviour is told of.\<close>

datatype 'pid swarm_event =
    SwConnected 'pid
  | SwDisconnected 'pid
  | SwConnectionEstablished 'pid
  | SwConnectionClosed 'pid
  | SwDialFailure "'pid option"
  | SwNewListener
  | SwNewListenAddr
  | SwExpiredListenAddr
  | SwListenerError
  | SwListenerClosed
  | SwNewExternalAddr
  | SwExpiredExternalAddr

text \<open>
  What a behaviour asks of the swarm when it is polled (\<open>NetworkBehaviourAction\<close>): \<open>'h\<close> is the type of
  connection handlers, \<open>'iev\<close> that of the events for a handler, and \<open>'x\<close> stands for the fields that
  are only passed on (the condition of a dial, the choice of a handler, the score, the connection).
\<close>

datatype ('out, 'pid, 'addr, 'h, 'iev, 'x) swarm_action =
    GenerateEvent 'out
  | DialAddress 'addr 'h
  | DialPeer 'pid 'x 'h
  | NotifyHandler 'pid 'x 'iev
  | ReportObservedAddr 'addr 'x
  | CloseConnection 'pid 'x

record ('rr, 'pid, 'ev) rr_ops =
  rr_new :: "generic_codec \<Rightarrow> string \<Rightarrow> protocol_support \<Rightarrow> nat \<Rightarrow> nat \<Rightarrow> 'rr"
  rr_is_connected :: "'rr \<Rightarrow> 'pid \<Rightarrow> bool"
  rr_send_request :: "'rr \<Rightarrow> 'pid \<Rightarrow> wire_message \<Rightarrow> 'rr \<times> request_id"
  rr_send_response :: "'rr \<Rightarrow> chan \<Rightarrow> bytes \<Rightarrow> 'rr \<times> bool"
  rr_notify :: "'rr \<Rightarrow> 'pid swarm_event \<Rightarrow> 'rr"
  rr_inject_event :: "'rr \<Rightarrow> 'pid \<Rightarrow> 'ev \<Rightarrow> 'rr"

text \<open>The events that a libp2p behaviour hands to its parent.\<close>

datatype 'pid rr_event =
    RequestReceived 'pid request_id wire_message chan
  | ResponseReceived 'pid request_id response
  | OutboundFailure 'pid request_id outbound_failure
  | InboundFailure 'pid request_id inbound_failure
  | ResponseSent 'pid request_id

text \<open>
  What libp2p documents on request identifiers: two outbound requests of one behaviour never
  have the same one. \<open>used s\<close> are the identifiers given out so far.
\<close>

definition rr_fresh :: "('rr, 'pid, 'ev) rr_ops \<Rightarrow> ('rr \<Rightarrow> request_id set) \<Rightarrow> bool" where
  "rr_fresh R used \<longleftrightarrow>
     (\<forall>s p m. snd (rr_send_request R s p m) \<notin> used s \<and>
        used (fst (rr_send_request R s p m)) = insert (snd (rr_send_request R s p m)) (used s))"

section \<open>State\<close>

type_synonym protocol_request_id = "string \<times> request_id"

record 'pid pending_response =
  pr_peer :: 'pid
  pr_request_id :: request_id
  pr_protocol :: string
  pr_channel :: chan
  pr_rx :: chan

record ('rr, 'pid) broadcast =
  protocols :: "string \<Rightarrow> ('rr \<times> chan option) option"
  pending_requests :: "protocol_request_id \<Rightarrow> (nat \<times> chan option) option"
  pending_responses :: "'pid pending_response list"
  pending_responses_arrival_time :: "protocol_request_id \<Rightarrow> nat option"
  send_feedback :: "protocol_request_id \<Rightarrow> chan option"

section \<open>Operations\<close>

definition register_protocol ::
  "('rr, 'pid, 'ev) rr_ops \<Rightarrow> protocol_config \<Rightarrow> (string \<Rightarrow> ('rr \<times> chan option) option) \<Rightarrow>
   register_error + (string \<Rightarrow> ('rr \<times> chan option) option)" where
  "register_protocol R p ps =
     (let support = (if pc_inbound_queue p \<noteq> None then FullSupport else OutboundSupport);
          rq_rp = rr_new R
            \<lparr>max_request_size = pc_max_request_size p, max_response_size = pc_max_response_size p\<rparr>
            (pc_name p) support (pc_request_timeout p) (pc_request_timeout p + 10)
      in case ps (pc_name p) of
           None \<Rightarrow> Inr (ps(pc_name p \<mapsto> (rq_rp, pc_inbound_queue p)))
         | Some _ \<Rightarrow> Inl (DuplicateProtocol (pc_name p)))"

definition broadcast_new ::
  "('rr, 'pid, 'ev) rr_ops \<Rightarrow> protocol_config list \<Rightarrow> register_error + ('rr, 'pid) broadcast" where
  "broadcast_new R list =
     (case fold_may (register_protocol R) list Map.empty of
        Inl e \<Rightarrow> Inl e
      | Inr ps \<Rightarrow> Inr \<lparr>protocols = ps, pending_requests = Map.empty, pending_responses = [],
          pending_responses_arrival_time = Map.empty, send_feedback = Map.empty\<rparr>)"

definition send_wire_message ::
  "('rr, 'pid, 'ev) rr_ops \<Rightarrow> bool \<Rightarrow> nat \<Rightarrow> 'pid \<Rightarrow> string \<Rightarrow> wire_message \<Rightarrow> chan option \<Rightarrow>
   if_disconnected \<Rightarrow> ('rr, 'pid) broadcast \<Rightarrow> panic + ('rr, 'pid) broadcast \<times> 'pid effect list" where
  "send_wire_message R dbg now target name message pending connect b =
     (case protocols b name of
        Some (protocol, q) \<Rightarrow>
          if rr_is_connected R protocol target \<or> should_connect connect then
            let (protocol', rid) = rr_send_request R protocol target message;
                prev = pending_requests b (name, rid);
                b' = b\<lparr>protocols := (protocols b)(name \<mapsto> (protocol', q)),
                       pending_requests :=
                         (pending_requests b)((name, rid) \<mapsto> (now, pending))\<rparr>
            in if dbg \<and> prev \<noteq> None then Inl ExplicitPanic else Inr (b', [])
          else
            Inr (b, case pending of None \<Rightarrow> [] | Some tx \<Rightarrow> [Reply tx (Inl NotConnected)])
      | None \<Rightarrow>
          Inr (b, case pending of None \<Rightarrow> [] | Some tx \<Rightarrow> [Reply tx (Inl UnknownProtocol)]))"

definition broadcast_send_message ::
  "('rr, 'pid, 'ev) rr_ops \<Rightarrow> bool \<Rightarrow> nat \<Rightarrow> 'pid \<Rightarrow> string \<Rightarrow> message_context \<Rightarrow> bytes \<Rightarrow> chan \<Rightarrow>
   if_disconnected \<Rightarrow> ('rr, 'pid) broadcast \<Rightarrow> panic + ('rr, 'pid) broadcast \<times> 'pid effect list" where
  "broadcast_send_message R dbg now target name ctx payload pending connect b =
     send_wire_message R dbg now target name
       \<lparr>wm_context = ctx, wm_payload = payload, wm_is_broadcast = False\<rparr> (Some pending) connect b"

fun broadcast_message ::
  "('rr, 'pid, 'ev) rr_ops \<Rightarrow> bool \<Rightarrow> nat \<Rightarrow> 'pid list \<Rightarrow> string \<Rightarrow> message_context \<Rightarrow> bytes \<Rightarrow>
   chan option \<Rightarrow> if_disconnected \<Rightarrow> ('rr, 'pid) broadcast \<Rightarrow>
   panic + ('rr, 'pid) broadcast \<times> 'pid effect list" where
  "broadcast_message R dbg now [] name ctx payload pending connect b = Inr (b, [])"
| "broadcast_message R dbg now (target # targets) name ctx payload pending connect b =
     and_then (send_wire_message R dbg now target name
       \<lparr>wm_context = ctx, wm_payload = payload, wm_is_broadcast = True\<rparr> pending connect b)
       (\<lambda>(b', es). map_sum id (\<lambda>(b'', es'). (b'', es @ es'))
          (broadcast_message R dbg now targets name ctx payload pending connect b'))"

text \<open>Every notification of the swarm goes to every protocol.\<close>

definition broadcast_notify ::
  "('rr, 'pid, 'ev) rr_ops \<Rightarrow> 'pid swarm_event \<Rightarrow> ('rr, 'pid) broadcast \<Rightarrow> ('rr, 'pid) broadcast" where
  "broadcast_notify R ev b =
     b\<lparr>protocols := (\<lambda>name. map_option (\<lambda>(p, q). (rr_notify R p ev, q)) (protocols b name))\<rparr>"

text \<open>An event of a connection handler goes to the protocol it is labelled with.\<close>

definition broadcast_inject_event ::
  "('rr, 'pid, 'ev) rr_ops \<Rightarrow> 'pid \<Rightarrow> string \<Rightarrow> 'ev \<Rightarrow> ('rr, 'pid) broadcast \<Rightarrow>
   ('rr, 'pid) broadcast" where
  "broadcast_inject_event R peer p_name ev b =
     (case protocols b p_name of
        Some (p, q) \<Rightarrow> b\<lparr>protocols := (protocols b)(p_name \<mapsto> (rr_inject_event R p peer ev, q))\<rparr>
      | None \<Rightarrow> b)"

section \<open>Polling\<close>

text \<open>
  First half of \<open>poll\<close>: a pending response has resolved, with the response of the application or
  with \<open>None\<close> when the application dropped the channel.
\<close>

definition on_outcome ::
  "('rr, 'pid, 'ev) rr_ops \<Rightarrow> 'pid pending_response \<Rightarrow> outgoing_response option \<Rightarrow>
   ('rr, 'pid) broadcast \<Rightarrow> ('rr, 'pid) broadcast" where
  "on_outcome R pr outcome b =
     (let b = b\<lparr>pending_responses := remove1 pr (pending_responses b)\<rparr> in
      case outcome of
        None \<Rightarrow> b
      | Some resp \<Rightarrow>
          (case or_result resp of
             Inl () \<Rightarrow> b
           | Inr payload \<Rightarrow>
               (case protocols b (pr_protocol pr) of
                  None \<Rightarrow> b
                | Some (p, q) \<Rightarrow>
                    let (p', sent) = rr_send_response R p (pr_channel pr) payload;
                        b' = b\<lparr>protocols := (protocols b)(pr_protocol pr \<mapsto> (p', q))\<rparr>
                    in if \<not> sent then b'
                       else case or_sent_feedback resp of
                         None \<Rightarrow> b'
                       | Some fb \<Rightarrow> b'\<lparr>send_feedback :=
                           (send_feedback b')((pr_protocol pr, pr_request_id pr) \<mapsto> fb)\<rparr>)))"

text \<open>
  Second half of \<open>poll\<close>: an event \<open>ev\<close> of the behaviour registered as \<open>protocol\<close>. The channel
  created for the response of an inbound request is \<open>tx\<close>; \<open>accepts\<close> says of a channel whether
  \<open>try_send\<close> on it succeeds. The result is the new state, the effects and the event handed to the
  swarm, if any.
\<close>

type_synonym ('rr, 'pid) polled =
  "panic + ('rr, 'pid) broadcast \<times> 'pid effect list \<times> 'pid broadcast_out option"

definition on_request ::
  "bool \<Rightarrow> nat \<Rightarrow> chan \<Rightarrow> string \<Rightarrow> 'pid \<Rightarrow> request_id \<Rightarrow> wire_message \<Rightarrow> chan \<Rightarrow>
   ('rr, 'pid) broadcast \<Rightarrow> ('rr, 'pid) polled" where
  "on_request dbg now tx protocol peer rid request channel b =
     (let b = b\<lparr>pending_responses_arrival_time :=
                  (pending_responses_arrival_time b)((protocol, rid) \<mapsto> now)\<rparr>;
          b' = b\<lparr>pending_responses := pending_responses b @
                  [\<lparr>pr_peer = peer, pr_request_id = rid, pr_protocol = protocol,
                    pr_channel = channel, pr_rx = tx\<rparr>]\<rparr>
      in case Option.bind (protocols b protocol) snd of
           Some q \<Rightarrow>
             Inr (b', [Inbound q \<lparr>im_peer_id = peer, im_peer_index = 0,
               im_payload = wm_payload request, im_is_broadcast = wm_is_broadcast request,
               im_pending_response = tx, im_context = wm_context request\<rparr>], None)
         | None \<Rightarrow> if dbg then Inl ExplicitPanic else Inr (b', [], None))"

definition on_response ::
  "bool \<Rightarrow> nat \<Rightarrow> (chan \<Rightarrow> bool) \<Rightarrow> string \<Rightarrow> 'pid \<Rightarrow> request_id \<Rightarrow> response \<Rightarrow>
   ('rr, 'pid) broadcast \<Rightarrow> ('rr, 'pid) polled" where
  "on_response dbg now accepts protocol peer rid resp b =
     (case pending_requests b (protocol, rid) of
        Some (started, pending) \<Rightarrow>
          let b' = b\<lparr>pending_requests := (pending_requests b)((protocol, rid) := None)\<rparr>;
              reply = map_sum (\<lambda>_. Refused) (\<lambda>r. (peer, r)) resp;
              delivered = (case pending of
                  None \<Rightarrow> Inr () | Some tx \<Rightarrow> if accepts tx then Inr () else Inl Obsolete)
          in Inr (b', (case pending of None \<Rightarrow> [] | Some tx \<Rightarrow> [Reply tx reply]),
               Some (BroadcastFinished peer protocol (now - started) delivered))
      | None \<Rightarrow> if dbg then Inl ExplicitPanic else Inr (b, [], None))"

definition on_outbound_failure ::
  "bool \<Rightarrow> nat \<Rightarrow> string \<Rightarrow> 'pid \<Rightarrow> request_id \<Rightarrow> outbound_failure \<Rightarrow>
   ('rr, 'pid) broadcast \<Rightarrow> ('rr, 'pid) polled" where
  "on_outbound_failure dbg now protocol peer rid error b =
     (case pending_requests b (protocol, rid) of
        Some (started, pending) \<Rightarrow>
          Inr (b\<lparr>pending_requests := (pending_requests b)((protocol, rid) := None)\<rparr>,
               (case pending of None \<Rightarrow> [] | Some tx \<Rightarrow> [Reply tx (Inl (Network error))]),
               Some (BroadcastFinished peer protocol (now - started) (Inl (Network error))))
      | None \<Rightarrow> if dbg then Inl ExplicitPanic else Inr (b, [], None))"

definition on_inbound_failure ::
  "string \<Rightarrow> 'pid \<Rightarrow> request_id \<Rightarrow> inbound_failure \<Rightarrow> ('rr, 'pid) broadcast \<Rightarrow>
   ('rr, 'pid) polled" where
  "on_inbound_failure protocol peer rid error b =
     Inr (b\<lparr>pending_responses_arrival_time :=
              (pending_responses_arrival_time b)((protocol, rid) := None),
            send_feedback := (send_feedback b)((protocol, rid) := None)\<rparr>,
          [], Some (InboundMessage peer protocol (Inl (ResponseNetwork error))))"

definition on_response_sent ::
  "nat \<Rightarrow> string \<Rightarrow> 'pid \<Rightarrow> request_id \<Rightarrow> ('rr, 'pid) broadcast \<Rightarrow> ('rr, 'pid) polled" where
  "on_response_sent now protocol peer rid b =
     (case pending_responses_arrival_time b (protocol, rid) of
        None \<Rightarrow> Inl ExpectFailed
      | Some t \<Rightarrow>
          Inr (b\<lparr>pending_responses_arrival_time :=
                   (pending_responses_arrival_time b)((protocol, rid) := None),
                 send_feedback := (send_feedback b)((protocol, rid) := None)\<rparr>,
               (case send_feedback b (protocol, rid) of None \<Rightarrow> [] | Some fb \<Rightarrow> [Feedback fb]),
               Some (InboundMessage peer protocol (Inr (now - t)))))"

fun on_event ::
  "bool \<Rightarrow> nat \<Rightarrow> chan \<Rightarrow> (chan \<Rightarrow> bool) \<Rightarrow> string \<Rightarrow> 'pid rr_event \<Rightarrow> ('rr, 'pid) broadcast \<Rightarrow>
   ('rr, 'pid) polled" where
  "on_event dbg now tx accepts protocol (RequestReceived peer rid request channel) b =
     on_request dbg now tx protocol peer rid request channel b"
| "on_event dbg now tx accepts protocol (ResponseReceived peer rid resp) b =
     on_response dbg now accepts protocol peer rid resp b"
| "on_event dbg now tx accepts protocol (OutboundFailure peer rid error) b =
     on_outbound_failure dbg now protocol peer rid error b"
| "on_event dbg now tx accepts protocol (InboundFailure peer rid error) b =
     on_inbound_failure protocol peer rid error b"
| "on_event dbg now tx accepts protocol (ResponseSent peer rid) b =
     on_response_sent now protocol peer rid b"

section \<open>Registration\<close>

lemma register_protocol_simps:
  "ps (pc_name p) = None \<Longrightarrow> \<exists>v. register_protocol R p ps = Inr (ps(pc_name p \<mapsto> v)) \<and>
     snd v = pc_inbound_queue p"
  "ps (pc_name p) = Some v \<Longrightarrow> register_protocol R p ps = Inl (DuplicateProtocol (pc_name p))"
  by (auto simp: register_protocol_def Let_def)

definition duplicate_in :: "string set \<Rightarrow> protocol_config list \<Rightarrow> string \<Rightarrow> bool" where
  "duplicate_in seen list n \<longleftrightarrow>
     (\<exists>xs p ys. list = xs @ p # ys \<and> pc_name p = n \<and> distinct (map pc_name xs) \<and>
        pc_name ` set xs \<inter> seen = {} \<and> n \<in> seen \<union> pc_name ` set xs)"

lemma duplicate_in_Cons:
  assumes "duplicate_in (insert (pc_name p) seen) list n" and "pc_name p \<notin> seen"
  shows "duplicate_in seen (p # list) n"
proof -
  from assms(1) obtain xs q ys where "list = xs @ q # ys" "pc_name q = n"
    "distinct (map pc_name xs)" "pc_name ` set xs \<inter> insert (pc_name p) seen = {}"
    "n \<in> insert (pc_name p) seen \<union> pc_name ` set xs"
    unfolding duplicate_in_def by blast
  then have "p # list = (p # xs) @ q # ys \<and> pc_name q = n \<and> distinct (map pc_name (p # xs)) \<and>
      pc_name ` set (p # xs) \<inter> seen = {} \<and> n \<in> seen \<union> pc_name ` set (p # xs)"
    using assms(2) by fastforce
  then show ?thesis unfolding duplicate_in_def by blast
qed

lemma register_all_Inr:
  "fold_may (register_protocol R) list ps = Inr ps' \<Longrightarrow>
     distinct (map pc_name list) \<and> pc_name ` set list \<inter> dom ps = {} \<and>
     dom ps' = dom ps \<union> pc_name ` set list"
proof (induction list arbitrary: ps)
  case Nil
  then show ?case by simp
next
  case (Cons p list)
  have fresh: "ps (pc_name p) = None"
    using Cons.prems register_protocol_simps(2) [of ps p _ R] by (cases "ps (pc_name p)") fastforce+
  from register_protocol_simps(1) [of ps p R, OF this] obtain v
    where "register_protocol R p ps = Inr (ps(pc_name p \<mapsto> v))" by blast
  with Cons.prems have "fold_may (register_protocol R) list (ps(pc_name p \<mapsto> v)) = Inr ps'"
    by simp
  from Cons.IH [OF this] fresh show ?case by (auto simp: domIff)
qed

lemma register_all_Inl:
  "fold_may (register_protocol R) list ps = Inl (DuplicateProtocol n) \<Longrightarrow>
     duplicate_in (dom ps) list n"
proof (induction list arbitrary: ps)
  case Nil
  then show ?case by simp
next
  case (Cons p list)
  show ?case
  proof (cases "ps (pc_name p)")
    case None
    from register_protocol_simps(1) [of ps p R, OF None] obtain v
      where "register_protocol R p ps = Inr (ps(pc_name p \<mapsto> v))" by blast
    with Cons.prems
    have "fold_may (register_protocol R) list (ps(pc_name p \<mapsto> v)) = Inl (DuplicateProtocol n)"
      by simp
    from Cons.IH [OF this] have "duplicate_in (insert (pc_name p) (dom ps)) list n"
      by (simp only: dom_fun_upd option.distinct if_False)
    then show ?thesis by (rule duplicate_in_Cons) (use None in \<open>simp add: domIff\<close>)
  next
    case (Some v)
    with Cons.prems register_protocol_simps(2) [of ps p v R, OF Some] have "n = pc_name p" by simp
    with Some show ?thesis
      unfolding duplicate_in_def by (intro exI [of _ "[]"] exI [of _ p] exI [of _ list]) auto
  qed
qed

lemma broadcast_new_outcome:
  "(case broadcast_new R list of
      Inr b \<Rightarrow> distinct (map pc_name list) \<and> dom (protocols b) = pc_name ` set list \<and>
        pending_requests b = Map.empty \<and> pending_responses_arrival_time b = Map.empty
    | Inl (DuplicateProtocol n) \<Rightarrow> \<not> distinct (map pc_name list) \<and> duplicate_in {} list n)"
proof (cases "fold_may (register_protocol R) list Map.empty")
  case (Inl e)
  obtain n where e: "e = DuplicateProtocol n" by (cases e)
  with Inl register_all_Inl [of R list Map.empty n] have "duplicate_in {} list n" by simp
  moreover from this have "\<not> distinct (map pc_name list)"
    by (auto simp: duplicate_in_def)
  ultimately show ?thesis using Inl e by (simp add: broadcast_new_def)
next
  case (Inr ps)
  with register_all_Inr [OF Inr] show ?thesis by (simp add: broadcast_new_def)
qed

text \<open>
  Registering the room protocols of a node succeeds exactly when their names are distinct,
  and then registers exactly these names with no request outstanding; otherwise the error names
  the first protocol whose name was registered before it.
\<close>

theorem broadcast_new_registers:
  "(case broadcast_new R list of
      Inr b \<Rightarrow> distinct (map pc_name list) \<and> dom (protocols b) = pc_name ` set list \<and>
        pending_requests b = Map.empty \<and> pending_responses_arrival_time b = Map.empty
    | Inl (DuplicateProtocol n) \<Rightarrow> \<not> distinct (map pc_name list) \<and> duplicate_in {} list n)"
  by (rule broadcast_new_outcome)

section \<open>Outbound requests\<close>

text \<open>Outstanding identifiers are among those the behaviour has given out.\<close>

definition outbound_inv :: "('rr \<Rightarrow> request_id set) \<Rightarrow> ('rr, 'pid) broadcast \<Rightarrow> bool" where
  "outbound_inv used b \<longleftrightarrow>
     finite (dom (pending_requests b)) \<and>
     (\<forall>name rid. pending_requests b (name, rid) \<noteq> None \<longrightarrow>
        (\<exists>p q. protocols b name = Some (p, q) \<and> rid \<in> used p))"

lemma send_wire_message_cases:
  assumes "rr_fresh R used" and inv: "outbound_inv used b"
  obtains (sent) p q rid b' where "protocols b name = Some (p, q)"
      and "rr_is_connected R p target \<or> should_connect connect"
      and "send_wire_message R dbg now target name m pending connect b = Inr (b', [])"
      and "pending_requests b (name, rid) = None"
      and "pending_requests b' = (pending_requests b)((name, rid) \<mapsto> (now, pending))"
      and "outbound_inv used b'" and "dom (protocols b') = dom (protocols b)"
  | (failed) e where "\<not> (\<exists>p q. protocols b name = Some (p, q) \<and>
        (rr_is_connected R p target \<or> should_connect connect))"
      and "e = (if name \<in> dom (protocols b) then NotConnected else UnknownProtocol)"
      and "send_wire_message R dbg now target name m pending connect b =
        Inr (b, case pending of None \<Rightarrow> [] | Some tx \<Rightarrow> [Reply tx (Inl e)])"
proof (cases "\<exists>p q. protocols b name = Some (p, q) \<and>
        (rr_is_connected R p target \<or> should_connect connect)")
  case False
  then show thesis
    by (intro failed [OF False refl])
       (auto simp: send_wire_message_def split: option.splits)
next
  case True
  then obtain p q where pq: "protocols b name = Some (p, q)"
    and c: "rr_is_connected R p target \<or> should_connect connect" by blast
  obtain p' rid where req: "rr_send_request R p target m = (p', rid)" by force
  from assms(1) have "rid \<notin> used p" and used: "used p' = insert rid (used p)"
    unfolding rr_fresh_def by (metis req fst_conv snd_conv)+
  with inv pq have none: "pending_requests b (name, rid) = None"
    unfolding outbound_inv_def by fastforce
  let ?b = "b\<lparr>protocols := (protocols b)(name \<mapsto> (p', q)),
     pending_requests := (pending_requests b)((name, rid) \<mapsto> (now, pending))\<rparr>"
  have "send_wire_message R dbg now target name m pending connect b = Inr (?b, [])"
    using pq c req none by (auto simp: send_wire_message_def)
  moreover have "outbound_inv used ?b"
    using inv pq used unfolding outbound_inv_def by fastforce
  ultimately show thesis using sent [OF pq c _ none] pq by force
qed

lemma broadcast_message_settles:
  assumes "rr_fresh R used" and "outbound_inv used b"
  shows "\<exists>b' es. broadcast_message R dbg now targets name ctx payload (Some tx) connect b =
           Inr (b', es) \<and> outbound_inv used b' \<and>
         card (dom (pending_requests b')) + length es =
           card (dom (pending_requests b)) + length targets \<and>
         pending_requests b \<subseteq>\<^sub>m pending_requests b' \<and>
         (\<forall>k. pending_requests b k = None \<and> pending_requests b' k \<noteq> None \<longrightarrow>
            pending_requests b' k = Some (now, Some tx) \<and> fst k = name) \<and>
         set es \<subseteq> {Reply tx (Inl NotConnected), Reply tx (Inl UnknownProtocol)}"
  using assms(2)
proof (induction targets arbitrary: b)
  case Nil
  then show ?case by auto
next
  case (Cons t ts)
  let ?m = "\<lparr>wm_context = ctx, wm_payload = payload, wm_is_broadcast = True\<rparr>"
  show ?case
    using assms(1) Cons.prems
  proof (cases rule: send_wire_message_cases [where name = name and target = t and m = ?m and
      connect = connect and dbg = dbg and now = now and pending = "Some tx"])
    case (sent p q rid b1)
    have fin: "finite (dom (pending_requests b))" using Cons.prems by (simp add: outbound_inv_def)
    from Cons.IH [OF sent(6)] obtain b2 es where
      run: "broadcast_message R dbg now ts name ctx payload (Some tx) connect b1 = Inr (b2, es)"
      and inv: "outbound_inv used b2"
      and cnt: "card (dom (pending_requests b2)) + length es =
        card (dom (pending_requests b1)) + length ts"
      and sub: "pending_requests b1 \<subseteq>\<^sub>m pending_requests b2"
      and new: "\<forall>k. pending_requests b1 k = None \<and> pending_requests b2 k \<noteq> None \<longrightarrow>
        pending_requests b2 k = Some (now, Some tx) \<and> fst k = name"
      and es: "set es \<subseteq> {Reply tx (Inl NotConnected), Reply tx (Inl UnknownProtocol)}"
      by blast
    have "card (dom (pending_requests b1)) = Suc (card (dom (pending_requests b)))"
      using sent(4,5) fin by (simp add: card_insert_if domIff)
    moreover have le: "pending_requests b \<subseteq>\<^sub>m pending_requests b1"
      using sent(4,5) by (auto simp: map_le_def)
    moreover have this_new: "pending_requests b2 (name, rid) = Some (now, Some tx)"
      using sub sent(5) by (auto simp: map_le_def)
    moreover have "broadcast_message R dbg now (t # ts) name ctx payload (Some tx) connect b =
        Inr (b2, es)"
      using sent(3) run by simp
    moreover have "pending_requests b2 k = Some (now, Some tx) \<and> fst k = name"
      if "pending_requests b k = None" "pending_requests b2 k \<noteq> None" for k
    proof (cases "k = (name, rid)")
      case True
      with this_new show ?thesis by simp
    next
      case False
      with sent(5) that(1) have "pending_requests b1 k = None" by simp
      with new that(2) show ?thesis by blast
    qed
    ultimately show ?thesis
      using cnt inv es map_le_trans [OF le sub]
      by (intro exI [of _ b2] exI [of _ es]) simp
  next
    case (failed e)
    from Cons.IH [OF Cons.prems] failed show ?thesis by auto
  qed
qed

text \<open>
  In a registered room and with \<open>TryConnect\<close> no target fails at once: the room's behaviour is asked to
  send the message to every target, once and in order.
\<close>

lemma broadcast_message_registered:
  assumes "protocols b name = Some (p, q)" and "should_connect connect"
    and "broadcast_message R dbg now targets name ctx payload pending connect b = Inr (b', es)"
  shows "es = [] \<and> protocols b' = (protocols b)(name \<mapsto>
      (foldl (\<lambda>p t. fst (rr_send_request R p t
         \<lparr>wm_context = ctx, wm_payload = payload, wm_is_broadcast = True\<rparr>)) p targets, q))"
  using assms
proof (induction targets arbitrary: b es p)
  case Nil
  then show ?case by (simp add: fun_upd_idem)
next
  case (Cons t ts)
  let ?m = "\<lparr>wm_context = ctx, wm_payload = payload, wm_is_broadcast = True\<rparr>"
  obtain b1 es1 where
    step: "send_wire_message R dbg now t name ?m pending connect b = Inr (b1, es1)"
    using Cons.prems(3)
    by (cases "send_wire_message R dbg now t name ?m pending connect b") auto
  obtain es2 where
    rest: "broadcast_message R dbg now ts name ctx payload pending connect b1 = Inr (b', es2)"
    and es: "es = es1 @ es2"
    using Cons.prems(3) step
    by (cases "broadcast_message R dbg now ts name ctx payload pending connect b1") auto
  from step Cons.prems(1,2) have "es1 = []"
    and p1: "protocols b1 = (protocols b)(name \<mapsto> (fst (rr_send_request R p t ?m), q))"
    by (auto simp: send_wire_message_def Let_def split: prod.splits if_splits)
  then have "protocols b1 name = Some (fst (rr_send_request R p t ?m), q)" by simp
  from Cons.IH [OF this Cons.prems(2) rest] es p1 \<open>es1 = []\<close> show ?case
    by (simp only: fun_upd_upd foldl_Cons append_Nil simp_thms)
qed

text \<open>In a room that is not registered every target fails at once.\<close>

lemma broadcast_message_unregistered:
  "protocols b name = None \<Longrightarrow>
     broadcast_message R dbg now targets name ctx payload pending connect b =
       Inr (b, case pending of None \<Rightarrow> []
         | Some tx \<Rightarrow> replicate (length targets) (Reply tx (Inl UnknownProtocol)))"
  by (induction targets) (auto simp: send_wire_message_def split: option.splits)

text \<open>
  A broadcast leaves no target unaccounted for. Whatever the connections, the protocol and the
  number of targets, it does not panic; for every target there is either one new outstanding
  request, whose reply channel is the caller's, or one immediate failure sent to that channel; the
  requests that were outstanding before stay outstanding.
\<close>

theorem broadcast_message_accounts:
  assumes "rr_fresh R used" and "outbound_inv used b"
  shows "\<exists>b' es. broadcast_message R dbg now targets name ctx payload (Some tx) connect b =
           Inr (b', es) \<and> outbound_inv used b' \<and>
         card (dom (pending_requests b')) + length es =
           card (dom (pending_requests b)) + length targets \<and>
         pending_requests b \<subseteq>\<^sub>m pending_requests b' \<and>
         (\<forall>k. pending_requests b k = None \<and> pending_requests b' k \<noteq> None \<longrightarrow>
            pending_requests b' k = Some (now, Some tx) \<and> fst k = name) \<and>
         set es \<subseteq> {Reply tx (Inl NotConnected), Reply tx (Inl UnknownProtocol)}"
  by (rule broadcast_message_settles [OF assms])

text \<open>A sample behaviour for the witnesses: it counts its requests and is connected to no one.\<close>

definition sample_rr :: "(nat, nat, unit) rr_ops" where
  "sample_rr = \<lparr>rr_new = (\<lambda>c n s t k. 0), rr_is_connected = (\<lambda>s p. False),
     rr_send_request = (\<lambda>s p m. (Suc s, s)), rr_send_response = (\<lambda>s c p. (s, True)),
     rr_notify = (\<lambda>s e. s), rr_inject_event = (\<lambda>s p e. s)\<rparr>"

lemma sample_rr_fresh: "rr_fresh sample_rr (\<lambda>s. {..<s})"
  by (auto simp: rr_fresh_def sample_rr_def)

definition sample_broadcast :: "(nat, nat) broadcast" where
  "sample_broadcast = \<lparr>protocols = [''room'' \<mapsto> (0, Some 7)], pending_requests = Map.empty,
     pending_responses = [], pending_responses_arrival_time = Map.empty,
     send_feedback = Map.empty\<rparr>"

lemma sample_broadcast_inv: "outbound_inv (\<lambda>s. {..<s}) sample_broadcast"
  by (simp add: outbound_inv_def sample_broadcast_def)

theorem broadcast_message_accounts_witness:
  "\<exists>b' es. broadcast_message sample_rr True 3 [1, 2, 5] ''room'' 
       \<lparr>message_type = Coordination, session_id = 0, protocol_id = 0\<rparr> [9] (Some 4) TryConnect
       sample_broadcast = Inr (b', es) \<and>
     card (dom (pending_requests b')) + length es = 3"
  using broadcast_message_accounts [OF sample_rr_fresh sample_broadcast_inv,
      of True 3 "[1, 2, 5]" "''room''" "\<lparr>message_type = Coordination, session_id = 0, protocol_id = 0\<rparr>"
        "[9]" 4 TryConnect]
  by (auto simp: sample_broadcast_def)

section \<open>Replies and failures\<close>

text \<open>
  An outstanding request is settled at most once. The event that settles it, a response or a
  network failure, sends exactly one reply on the request's channel, forgets the request and
  nothing else, and reports the request as finished; a second event for the same request sends
  nothing and changes nothing (and is caught by a debug assertion).
\<close>

theorem outbound_request_settled_once:
  assumes "pending_requests b (name, rid) = Some (started, Some tx)"
    and "ev = ResponseReceived peer rid resp \<or> ev = OutboundFailure peer rid err"
  shows "\<exists>b' r out. on_event dbg now c accepts name ev b = Inr (b', [Reply tx r], Some out) \<and>
      pending_requests b' = (pending_requests b)((name, rid) := None) \<and>
      protocols b' = protocols b \<and>
      (case ev of ResponseReceived _ _ (Inr p) \<Rightarrow> r = Inr (peer, p)
         | ResponseReceived _ _ (Inl _) \<Rightarrow> r = Inl Refused | _ \<Rightarrow> r = Inl (Network err)) \<and>
      on_event False now' c' accepts name ev b' = Inr (b', [], None) \<and>
      on_event True now' c' accepts name ev b' = Inl ExplicitPanic"
  using assms(2)
proof (elim disjE)
  assume ev: "ev = ResponseReceived peer rid resp"
  with assms(1) show ?thesis
    by (cases resp) (auto simp: on_response_def Let_def)
next
  assume ev: "ev = OutboundFailure peer rid err"
  with assms(1) show ?thesis by (auto simp: on_outbound_failure_def)
qed

theorem outbound_request_settled_once_witness:
  "\<exists>b' r out. on_event True 9 0 (\<lambda>c. True) ''room'' (ResponseReceived 1 0 (Inr [5]))
      (sample_broadcast\<lparr>pending_requests := [(''room'', 0) \<mapsto> (3, Some 4)]\<rparr>) =
        Inr (b', [Reply 4 r], Some out) \<and> pending_requests b' (''room'', 0) = None"
  using outbound_request_settled_once
    [of "sample_broadcast\<lparr>pending_requests := [(''room'', 0) \<mapsto> (3, Some 4)]\<rparr>" "''room''" 0 3 4
      "ResponseReceived 1 0 (Inr [5])" 1 "Inr [5]" "''closed''" True 9 0 "\<lambda>c. True" 0 0]
  by (auto simp: sample_broadcast_def)

section \<open>Inbound requests\<close>

text \<open>
  The reachable states of the multiplexer, with the set of the inbound requests that are live: an
  inbound request is announced once, under an identifier that is not live, and libp2p reports
  \<open>ResponseSent\<close> only for a request that was announced and has not failed. An
  \<open>InboundFailure\<close> may also be reported for a request that was never announced (it failed while
  it was being read). Everything else may happen in any order.
\<close>

inductive bc_reach ::
  "('rr, 'pid, 'ev) rr_ops \<Rightarrow> bool \<Rightarrow> ('rr, 'pid) broadcast \<Rightarrow> protocol_request_id set \<Rightarrow> bool"
  for R dbg where
  bc_init: "broadcast_new R cfgs = Inr b \<Longrightarrow> bc_reach R dbg b {}"
| bc_send: "bc_reach R dbg b L \<Longrightarrow>
     send_wire_message R dbg now target name m pending connect b = Inr (b', es) \<Longrightarrow>
     bc_reach R dbg b' L"
| bc_notify: "bc_reach R dbg b L \<Longrightarrow> bc_reach R dbg (broadcast_notify R sev b) L"
| bc_inject: "bc_reach R dbg b L \<Longrightarrow> bc_reach R dbg (broadcast_inject_event R peer name hev b) L"
| bc_outcome: "bc_reach R dbg b L \<Longrightarrow> pr \<in> set (pending_responses b) \<Longrightarrow>
     bc_reach R dbg (on_outcome R pr outcome b) L"
| bc_request: "bc_reach R dbg b L \<Longrightarrow> (name, rid) \<notin> L \<Longrightarrow>
     on_event dbg now tx accepts name (RequestReceived peer rid m ch) b = Inr (b', es, out) \<Longrightarrow>
     bc_reach R dbg b' (insert (name, rid) L)"
| bc_response: "bc_reach R dbg b L \<Longrightarrow>
     on_event dbg now tx accepts name (ResponseReceived peer rid resp) b = Inr (b', es, out) \<Longrightarrow>
     bc_reach R dbg b' L"
| bc_outbound_failure: "bc_reach R dbg b L \<Longrightarrow>
     on_event dbg now tx accepts name (OutboundFailure peer rid err) b = Inr (b', es, out) \<Longrightarrow>
     bc_reach R dbg b' L"
| bc_inbound_failure: "bc_reach R dbg b L \<Longrightarrow>
     on_event dbg now tx accepts name (InboundFailure peer rid ierr) b = Inr (b', es, out) \<Longrightarrow>
     bc_reach R dbg b' (L - {(name, rid)})"
| bc_response_sent: "bc_reach R dbg b L \<Longrightarrow> (name, rid) \<in> L \<Longrightarrow>
     on_event dbg now tx accepts name (ResponseSent peer rid) b = Inr (b', es, out) \<Longrightarrow>
     bc_reach R dbg b' (L - {(name, rid)})"

lemma send_wire_message_arrival [frame_simps]:
  "send_wire_message R dbg now target name m pending connect b = Inr (b', es) \<Longrightarrow>
     pending_responses_arrival_time b' = pending_responses_arrival_time b"
  by (auto simp: send_wire_message_def Let_def split: option.splits prod.splits if_splits)

lemma on_outcome_arrival [frame_simps]:
  "pending_responses_arrival_time (on_outcome R pr outcome b) = pending_responses_arrival_time b"
  by (auto simp: on_outcome_def Let_def split: option.splits prod.splits sum.splits unit.splits)

lemma notify_arrival [frame_simps]:
  "pending_responses_arrival_time (broadcast_notify R sev b) = pending_responses_arrival_time b"
  "pending_responses_arrival_time (broadcast_inject_event R peer name hev b) =
     pending_responses_arrival_time b"
  by (auto simp: broadcast_notify_def broadcast_inject_event_def split: option.splits)

lemma on_event_arrival:
  assumes "on_event dbg now tx accepts name ev b = Inr (b', es, out)"
  shows "dom (pending_responses_arrival_time b') =
    (case ev of
       RequestReceived _ rid _ _ \<Rightarrow> insert (name, rid) (dom (pending_responses_arrival_time b))
     | InboundFailure _ rid _ \<Rightarrow> dom (pending_responses_arrival_time b) - {(name, rid)}
     | ResponseSent _ rid \<Rightarrow> dom (pending_responses_arrival_time b) - {(name, rid)}
     | _ \<Rightarrow> dom (pending_responses_arrival_time b))"
proof (cases ev)
  case (RequestReceived peer rid m ch)
  with assms show ?thesis
    by (clarsimp simp: on_request_def Let_def split: option.splits if_splits)
next
  case (ResponseReceived peer rid resp)
  with assms show ?thesis
    by (clarsimp simp: on_response_def Let_def split: option.splits if_splits)
next
  case (OutboundFailure peer rid err)
  with assms show ?thesis
    by (clarsimp simp: on_outbound_failure_def split: option.splits if_splits)
next
  case (InboundFailure peer rid err)
  with assms show ?thesis by (clarsimp simp: on_inbound_failure_def)
next
  case (ResponseSent peer rid)
  with assms show ?thesis by (clarsimp simp: on_response_sent_def split: option.splits)
qed

declare on_event.simps [simp del]

lemma bc_reach_arrival: "bc_reach R dbg b L \<Longrightarrow> dom (pending_responses_arrival_time b) = L"
proof (induction rule: bc_reach.induct)
  case (bc_init cfgs b)
  then show ?case by (auto simp: broadcast_new_def split: sum.splits)
next
  case (bc_send b L now target name m pending connect b' es)
  then show ?case by (simp add: send_wire_message_arrival)
qed (simp_all add: notify_arrival on_outcome_arrival on_event_arrival)

text \<open>
  The arrival times are kept for exactly the inbound requests that are live: they are recorded
  on arrival and dropped on success or failure, so the table does not grow with finished requests,
  and the \<open>expect\<close> on the arrival time of an answered request never fails.
\<close>

theorem inbound_bookkeeping:
  assumes "bc_reach R dbg b L"
  shows "dom (pending_responses_arrival_time b) = L \<and>
    ((name, rid) \<in> L \<longrightarrow>
       on_event dbg now tx accepts name (ResponseSent peer rid) b \<noteq> Inl ExpectFailed)"
  using bc_reach_arrival [OF assms]
  by (auto simp: on_event.simps on_response_sent_def split: option.splits)

theorem inbound_bookkeeping_witness:
  "on_event True 8 0 (\<lambda>c. True) ''room'' (ResponseSent (1::nat) 0)
     (sample_broadcast\<lparr>pending_responses_arrival_time := [(''room'', 0) \<mapsto> 3],
        pending_responses := [\<lparr>pr_peer = 1, pr_request_id = 0, pr_protocol = ''room'',
          pr_channel = 2, pr_rx = 5\<rparr>]\<rparr>) \<noteq> Inl ExpectFailed"
proof -
  let ?cfg = "\<lparr>pc_name = ''room'', pc_max_request_size = 1, pc_max_response_size = 1,
    pc_request_timeout = 1, pc_inbound_queue = Some 7\<rparr>"
  let ?m = "\<lparr>wm_context = \<lparr>message_type = Coordination, session_id = 0, protocol_id = 0\<rparr>,
    wm_payload = [], wm_is_broadcast = False\<rparr>"
  have "broadcast_new sample_rr [?cfg] = Inr sample_broadcast"
    by (simp add: broadcast_new_def register_protocol_def sample_rr_def sample_broadcast_def)
  then have "bc_reach sample_rr True sample_broadcast {}" by (rule bc_init)
  from bc_request [OF this, of "''room''" 0 3 5 "\<lambda>c. True" 1 ?m 2]
  have "bc_reach sample_rr True
     (sample_broadcast\<lparr>pending_responses_arrival_time := [(''room'', 0) \<mapsto> 3],
        pending_responses := [\<lparr>pr_peer = 1, pr_request_id = 0, pr_protocol = ''room'',
          pr_channel = 2, pr_rx = 5\<rparr>]\<rparr>) {(''room'', 0)}"
    by (simp add: on_event.simps on_request_def sample_broadcast_def)
  from inbound_bookkeeping [OF this, of "''room''" 0 8 0 "\<lambda>c. True" 1] show ?thesis by simp
qed

end
