(* ===== verification/Room.thy ===== *)
theory Room
  imports Prelude "HOL-Library.Char_ord"
begin

text \<open>
  Room identifiers (\<open>node/network/src/lib.rs\<close>). A room is identified by the hexadecimal BLAKE3 hash
  of its name; the hash is not part of the repository and is the argument \<open>blake3_hex\<close>. The type
  derives its order from the string that it wraps, which the instance of \<open>linorder\<close> states.
\<close>

datatype room_id = RoomId string

fun as_str :: "room_id \<Rightarrow> string" where
  "as_str (RoomId s) = s"

definition room_id_from :: "(string \<Rightarrow> string) \<Rightarrow> string \<Rightarrow> room_id" where
  "room_id_from blake3_hex name = RoomId (blake3_hex name)"

definition as_protocol_id :: "room_id \<Rightarrow> string" where
  "as_protocol_id r = ''/room/'' @ as_str r"

lemma as_str_inject [simp]: "as_str r = as_str r' \<longleftrightarrow> r = r'"
  by (cases r; cases r') simp

lemma as_protocol_id_inject [simp]: "as_protocol_id r = as_protocol_id r' \<longleftrightarrow> r = r'"
  by (simp add: as_protocol_id_def)

instantiation room_id :: linorder
begin

definition less_eq_room_id :: "room_id \<Rightarrow> room_id \<Rightarrow> bool" where
  "less_eq_room_id a b \<longleftrightarrow> as_str a \<le> as_str b"

definition less_room_id :: "room_id \<Rightarrow> room_id \<Rightarrow> bool" where
  "less_room_id a b \<longleftrightarrow> as_str a < as_str b"

instance
  by standard (auto simp: less_eq_room_id_def less_room_id_def less_le_not_le)

end

text \<open>The largest number of established connections per peer.\<close>

definition MAX_CONNECTIONS_PER_PEER :: nat where
  "MAX_CONNECTIONS_PER_PEER = 2"

end
