(* ===== verification/Service.thy ===== *)
theory Service
  imports Broadcast Room
begin

text \<open>
  The handle through which the runtime talks to the network worker
  (\<open>NetworkService\<close> in \<open>node/network/src/service.rs\<close>). Its operations send one
  \<open>NetworkMessage\<close> to the worker over an unbounded channel; an operation is the message that it
  sends. The borrowing and the owning variant of an operation send the same message.
\<close>

text \<open>A peer iterator is collected into a vector: its elements in order.\<close>

datatype 'pid net_routing =
    Broadcast bytes "chan option"
  | Multicast "'pid list" bytes "chan option"
  | SendDirect 'pid bytes chan

datatype 'pid network_message =
  RequestResponse (nm_room_id: room_id) (nm_context: message_context)
    (nm_message: "'pid net_routing")

record 'pid network_service =
  ns_local_peer_id :: 'pid

definition service_broadcast ::
  "room_id \<Rightarrow> message_context \<Rightarrow> bytes \<Rightarrow> chan option \<Rightarrow> 'pid network_message" where
  "service_broadcast room ctx payload response_sender =
     RequestResponse room ctx (Broadcast payload response_sender)"

definition service_multicast ::
  "room_id \<Rightarrow> 'pid list \<Rightarrow> message_context \<Rightarrow> bytes \<Rightarrow> chan option \<Rightarrow> 'pid network_message" where
  "service_multicast room peer_ids ctx payload response_sender =
     RequestResponse room ctx (Multicast peer_ids payload response_sender)"

definition service_send ::
  "room_id \<Rightarrow> 'pid \<Rightarrow> message_context \<Rightarrow> bytes \<Rightarrow> chan \<Rightarrow> 'pid network_message" where
  "service_send room peer ctx payload response_sender =
     RequestResponse room ctx (SendDirect peer payload response_sender)"

text \<open>
  Each operation ends with \<open>.send(..).await.expect(..)\<close>. The channel is unbounded, so that it is never
  full and a send fails only when the worker has dropped the receiver: then the caller panics.
  This is the outcome of sending the messages of one poll in turn.
\<close>

definition to_worker :: "bool \<Rightarrow> 'pid network_message list \<Rightarrow> panic + unit" where
  "to_worker worker_open msgs = (if worker_open \<or> msgs = [] then Inr () else Inl ExpectFailed)"

end
