(* ===== verification/Peerset.thy ===== *)
theory Peerset
  imports Std_IO
begin

text \<open>
  The set of the parties of one computation (\<open>node/runtime/src/peerset.rs\<close>): the peers in the
  order of their identifiers' bytes, the index of each party in the key-generation session, its
  byte encoding, and the recovery of the indexes from a cached peer set.

  Peer identifiers belong to libp2p: they are the type variable \<open>'pid\<close>, with the operations
  \<open>to_bytes\<close> and \<open>from_bytes\<close> in the argument \<open>P\<close>. \<open>pid_ok P\<close> states that decoding undoes encoding,
  and \<open>ed25519 P p\<close> that \<open>p\<close> is encoded in 38 bytes, as the identifier of an Ed25519 key is; the
  code reads peers in chunks of that width. The channel to the runtime that a \<open>Peerset\<close> carries
  only transports the cache requests and appears as the argument that holds the cache's answer.
\<close>

section \<open>Peer identifiers\<close>

record 'pid pid_ops =
  pid_to_bytes :: "'pid \<Rightarrow> bytes"
  pid_from_bytes :: "bytes \<Rightarrow> 'pid option"

definition pid_ok :: "'pid pid_ops \<Rightarrow> bool" where
  "pid_ok P \<longleftrightarrow> (\<forall>p. pid_from_bytes P (pid_to_bytes P p) = Some p)"

definition ed25519 :: "'pid pid_ops \<Rightarrow> 'pid \<Rightarrow> bool" where
  "ed25519 P p \<longleftrightarrow> length (pid_to_bytes P p) = 38"

lemma pid_okD [simp, codec_simps]: "pid_ok P \<Longrightarrow> pid_from_bytes P (pid_to_bytes P p) = Some p"
  by (simp add: pid_ok_def)

lemma pid_to_bytes_inj: "pid_ok P \<Longrightarrow> inj_on (pid_to_bytes P) A"
  by (metis inj_onI option.inject pid_okD)

section \<open>The peer set\<close>

record 'pid peerset =
  local_peer_id :: 'pid
  session_peers :: "'pid list"
  parties_indexes :: "nat list"

definition peerset_new :: "'pid pid_ops \<Rightarrow> 'pid list \<Rightarrow> 'pid \<Rightarrow> 'pid peerset" where
  "peerset_new P peers local =
     (let peers = sort_key (pid_to_bytes P) peers in
      \<lparr>local_peer_id = local, session_peers = peers, parties_indexes = [0..<length peers]\<rparr>)"

definition index_of :: "'pid peerset \<Rightarrow> 'pid \<Rightarrow> u16 option" where
  "index_of ps p = map_option word_of_nat (position (\<lambda>elem. elem = p) (session_peers ps))"

definition peerset_size :: "'pid peerset \<Rightarrow> nat" where
  "peerset_size ps = length (session_peers ps)"

text \<open>\<open>Index<u16>\<close>: an index past the end of the vector panics.\<close>

definition peerset_index :: "'pid peerset \<Rightarrow> u16 \<Rightarrow> panic + 'pid" where
  "peerset_index ps i =
     (if unat i < length (session_peers ps) then Inr (session_peers ps ! unat i)
      else Inl IndexOutOfBounds)"

definition remotes_iter :: "'pid peerset \<Rightarrow> 'pid list" where
  "remotes_iter ps = filter (\<lambda>p. p \<noteq> local_peer_id ps) (session_peers ps)"

definition peerset_into_iter :: "'pid peerset \<Rightarrow> 'pid list" where
  "peerset_into_iter ps = session_peers ps"

section \<open>Encoding\<close>

text \<open>
  \<open>to_bytes\<close> walks over the peers with their positions; \<open>parties_indexes[i]\<close> panics when there are
  fewer indexes than peers, and the index is cast to a byte.
\<close>

fun to_bytes_from :: "'pid pid_ops \<Rightarrow> nat list \<Rightarrow> nat \<Rightarrow> 'pid list \<Rightarrow> panic + bytes" where
  "to_bytes_from P idx i [] = Inr []"
| "to_bytes_from P idx i (p # ps) =
     (if i < length idx
      then map_sum id (\<lambda>tl. pid_to_bytes P p @ word_of_nat (idx ! i) # tl)
             (to_bytes_from P idx (Suc i) ps)
      else Inl IndexOutOfBounds)"

definition peerset_to_bytes :: "'pid pid_ops \<Rightarrow> 'pid peerset \<Rightarrow> panic + bytes" where
  "peerset_to_bytes P ps = to_bytes_from P (parties_indexes ps) 0 (session_peers ps)"

text \<open>
  The loop of \<open>from_bytes\<close>: a read of fewer than 38 bytes ends it, an identifier that does not
  decode panics (\<open>unwrap\<close>), and a missing index byte leaves the zero of the fresh buffer.
\<close>

function read_peers :: "'pid pid_ops \<Rightarrow> buf_reader \<Rightarrow> panic + 'pid list \<times> nat list" where
  "read_peers P reader =
     (case br_read 38 reader of
        (buf, reader') \<Rightarrow>
          if length buf \<noteq> 38 then Inr ([], [])
          else case pid_from_bytes P buf of
            None \<Rightarrow> Inl UnwrapFailed
          | Some p \<Rightarrow>
              (case br_read 1 reader' of
                 (buf1, reader'') \<Rightarrow>
                   (case read_peers P reader'' of
                      Inl e \<Rightarrow> Inl e
                    | Inr (peers, idx) \<Rightarrow>
                        Inr (p # peers, (case buf1 of [] \<Rightarrow> 0 | b # _ \<Rightarrow> unat b) # idx))))"
  by pat_completeness auto
termination
  by (relation "measure (\<lambda>(P, r). length (br_contents r))")
     (auto dest!: sym [of "(_, _)" "br_read _ _"] br_read_contents_length)

declare read_peers.simps [simp del]

definition peerset_from_bytes :: "'pid pid_ops \<Rightarrow> bytes \<Rightarrow> 'pid \<Rightarrow> panic + 'pid peerset" where
  "peerset_from_bytes P bytes local =
     (case read_peers P (br_new bytes) of
        Inl e \<Rightarrow> Inl e
      | Inr (peers, active_indexes) \<Rightarrow>
          Inr \<lparr>local_peer_id = local, session_peers = sort_key (pid_to_bytes P) peers,
               parties_indexes = active_indexes\<rparr>)"

section \<open>Recovery from a cached peer set\<close>

text \<open>
  The loop of \<open>recover_from_cache\<close> over the session's peers: a peer that the cache does not have
  is skipped; the position in the cache is a \<open>u16\<close>, and the cache's own index vector may be too
  short for it.
\<close>

fun recover_indexes :: "'pid peerset \<Rightarrow> 'pid list \<Rightarrow> panic + nat list" where
  "recover_indexes cache [] = Inr []"
| "recover_indexes cache (p # ps) =
     (case index_of cache p of
        None \<Rightarrow> recover_indexes cache ps
      | Some i \<Rightarrow>
          if unat i < length (parties_indexes cache)
          then map_sum id (\<lambda>is. parties_indexes cache ! unat i # is) (recover_indexes cache ps)
          else Inl IndexOutOfBounds)"

definition recover_from_cache ::
  "'pid pid_ops \<Rightarrow> 'e + 'pid peerset \<Rightarrow> 'pid peerset \<Rightarrow> 'e fault + 'pid peerset" where
  "recover_from_cache P answer ps =
     and_then (map_sum Err id answer) (\<lambda>cache.
     and_then (panics (recover_indexes cache (sort_key (pid_to_bytes P) (session_peers ps))))
       (\<lambda>is. Inr (ps\<lparr>parties_indexes := is\<rparr>)))"

section \<open>Well-formed peer sets\<close>

text \<open>
  What \<open>new\<close> establishes and the encoding needs: the peers are sorted by their bytes and all
  Ed25519, every peer has an index, and the indexes fit in a byte.
\<close>

definition peerset_wf :: "'pid pid_ops \<Rightarrow> 'pid peerset \<Rightarrow> bool" where
  "peerset_wf P ps \<longleftrightarrow>
     sorted (map (pid_to_bytes P) (session_peers ps)) \<and>
     length (parties_indexes ps) = length (session_peers ps) \<and>
     (\<forall>p \<in> set (session_peers ps). ed25519 P p) \<and>
     (\<forall>i \<in> set (parties_indexes ps). i < 256)"

text \<open>The number of peers that one buffer of the reader holds.\<close>

abbreviation max_peers :: nat where
  "max_peers \<equiv> 210"

text \<open>The encoding as a plain function of pairs, for peer sets on which \<open>to_bytes\<close> cannot panic.\<close>

definition encode_pairs :: "'pid pid_ops \<Rightarrow> ('pid \<times> nat) list \<Rightarrow> bytes" where
  "encode_pairs P ps = concat (map (\<lambda>(p, i). pid_to_bytes P p @ [word_of_nat i]) ps)"

lemma encode_pairs_simps [simp]:
  "encode_pairs P [] = []"
  "encode_pairs P ((p, i) # ps) = pid_to_bytes P p @ word_of_nat i # encode_pairs P ps"
  by (simp_all add: encode_pairs_def)

lemma to_bytes_from_eq:
  "to_bytes_from P idx i ps =
     (if i + length ps \<le> length idx \<or> ps = [] then Inr (encode_pairs P (zip ps (drop i idx)))
      else Inl IndexOutOfBounds)"
proof (induction ps arbitrary: i)
  case Nil
  then show ?case by simp
next
  case (Cons p ps)
  then show ?case
    by (cases "i < length idx") (auto simp: Cons_nth_drop_Suc [symmetric])
qed

lemma peerset_to_bytes_eq:
  "peerset_to_bytes P ps =
     (if length (session_peers ps) \<le> length (parties_indexes ps)
      then Inr (encode_pairs P (zip (session_peers ps) (parties_indexes ps)))
      else Inl IndexOutOfBounds)"
  by (auto simp: peerset_to_bytes_def to_bytes_from_eq)

lemma encode_pairs_length:
  "\<forall>(p, i) \<in> set ps. ed25519 P p \<Longrightarrow> length (encode_pairs P ps) = 39 * length ps"
  by (induction ps) (auto simp: ed25519_def)

section \<open>Construction\<close>

lemma peerset_new_simps [simp]:
  "local_peer_id (peerset_new P peers local) = local"
  "session_peers (peerset_new P peers local) = sort_key (pid_to_bytes P) peers"
  "parties_indexes (peerset_new P peers local) = [0..<length peers]"
  by (simp_all add: peerset_new_def Let_def)

lemma peerset_new_perm:
  "pid_ok P \<Longrightarrow> mset xs = mset ys \<Longrightarrow> peerset_new P xs l = peerset_new P ys l"
  using sort_key_perm_eq [of xs ys "pid_to_bytes P"] mset_eq_length [of xs ys]
  by (simp add: peerset_new_def pid_to_bytes_inj)

lemma peerset_new_wf:
  "\<forall>p \<in> set peers. ed25519 P p \<Longrightarrow> length peers \<le> 256 \<Longrightarrow> peerset_wf P (peerset_new P peers l)"
  by (auto simp: peerset_wf_def)

section \<open>Positions\<close>

lemma index_of_None [simp]: "index_of ps p = None \<longleftrightarrow> p \<notin> set (session_peers ps)"
  by (simp add: index_of_def)

lemma index_of_SomeI:
  assumes "distinct (session_peers ps)" and "k < length (session_peers ps)"
    and "session_peers ps ! k = p"
  shows "index_of ps p = Some (word_of_nat k)"
  using position_nth [OF assms(1,2)] assms(3) by (simp add: index_of_def)

text \<open>
  With at most 65536 distinct peers, \<open>index_of\<close> and indexing are inverse: the party found at an
  index is the one whose index it is, and every member of the set has an index.
\<close>

theorem index_of_inverse:
  assumes "distinct (session_peers ps)" and "length (session_peers ps) \<le> 2 ^ 16"
  shows "(index_of ps p = Some i \<longleftrightarrow> peerset_index ps i = Inr p) \<and>
    (index_of ps p = None \<longleftrightarrow> p \<notin> set (session_peers ps))"
proof -
  have k: "unat (word_of_nat k :: u16) = k" if "k < length (session_peers ps)" for k
    using that assms(2) by (simp add: unat_of_nat_u16)
  have "index_of ps p = Some i \<longleftrightarrow>
      (\<exists>k < length (session_peers ps). session_peers ps ! k = p \<and> word_of_nat k = i)"
    by (auto simp: index_of_def position_eq_Some_iff [OF assms(1)])
  also have "\<dots> \<longleftrightarrow> unat i < length (session_peers ps) \<and> session_peers ps ! unat i = p"
  proof
    assume "\<exists>k < length (session_peers ps). session_peers ps ! k = p \<and> word_of_nat k = i"
    then obtain n where n: "n < length (session_peers ps)" "session_peers ps ! n = p"
      and i: "i = word_of_nat n" by blast
    have "unat i = n" unfolding i by (rule k [OF n(1)])
    with n show "unat i < length (session_peers ps) \<and> session_peers ps ! unat i = p" by simp
  next
    assume "unat i < length (session_peers ps) \<and> session_peers ps ! unat i = p"
    then show "\<exists>k < length (session_peers ps). session_peers ps ! k = p \<and> word_of_nat k = i"
      by (intro exI [of _ "unat i"]) simp
  qed
  finally show ?thesis by (auto simp: peerset_index_def)
qed

theorem index_of_inverse_witness:
  "peerset_index \<lparr>local_peer_id = 5, session_peers = [4, 5, 9], parties_indexes = [0, 1, 2]\<rparr> 1 =
     Inr (5::nat)"
  using index_of_inverse
    [of "\<lparr>local_peer_id = 5, session_peers = [4, 5, 9], parties_indexes = [0, 1, 2]\<rparr>" "5::nat" 1]
  by (simp add: index_of_def)

section \<open>Decoding\<close>

text \<open>
  Decoding from a buffer: chunks are taken as long as the buffer holds whole ones; a non-empty
  rest of the buffer is never completed from the stream, so it ends the loop.
\<close>

lemma read_peers_buffered:
  assumes "pid_ok P" and "\<forall>(p, i) \<in> set ps. ed25519 P p \<and> i < 256"
    and "length tail < 38" and "tail \<noteq> [] \<or> R = []"
  shows "read_peers P \<lparr>br_buf = encode_pairs P ps @ tail, br_rest = R\<rparr> =
    Inr (map fst ps, map snd ps)"
  using assms(2)
proof (induction ps)
  case Nil
  have "br_read 38 \<lparr>br_buf = tail, br_rest = R\<rparr> = (tail, \<lparr>br_buf = [], br_rest = R\<rparr>)"
    using assms(3,4) by (auto simp: br_read_def br_fill_def)
  then show ?case using assms(3) by (simp add: read_peers.simps)
next
  case (Cons x ps)
  obtain p i where x: "x = (p, i)" by force
  with Cons.prems have len: "length (pid_to_bytes P p) = 38" and i: "i < 256"
    by (auto simp: ed25519_def)
  let ?rest = "encode_pairs P ps @ tail"
  have ne: "pid_to_bytes P p \<noteq> []" using len by auto
  have "br_read 38 \<lparr>br_buf = encode_pairs P (x # ps) @ tail, br_rest = R\<rparr> =
      (pid_to_bytes P p, \<lparr>br_buf = word_of_nat i # ?rest, br_rest = R\<rparr>)"
    using len ne by (simp add: x br_read_def br_fill_def)
  moreover have "br_read 1 \<lparr>br_buf = word_of_nat i # ?rest, br_rest = R\<rparr> =
      ([word_of_nat i], \<lparr>br_buf = ?rest, br_rest = R\<rparr>)"
    by (simp add: br_read_def br_fill_def)
  moreover have "read_peers P \<lparr>br_buf = ?rest, br_rest = R\<rparr> = Inr (map fst ps, map snd ps)"
    using Cons by simp
  ultimately show ?case
    using len i assms(1) by (simp add: x read_peers.simps unat_of_nat_u8)
qed

lemma read_peers_new:
  "read_peers P (br_new b) = read_peers P \<lparr>br_buf = take io_cap b, br_rest = drop io_cap b\<rparr>"
proof (cases "b = []")
  case True
  then show ?thesis by (simp add: br_new_def)
next
  case False
  then have "br_read 38 (br_new b) = br_read 38 \<lparr>br_buf = take io_cap b, br_rest = drop io_cap b\<rparr>"
    by (simp add: br_new_def br_read_def br_fill_def)
  then show ?thesis by (simp add: read_peers.simps [of P "br_new b"]
        read_peers.simps [of P "\<lparr>br_buf = take io_cap b, br_rest = drop io_cap b\<rparr>"])
qed

lemma encode_pairs_append: "encode_pairs P (xs @ ys) = encode_pairs P xs @ encode_pairs P ys"
  by (simp add: encode_pairs_def)

lemma take_encode_pairs:
  assumes "\<forall>(p, i) \<in> set ps. ed25519 P p"
  shows "\<exists>tail. take io_cap (encode_pairs P ps) = encode_pairs P (take max_peers ps) @ tail \<and>
    length tail < 38 \<and> (tail \<noteq> [] \<or> drop io_cap (encode_pairs P ps) = [])"
proof (cases "length ps \<le> max_peers")
  case True
  then show ?thesis using encode_pairs_length [OF assms] by (intro exI [of _ "[]"]) simp
next
  case False
  let ?xs = "take max_peers ps" and ?ys = "drop max_peers ps"
  have xs: "length (encode_pairs P ?xs) = 8190"
    using False encode_pairs_length [of ?xs P] assms set_take_subset [of max_peers ps] by fastforce
  have ys: "length (encode_pairs P ?ys) = 39 * length ?ys"
    using encode_pairs_length [of ?ys P] assms set_drop_subset [of max_peers ps] by fastforce
  have "encode_pairs P ps = encode_pairs P ?xs @ encode_pairs P ?ys"
    by (simp flip: encode_pairs_append)
  then have "take io_cap (encode_pairs P ps) = encode_pairs P ?xs @ take 2 (encode_pairs P ?ys)"
    using xs by simp
  moreover have "encode_pairs P ?ys \<noteq> []" using ys False by (metis length_0_conv mult_eq_0_iff
    zero_neq_numeral drop_eq_Nil)
  ultimately show ?thesis by (intro exI [of _ "take 2 (encode_pairs P ?ys)"]) simp
qed

lemma peerset_from_encoded:
  assumes "pid_ok P" and "\<forall>(p, i) \<in> set ps. ed25519 P p \<and> i < 256"
  shows "peerset_from_bytes P (encode_pairs P ps) l =
    Inr \<lparr>local_peer_id = l, session_peers = sort_key (pid_to_bytes P) (map fst (take max_peers ps)),
         parties_indexes = map snd (take max_peers ps)\<rparr>"
proof -
  from take_encode_pairs [of ps P] assms(2) obtain tail where
    tail: "take io_cap (encode_pairs P ps) = encode_pairs P (take max_peers ps) @ tail"
      "length tail < 38" "tail \<noteq> [] \<or> drop io_cap (encode_pairs P ps) = []" by fastforce
  have "\<forall>(p, i) \<in> set (take max_peers ps). ed25519 P p \<and> i < 256"
    using assms(2) set_take_subset [of max_peers ps] by blast
  from read_peers_buffered [OF assms(1) this tail(2,3)]
  have "read_peers P (br_new (encode_pairs P ps)) =
      Inr (map fst (take max_peers ps), map snd (take max_peers ps))"
    by (simp add: read_peers_new tail(1))
  then show ?thesis by (simp add: peerset_from_bytes_def)
qed

lemma peerset_wf_pairs:
  assumes "peerset_wf P ps"
  shows "peerset_to_bytes P ps = Inr (encode_pairs P (zip (session_peers ps) (parties_indexes ps)))"
    and "\<forall>(p, i) \<in> set (zip (session_peers ps) (parties_indexes ps)). ed25519 P p \<and> i < 256"
  using assms by (auto simp: peerset_wf_def peerset_to_bytes_eq dest: set_zip_leftD set_zip_rightD)

lemma peerset_decode_encode:
  assumes "pid_ok P" and wf: "peerset_wf P ps"
  shows "and_then (peerset_to_bytes P ps) (\<lambda>b. peerset_from_bytes P b l) =
    Inr \<lparr>local_peer_id = l, session_peers = take max_peers (session_peers ps),
         parties_indexes = take max_peers (parties_indexes ps)\<rparr>"
proof -
  have "sorted (map (pid_to_bytes P) (take max_peers (session_peers ps)))"
    using wf sorted_wrt_take unfolding peerset_wf_def by (metis take_map)
  then have "sort_key (pid_to_bytes P) (take max_peers (session_peers ps)) =
      take max_peers (session_peers ps)"
    by (rule sort_key_id_if_sorted)
  moreover have "length (session_peers ps) = length (parties_indexes ps)"
    using wf by (simp add: peerset_wf_def)
  ultimately show ?thesis
    using peerset_from_encoded [OF assms(1) peerset_wf_pairs(2) [OF wf]]
    by (simp add: peerset_wf_pairs(1) [OF wf] take_zip)
qed

section \<open>Properties of construction and encoding\<close>

text \<open>
  A sample instance of the peer identifiers for the witnesses: the header of an Ed25519 identifier
  and a key of which one byte varies.
\<close>

definition sample_header :: bytes where
  "sample_header = [0, 36, 8, 1, 18, 32] @ replicate 31 0"

definition sample_pid :: "byte pid_ops" where
  "sample_pid = \<lparr>pid_to_bytes = (\<lambda>w. sample_header @ [w]),
     pid_from_bytes = (\<lambda>b. if length b = 38 \<and> take 37 b = sample_header
       then Some (last b) else None)\<rparr>"

lemma sample_pid_ok: "pid_ok sample_pid"
  by (simp add: pid_ok_def sample_pid_def sample_header_def)

lemma sample_pid_ed25519: "ed25519 sample_pid p"
  by (simp add: ed25519_def sample_pid_def sample_header_def)

lemma sample_header_le [simp]: "sample_header @ xs \<le> sample_header @ ys \<longleftrightarrow> xs \<le> ys"
proof -
  have "h @ xs \<le> h @ ys \<longleftrightarrow> xs \<le> ys" for h :: bytes
    by (induction h) simp_all
  then show ?thesis .
qed

lemma sample_pid_le [simp]:
  "pid_to_bytes sample_pid p \<le> pid_to_bytes sample_pid q \<longleftrightarrow> p \<le> q"
  by (auto simp: sample_pid_def)

text \<open>
  All parties number the parties alike. The peer set that a node builds depends on which peers
  take part and not on the order in which its hash set yields them; it is sorted by the bytes of
  the identifiers, and a permutation of the peers.
\<close>

theorem peerset_new_canonical:
  assumes "pid_ok P" and "mset xs = mset ys"
  shows "peerset_new P xs l = peerset_new P ys l \<and>
    mset (session_peers (peerset_new P xs l)) = mset xs \<and>
    sorted (map (pid_to_bytes P) (session_peers (peerset_new P xs l)))"
  using peerset_new_perm [OF assms] assms(2) by simp

theorem peerset_new_canonical_witness:
  "peerset_new sample_pid [9, 4, 5] 4 = peerset_new sample_pid [5, 9, 4] 4"
  using peerset_new_canonical [OF sample_pid_ok, of "[9, 4, 5]" "[5, 9, 4]" 4] by simp

text \<open>
  C31: Encoding a well-formed peer set of at most 210 peers and decoding it gives the peers and the
  indexes back, with the decoding node as the local peer.
\<close>

theorem peerset_roundtrip:
  assumes "pid_ok P" and "peerset_wf P ps" and "length (session_peers ps) \<le> 210"
  shows "and_then (peerset_to_bytes P ps) (\<lambda>b. peerset_from_bytes P b l) =
    Inr (ps\<lparr>local_peer_id := l\<rparr>)"
proof -
  have "length (parties_indexes ps) \<le> 210" using assms by (simp add: peerset_wf_def)
  then show ?thesis using peerset_decode_encode [OF assms(1,2), of l] assms(3) by simp
qed

theorem peerset_roundtrip_witness:
  "and_then (peerset_to_bytes sample_pid
       \<lparr>local_peer_id = 4, session_peers = [4, 9], parties_indexes = [0, 2]\<rparr>)
     (\<lambda>b. peerset_from_bytes sample_pid b 9) =
   Inr \<lparr>local_peer_id = 9, session_peers = [4, 9], parties_indexes = [0, 2]\<rparr>"
  using peerset_roundtrip [OF sample_pid_ok,
      of "\<lparr>local_peer_id = 4, session_peers = [4, 9], parties_indexes = [0, 2]\<rparr>" 9]
  by (simp add: peerset_wf_def sample_pid_ed25519)

text \<open>
  A larger peer set is silently cut. Since the decoder takes a short read at the end of the
  reader's 8 KiB buffer for the end of the data, it returns the first 210 peers of any well-formed
  encoding and drops the others.
\<close>

theorem peerset_decoding_truncates:
  assumes "pid_ok P" and "peerset_wf P ps" and "210 < length (session_peers ps)"
  shows "\<exists>ps'. and_then (peerset_to_bytes P ps) (\<lambda>b. peerset_from_bytes P b l) = Inr ps' \<and>
    session_peers ps' = take 210 (session_peers ps) \<and>
    length (session_peers ps') = 210 \<and> ps' \<noteq> ps"
  using peerset_decode_encode [OF assms(1,2), of l] assms(3)
  by (intro exI conjI) (auto dest: arg_cong [where f = "\<lambda>s. length (session_peers s)"])

theorem peerset_decoding_truncates_witness:
  "\<exists>ps'. and_then (peerset_to_bytes sample_pid (peerset_new sample_pid (replicate 211 7) 7))
      (\<lambda>b. peerset_from_bytes sample_pid b 7) = Inr ps' \<and> length (session_peers ps') = 210"
  using peerset_decoding_truncates [OF sample_pid_ok,
      of "peerset_new sample_pid (replicate 211 7) 7" 7]
    peerset_new_wf [of "replicate 211 7" sample_pid 7]
  by (auto simp: sample_pid_ed25519)

text \<open>
  Encoding panics exactly when some peer has no index (the state that
  \<open>recover_from_cache\<close> leaves behind when it skips a peer); otherwise it yields 39 bytes for each
  Ed25519 peer.
\<close>

theorem peerset_to_bytes_panics_iff:
  "(peerset_to_bytes P ps = Inl IndexOutOfBounds \<longleftrightarrow>
      length (parties_indexes ps) < length (session_peers ps)) \<and>
   (\<forall>b. peerset_to_bytes P ps = Inr b \<and> (\<forall>p \<in> set (session_peers ps). ed25519 P p) \<longrightarrow>
      length b = 39 * length (session_peers ps))"
proof -
  have "length (encode_pairs P (zip (session_peers ps) (parties_indexes ps))) =
      39 * length (session_peers ps)"
    if "length (session_peers ps) \<le> length (parties_indexes ps)"
      and "\<forall>p \<in> set (session_peers ps). ed25519 P p"
    using that encode_pairs_length [of "zip (session_peers ps) (parties_indexes ps)" P]
    by (auto dest: set_zip_leftD)
  then show ?thesis by (auto simp: peerset_to_bytes_eq)
qed

theorem peerset_to_bytes_panics_iff_witness:
  "peerset_to_bytes sample_pid
     \<lparr>local_peer_id = 4, session_peers = [4, 7, 9], parties_indexes = [1, 2]\<rparr> = Inl IndexOutOfBounds"
  using peerset_to_bytes_panics_iff [of sample_pid
      "\<lparr>local_peer_id = 4, session_peers = [4, 7, 9], parties_indexes = [1, 2]\<rparr>"] by simp

text \<open>
  Decoding sorts the peers but leaves the indexes in the order of the wire. For an encoding
  whose peers are not sorted, as a remote party is free to send, the indexes therefore end up with
  other peers: here party 9, sent with index 7, is decoded with index 3.
\<close>

theorem peerset_decoding_unsorted:
  assumes "pid_ok P" and "\<forall>(p, i) \<in> set ps. ed25519 P p \<and> i < 256" and "length ps \<le> 210"
  shows "peerset_from_bytes P (encode_pairs P ps) l =
      Inr \<lparr>local_peer_id = l, session_peers = sort_key (pid_to_bytes P) (map fst ps),
           parties_indexes = map snd ps\<rparr> \<and>
    peerset_from_bytes sample_pid (encode_pairs sample_pid [(9, 7), (4, 3)]) 4 =
      Inr \<lparr>local_peer_id = 4, session_peers = [4, 9], parties_indexes = [7, 3]\<rparr>"
  using peerset_from_encoded [OF assms(1,2), of l] assms(3)
    peerset_from_encoded [OF sample_pid_ok, of "[(9, 7), (4, 3)]" 4]
  by (simp add: sample_pid_ed25519)

theorem peerset_decoding_unsorted_witness:
  "peerset_from_bytes sample_pid (encode_pairs sample_pid [(9, 1), (4, 0)]) 9 =
     Inr \<lparr>local_peer_id = 9, session_peers = [4, 9], parties_indexes = [1, 0]\<rparr>"
  using peerset_decoding_unsorted [OF sample_pid_ok, of "[(9, 1), (4, 0)]" 9]
  by (simp add: sample_pid_ed25519)

section \<open>What decoding yields\<close>

text \<open>
  The loop reads from one buffer: unless the end of a chunk falls on the end of the buffer, it takes
  the whole chunks that the buffer holds, and a last peer whose index byte is missing.
\<close>

lemma read_peers_typed:
  assumes "read_peers P r = Inr (peers, idx)"
    and "br_rest r = [] \<or> (0 < length (br_buf r) mod 39 \<and> length (br_buf r) mod 39 < 38)"
  shows "length idx = length peers \<and> (\<forall>i \<in> set idx. i < 256) \<and> 39 * length peers \<le> Suc (length (br_buf r))"
  using assms
proof (induction P r arbitrary: peers idx rule: read_peers.induct)
  case (1 P r)
  obtain buf r1 where r1: "br_read 38 r = (buf, r1)" by force
  obtain buf1 r2 where r2: "br_read 1 r1 = (buf1, r2)" by force
  show ?case
  proof (cases "length buf \<noteq> 38")
    case True
    with 1(2) r1 show ?thesis by (simp add: read_peers.simps [of P r])
  next
    case False
    then obtain p where p: "pid_from_bytes P buf = Some p"
      using 1(2) r1 by (cases "pid_from_bytes P buf") (auto simp: read_peers.simps [of P r])
    obtain ps ix where rest: "read_peers P r2 = Inr (ps, ix)" and
      here: "peers = p # ps" "idx = (case buf1 of [] \<Rightarrow> 0 | b # _ \<Rightarrow> unat b) # ix"
      using 1(2) False r1 r2 p
      by (auto simp: read_peers.simps [of P r] split: sum.splits prod.splits)
    have byte: "(case buf1 of [] \<Rightarrow> 0 | b # _ \<Rightarrow> unat (b :: byte)) < 256"
      using unsigned_less [of "hd buf1", where ?'a = nat] by (cases buf1) auto
    have ne: "br_buf r \<noteq> []"
      using False r1 1(3) br_read_end [of r 38] by (cases "br_buf r") auto
    have r1_eq: "r1 = r\<lparr>br_buf := drop 38 (br_buf r)\<rparr>" and long: "38 \<le> length (br_buf r)"
      using r1 False br_read_nonempty [OF ne, of 38] by (auto simp: min_def split: if_splits)
    have "(br_rest r2 = [] \<or> (0 < length (br_buf r2) mod 39 \<and> length (br_buf r2) mod 39 < 38)) \<and>
        length (br_buf r2) = length (br_buf r) - 39"
    proof (cases "length (br_buf r) = 38")
      case True
      then have "r2 = r1" using 1(3) r2 r1_eq br_read_end [of r1 1] by auto
      then show ?thesis using True 1(3) r1_eq by simp
    next
      case False
      then have "br_buf r1 \<noteq> []" using long r1_eq by simp
      then have "r2 = r1\<lparr>br_buf := drop 1 (br_buf r1)\<rparr>" using br_read_nonempty [of r1 1] r2 by simp
      moreover have "length (br_buf r) mod 39 = (length (br_buf r) - 39) mod 39"
        using False long by (metis le_mod_geq le_neq_implies_less Suc_leI eval_nat_numeral(3) not_le numeral_eq_Suc pred_numeral_simps(3) semiring_norm(26,27,28))
      ultimately show ?thesis using 1(3) r1_eq by auto
    qed
    moreover from this have "length ix = length ps \<and> (\<forall>i \<in> set ix. i < 256) \<and> 39 * length ps \<le> Suc (length (br_buf r2))"
      using 1(1) [OF r1 [symmetric] _ p r2 [symmetric] rest] False by blast
    moreover have "39 * Suc k \<le> Suc n" if "38 \<le> n" "39 * k \<le> Suc (n - 39)" for k n :: nat
      using that by (cases "n = 38") auto
    ultimately show ?thesis using here byte long by simp
  qed
qed

text \<open>
  C33: What decoding yields is well typed, whatever the bytes are and wherever they come from (the cache
  file, or a start message of another party). When \<open>from_bytes\<close> does not panic, the peers are
  sorted, there is exactly one index for each, every index is a byte and there are at most 210; on such a
  value \<open>to_bytes\<close> does not panic, and a peer set that is recovered from it does not either.
\<close>

theorem decoded_peerset_typed:
  assumes "peerset_from_bytes P b l = Inr ps"
  shows "sorted (map (pid_to_bytes P) (session_peers ps)) \<and>
    length (parties_indexes ps) = length (session_peers ps) \<and> (\<forall>i \<in> set (parties_indexes ps). i < 256) \<and>
    length (session_peers ps) \<le> 210 \<and> local_peer_id ps = l \<and>
    (\<exists>b'. peerset_to_bytes P ps = Inr b') \<and>
    (\<forall>session. \<exists>ps'. recover_from_cache P (Inr ps :: 'e + 'pid peerset) session = Inr ps')"
proof -
  let ?r = "\<lparr>br_buf = take io_cap b, br_rest = drop io_cap b\<rparr>"
  obtain peers idx where read: "read_peers P ?r = Inr (peers, idx)"
    and ps: "ps = \<lparr>local_peer_id = l, session_peers = sort_key (pid_to_bytes P) peers, parties_indexes = idx\<rparr>"
    using assms by (auto simp: peerset_from_bytes_def read_peers_new split: sum.splits)
  have typed: "length idx = length peers" "\<forall>i \<in> set idx. i < 256" "39 * length peers \<le> Suc (length (take io_cap b))"
    using read_peers_typed [OF read] by (auto simp: min_def)
  then have enc: "\<exists>b'. peerset_to_bytes P ps = Inr b'" by (simp add: peerset_to_bytes_eq ps)
  have recovers: "\<exists>is. recover_indexes ps qs = Inr is" for qs
  proof (induction qs)
    case (Cons q qs)
    have "unat i < length (parties_indexes ps)" if i: "index_of ps q = Some i" for i
    proof -
      from i obtain k where "position (\<lambda>e. e = q) (session_peers ps) = Some k" "i = word_of_nat k"
        by (auto simp: index_of_def)
      moreover from this have "unat i \<le> k" by (simp add: unat_of_nat)
      ultimately show ?thesis using position_SomeD typed(1) ps by fastforce
    qed
    with Cons show ?case by (auto split: option.splits)
  qed simp
  have "\<exists>ps'. recover_from_cache P (Inr ps :: 'e + 'pid peerset) session = Inr ps'" for session
    using recovers [of "sort_key (pid_to_bytes P) (session_peers session)"]
    by (auto simp: recover_from_cache_def)
  with typed enc show ?thesis by (simp add: ps)
qed

theorem decoded_peerset_typed_witness:
  "peerset_from_bytes sample_pid (encode_pairs sample_pid [(9, 7), (4, 3)]) 4 =
      Inr \<lparr>local_peer_id = 4, session_peers = [4, 9], parties_indexes = [7, 3]\<rparr> \<and>
    (\<exists>ps'. recover_from_cache sample_pid
      (Inr \<lparr>local_peer_id = 4, session_peers = [4, 9], parties_indexes = [7, 3]\<rparr> :: string + byte peerset)
      (peerset_new sample_pid [5, 9] 5) = Inr ps')"
proof -
  have "peerset_from_bytes sample_pid (encode_pairs sample_pid [(9, 7), (4, 3)]) 4 =
      Inr \<lparr>local_peer_id = 4, session_peers = [4, 9], parties_indexes = [7, 3]\<rparr>"
    using peerset_from_encoded [OF sample_pid_ok, of "[(9, 7), (4, 3)]" 4] by (simp add: sample_pid_ed25519)
  with decoded_peerset_typed [OF this, where ?'e = string] show ?thesis by blast
qed

section \<open>Recovery\<close>

text \<open>The index that a cached peer set holds for a peer.\<close>

definition cached_index :: "'pid peerset \<Rightarrow> 'pid \<Rightarrow> nat" where
  "cached_index cache p = parties_indexes cache ! unat (the (index_of cache p))"

definition cache_ok :: "'pid peerset \<Rightarrow> bool" where
  "cache_ok cache \<longleftrightarrow> distinct (session_peers cache) \<and> length (session_peers cache) \<le> 2 ^ 16 \<and>
     length (parties_indexes cache) = length (session_peers cache)"

lemma cached_index_nth:
  assumes "cache_ok cache" and "k < length (session_peers cache)"
  shows "cached_index cache (session_peers cache ! k) = parties_indexes cache ! k"
    and "index_of cache (session_peers cache ! k) = Some (word_of_nat k)"
    and "unat (word_of_nat k :: u16) = k"
proof -
  show k: "unat (word_of_nat k :: u16) = k"
    by (rule unat_of_nat_u16) (use assms in \<open>simp add: cache_ok_def\<close>)
  show i: "index_of cache (session_peers cache ! k) = Some (word_of_nat k)"
    by (rule index_of_SomeI) (use assms in \<open>simp_all add: cache_ok_def\<close>)
  show "cached_index cache (session_peers cache ! k) = parties_indexes cache ! k"
    by (simp add: cached_index_def i k)
qed

lemma recover_indexes_eq:
  assumes "cache_ok cache"
  shows "recover_indexes cache ps =
    Inr (map (cached_index cache) (filter (\<lambda>p. p \<in> set (session_peers cache)) ps))"
proof (induction ps)
  case Nil
  then show ?case by simp
next
  case (Cons p ps)
  show ?case
  proof (cases "p \<in> set (session_peers cache)")
    case False
    with Cons show ?thesis by (simp add: index_of_None [THEN iffD2])
  next
    case True
    then obtain k where k: "k < length (session_peers cache)" "p = session_peers cache ! k"
      by (metis in_set_conv_nth)
    note nth = cached_index_nth [OF assms k(1)]
    have "unat (word_of_nat k :: u16) < length (parties_indexes cache)"
      using assms k(1) nth(3) by (simp add: cache_ok_def)
    then show ?thesis using Cons True nth by (simp add: k(2) [symmetric])
  qed
qed

lemma recover_from_cache_eq:
  assumes "cache_ok cache" and "sorted (map (pid_to_bytes P) (session_peers ps))"
  shows "recover_from_cache P (Inr cache :: 'e + 'pid peerset) ps = Inr (ps\<lparr>parties_indexes :=
    map (cached_index cache) (filter (\<lambda>p. p \<in> set (session_peers cache)) (session_peers ps))\<rparr>)"
  using assms by (simp add: recover_from_cache_def recover_indexes_eq sort_key_id_if_sorted)

text \<open>
  A signing session recovers the key-generation indexes of its parties. If every peer of the
  session is in the cached peer set, then after \<open>recover_from_cache\<close> the index stored at each
  position is the one the cache holds for the peer at that position, and the peers are unchanged.
\<close>

theorem recover_from_cache_indexes:
  assumes "cache_ok cache" and "sorted (map (pid_to_bytes P) (session_peers ps))"
    and "set (session_peers ps) \<subseteq> set (session_peers cache)"
  shows "\<exists>ps'. recover_from_cache P (Inr cache :: 'e + 'pid peerset) ps = Inr ps' \<and>
    session_peers ps' = session_peers ps \<and>
    length (parties_indexes ps') = length (session_peers ps) \<and>
    (\<forall>j < length (session_peers ps). \<forall>k < length (session_peers cache).
       session_peers cache ! k = session_peers ps ! j \<longrightarrow>
       parties_indexes ps' ! j = parties_indexes cache ! k)"
proof -
  have all: "filter (\<lambda>p. p \<in> set (session_peers cache)) (session_peers ps) = session_peers ps"
    using assms(3) by (simp add: filter_id_conv subset_iff)
  have "parties_indexes cache ! k = cached_index cache (session_peers ps ! j)"
    if "k < length (session_peers cache)" "session_peers cache ! k = session_peers ps ! j" for j k
    using cached_index_nth(1) [OF assms(1) that(1)] that(2) by simp
  then show ?thesis
    using recover_from_cache_eq [OF assms(1,2), where 'e = 'e]
    by (intro exI [of _ "ps\<lparr>parties_indexes := map (cached_index cache) (session_peers ps)\<rparr>"])
       (simp add: all)
qed

theorem recover_from_cache_indexes_witness:
  "\<exists>ps'. recover_from_cache sample_pid
      (Inr \<lparr>local_peer_id = 4, session_peers = [4, 7, 9], parties_indexes = [0, 1, 2]\<rparr>
         :: unit + byte peerset)
      \<lparr>local_peer_id = 9, session_peers = [4, 9], parties_indexes = [0, 1]\<rparr> = Inr ps' \<and>
     parties_indexes ps' ! 1 = 2"
proof -
  let ?cache = "\<lparr>local_peer_id = 4, session_peers = [4, 7, 9], parties_indexes = [0, 1, 2]\<rparr>
    :: byte peerset"
  let ?ps = "\<lparr>local_peer_id = 9, session_peers = [4, 9], parties_indexes = [0, 1]\<rparr> :: byte peerset"
  have "cache_ok ?cache" and "sorted (map (pid_to_bytes sample_pid) (session_peers ?ps))"
    and "set (session_peers ?ps) \<subseteq> set (session_peers ?cache)"
    by (simp_all add: cache_ok_def)
  from recover_from_cache_indexes [OF this, where 'e = unit] obtain ps' where
    "recover_from_cache sample_pid (Inr ?cache :: unit + byte peerset) ?ps = Inr ps'"
    and all: "\<forall>j < length (session_peers ?ps). \<forall>k < length (session_peers ?cache).
       session_peers ?cache ! k = session_peers ?ps ! j \<longrightarrow>
       parties_indexes ps' ! j = parties_indexes ?cache ! k" by blast
  moreover have "parties_indexes ps' ! 1 = 2"
    using all [rule_format, of 1 2] by simp
  ultimately show ?thesis by blast
qed

end
