(* ===== verification/File_System.thy ===== *)
theory File_System
  imports Prelude
begin

text \<open>
  The operations of \<open>std::fs\<close> that the code uses. A path is the list of its components. A file
  system holds the contents of its files, and says of every path whether creating the directory
  and opening the file for writing succeed. The extension \<open>host_fs\<close> adds the failures that the key
  files meet: reading may fail, and writing may stop before the end when the space of the file is
  used up.
\<close>

type_synonym path = "string list"

record file_system =
  fs_files :: "path \<Rightarrow> bytes option"
  fs_can_mkdir :: "path \<Rightarrow> bool"
  fs_can_write :: "path \<Rightarrow> bool"

record host_fs = file_system +
  fs_read_error :: "path \<Rightarrow> io_kind option"
  fs_space :: "path \<Rightarrow> nat"

text \<open>
  The components of a path given as a string: an absolute path starts with the component \<open>/\<close>, empty
  components and dots are skipped, but for a leading dot. A trailing slash leaves no trace in the
  components; opening such a path as a new file is an error of the operating system.
\<close>

fun split_on :: "char \<Rightarrow> string \<Rightarrow> string list" where
  "split_on c [] = [[]]"
| "split_on c (x # xs) =
     (if x = c then [] # split_on c xs
      else case split_on c xs of [] \<Rightarrow> [[x]] | s # ss \<Rightarrow> (x # s) # ss)"

definition path_of :: "string \<Rightarrow> path" where
  "path_of s =
     (let cs = split_on CHR ''/'' s in
      (if s \<noteq> [] \<and> hd s = CHR ''/'' then [''/''] else if hd cs = ''.'' then [''.''] else []) @
      filter (\<lambda>c. c \<noteq> [] \<and> c \<noteq> ''.'') cs)"

definition trailing_slash :: "string \<Rightarrow> bool" where
  "trailing_slash s \<longleftrightarrow> s \<noteq> [] \<and> last s = CHR ''/''"

text \<open>\<open>Path::parent\<close>: the empty path and the root have none.\<close>

definition path_parent :: "path \<Rightarrow> path option" where
  "path_parent p = (if p = [] \<or> p = [''/''] then None else Some (butlast p))"

text \<open>A step on the file system that may fail, followed by another one.\<close>

definition fs_then ::
  "'fs \<times> ('e + 'a) \<Rightarrow> ('fs \<Rightarrow> 'a \<Rightarrow> 'fs \<times> ('e + 'b)) \<Rightarrow> 'fs \<times> ('e + 'b)" where
  "fs_then r f = (case r of (fs, Inl e) \<Rightarrow> (fs, Inl e) | (fs, Inr x) \<Rightarrow> f fs x)"

lemma fs_then_simps [simp]:
  "fs_then (fs, Inl e) f = (fs, Inl e)"
  "fs_then (fs, Inr x) f = f fs x"
  by (simp_all add: fs_then_def)

lemma fs_then_eq_Inr:
  "fs_then r f = (fs', Inr y) \<longleftrightarrow> (\<exists>fs x. r = (fs, Inr x) \<and> f fs x = (fs', Inr y))"
  by (auto simp: fs_then_def split: prod.splits sum.splits)

text \<open>An I/O error is turned into a message, as \<open>map_err\<close> does.\<close>

definition io_err :: "string \<Rightarrow> 'fs \<times> (io_kind + 'a) \<Rightarrow> 'fs \<times> (string fault + 'a)" where
  "io_err msg = map_prod id (map_sum (\<lambda>_. Err msg) id)"

lemma io_err_simps [simp]:
  "io_err msg (fs, Inl e) = (fs, Inl (Err msg))"
  "io_err msg (fs, Inr x) = (fs, Inr x)"
  by (simp_all add: io_err_def)

text \<open>\<open>fs::read\<close>.\<close>

definition read_file :: "host_fs \<Rightarrow> path \<Rightarrow> io_kind + bytes" where
  "read_file fs p =
     (case fs_read_error fs p of
        Some e \<Rightarrow> Inl e
      | None \<Rightarrow> (case fs_files fs p of None \<Rightarrow> Inl NotFound | Some b \<Rightarrow> Inr b))"

text \<open>\<open>fs::create_dir_all\<close>: an existing directory is no error, a file of that name is.\<close>

definition create_dir_all :: "host_fs \<Rightarrow> path \<Rightarrow> io_kind + unit" where
  "create_dir_all fs d = (if fs_can_mkdir fs d \<and> fs_files fs d = None then Inr () else Inl OtherIo)"

text \<open>\<open>OpenOptions::create_new\<close>: an existing file is an error, a new one is empty.\<close>

definition open_create_new :: "host_fs \<Rightarrow> path \<Rightarrow> host_fs \<times> (io_kind + unit)" where
  "open_create_new fs p =
     (if fs_files fs p \<noteq> None then (fs, Inl AlreadyExists)
      else if \<not> fs_can_write fs p then (fs, Inl OtherIo)
      else (fs\<lparr>fs_files := (fs_files fs)(p \<mapsto> [])\<rparr>, Inr ()))"

text \<open>\<open>File::create\<close>: an existing file is truncated.\<close>

definition open_create :: "host_fs \<Rightarrow> path \<Rightarrow> host_fs \<times> (io_kind + unit)" where
  "open_create fs p =
     (if \<not> fs_can_write fs p then (fs, Inl OtherIo)
      else (fs\<lparr>fs_files := (fs_files fs)(p \<mapsto> [])\<rparr>, Inr ()))"

text \<open>\<open>write_all\<close> into a fresh file: what does not fit is lost and an error.\<close>

definition write_all_new :: "host_fs \<Rightarrow> path \<Rightarrow> bytes \<Rightarrow> host_fs \<times> (io_kind + unit)" where
  "write_all_new fs p b =
     (fs\<lparr>fs_files := (fs_files fs)(p \<mapsto> take (fs_space fs p) b)\<rparr>,
      if length b \<le> fs_space fs p then Inr () else Inl OtherIo)"

text \<open>
  A single \<open>write\<close> into a fresh file: it may store fewer bytes than given and only reports their
  number; with no space left it is an error.
\<close>

definition write_once_new :: "host_fs \<Rightarrow> path \<Rightarrow> bytes \<Rightarrow> host_fs \<times> (io_kind + nat)" where
  "write_once_new fs p b =
     (let k = min (length b) (fs_space fs p) in
      (fs\<lparr>fs_files := (fs_files fs)(p \<mapsto> take k b)\<rparr>,
       if k = 0 \<and> b \<noteq> [] then Inl OtherIo else Inr k))"

text \<open>\<open>fs::write\<close>: create or truncate, then \<open>write_all\<close>.\<close>

definition write_file :: "host_fs \<Rightarrow> path \<Rightarrow> bytes \<Rightarrow> host_fs \<times> (io_kind + unit)" where
  "write_file fs p b =
     (case open_create fs p of
        (fs', Inl e) \<Rightarrow> (fs', Inl e)
      | (fs', Inr _) \<Rightarrow> write_all_new fs' p b)"

text \<open>Nothing of a file system but the contents of files changes.\<close>

lemma write_frames [frame_simps]:
  "fs_read_error (fst (open_create_new fs p)) = fs_read_error fs"
  "fs_read_error (fst (write_all_new fs p b)) = fs_read_error fs"
  "fs_read_error (fst (write_file fs p b)) = fs_read_error fs"
  by (auto simp: open_create_new_def write_all_new_def write_file_def open_create_def
      split: unit.splits)

text \<open>A file system without failures, for the witnesses.\<close>

definition empty_host :: host_fs where
  "empty_host = \<lparr>fs_files = Map.empty, fs_can_mkdir = (\<lambda>_. True), fs_can_write = (\<lambda>_. True),
     fs_read_error = (\<lambda>_. None), fs_space = (\<lambda>_. 4096)\<rparr>"

end
