(* ===== verification/Cacher.thy ===== *)
theory Cacher
  imports Peerset Room File_System
begin

text \<open>
  The caches of peer sets (\<open>node/runtime/src/peerset_cacher.rs\<close> and the trait \<open>PeersetCacher\<close> of
  \<open>traits.rs\<close>). The trait is the locale \<open>peerset_store\<close>: what a write promises to later reads, of
  the same room and of the others. Both implementations are instances of it: the map in memory,
  and the files on disk, which store the byte encoding of a peer set and therefore only promise to
  return well-formed sets of at most 210 peers. In the locale the client's use is proved once: the
  indexes that key generation saved are the ones a signing session recovers.
\<close>

section \<open>The interface\<close>

locale peerset_store =
  fixes read_peerset :: "'s \<Rightarrow> room_id \<Rightarrow> string fault + 'pid peerset"
    and write_peerset :: "'s \<Rightarrow> room_id \<Rightarrow> 'pid peerset \<Rightarrow> string fault + 's"
    and storable :: "'pid peerset \<Rightarrow> bool"
    and seen :: "'pid peerset \<Rightarrow> 'pid peerset"
  assumes read_write: "storable ps \<Longrightarrow> write_peerset s r ps = Inr s' \<Longrightarrow> read_peerset s' r = Inr (seen ps)"
    and read_other: "write_peerset s r ps = Inr s' \<Longrightarrow> r' \<noteq> r \<Longrightarrow> read_peerset s' r' = read_peerset s r'"
    and seen_session: "session_peers (seen ps) = session_peers ps"
    and seen_indexes: "parties_indexes (seen ps) = parties_indexes ps"
begin

text \<open>Any writes to other rooms in between leave the room's entry alone.\<close>

lemma read_write_others:
  assumes "storable ps" and "write_peerset s r ps = Inr s1"
    and "fold_may (\<lambda>(r', ps') s. write_peerset s r' ps') ws s1 = Inr s2"
    and "\<forall>(r', ps') \<in> set ws. r' \<noteq> r"
  shows "read_peerset s2 r = Inr (seen ps)"
proof (rule fold_may_invariant [where I = "\<lambda>s. read_peerset s r = Inr (seen ps)"])
  show "fold_may (\<lambda>(r', ps') s. write_peerset s r' ps') ws s1 = Inr s2" by fact
  show "read_peerset s1 r = Inr (seen ps)" using assms(1,2) by (rule read_write)
  show "read_peerset t' r = Inr (seen ps)"
    if "x \<in> set ws" "read_peerset t r = Inr (seen ps)" "(case x of (r', ps') \<Rightarrow> \<lambda>s. write_peerset s r' ps') t = Inr t'"
    for x t t'
  proof -
    obtain r' ps' where x: "x = (r', ps')" by force
    with that(1) assms(4) have "r \<noteq> r'" by blast
    with that(3) read_other [of t r' ps' t' r] have "read_peerset t' r = read_peerset t r"
      by (simp add: x)
    with that(2) show ?thesis by simp
  qed
qed

lemma seen_cache_ok [simp]: "cache_ok (seen ps) \<longleftrightarrow> cache_ok ps"
  by (simp add: cache_ok_def seen_session seen_indexes)

lemma seen_cached_index: "cached_index (seen ps) p = cached_index ps p"
  by (simp add: cached_index_def index_of_def seen_session seen_indexes)

lemma save_then_recover:
  assumes "storable g" and "cache_ok g" and "write_peerset s r g = Inr s'"
    and "sorted (map (pid_to_bytes P) (session_peers ps))"
    and "set (session_peers ps) \<subseteq> set (session_peers g)"
  shows "and_then (read_peerset s' r) (\<lambda>cache. recover_from_cache P (Inr cache) ps) =
    Inr (ps\<lparr>parties_indexes := map (cached_index g) (session_peers ps)\<rparr>)"
proof -
  have "filter (\<lambda>p. p \<in> set (session_peers g)) (session_peers ps) = session_peers ps"
    using assms(5) by (simp add: filter_id_conv subset_iff)
  moreover have "cached_index (seen g) = cached_index g"
    by (rule ext) (rule seen_cached_index)
  ultimately show ?thesis
    using recover_from_cache_eq [of "seen g" P ps] assms(2,4)
    by (simp add: read_write [OF assms(1,3)] seen_session)
qed

end

section \<open>The cache in memory\<close>

record 'pid ephemeral_cacher =
  eph_store :: "room_id \<Rightarrow> 'pid peerset option"

definition ephemeral_read ::
  "'pid ephemeral_cacher \<Rightarrow> room_id \<Rightarrow> string fault + 'pid peerset" where
  "ephemeral_read c r =
     (case eph_store c r of
        Some p \<Rightarrow> Inr p
      | None \<Rightarrow> Inl (Err ''no cache exists for room''))"

definition ephemeral_write ::
  "'pid ephemeral_cacher \<Rightarrow> room_id \<Rightarrow> 'pid peerset \<Rightarrow> string fault + 'pid ephemeral_cacher" where
  "ephemeral_write c r ps = Inr (c\<lparr>eph_store := (eph_store c)(r \<mapsto> ps)\<rparr>)"

interpretation ephemeral: peerset_store ephemeral_read ephemeral_write "\<lambda>_. True" "\<lambda>ps. ps"
  by unfold_locales (auto simp: ephemeral_read_def ephemeral_write_def)

section \<open>The cache on disk\<close>


record 'pid persistent_cacher =
  pc_local_peer_id :: 'pid
  pc_path :: path

definition persistent_new :: "path \<Rightarrow> 'pid \<Rightarrow> 'pid persistent_cacher" where
  "persistent_new p local = \<lparr>pc_local_peer_id = local, pc_path = p\<rparr>"

definition room_file :: "'pid persistent_cacher \<Rightarrow> room_id \<Rightarrow> path" where
  "room_file c r = pc_path c @ [as_str r]"

definition persistent_read ::
  "'pid pid_ops \<Rightarrow> 'pid persistent_cacher \<Rightarrow> 'z file_system_scheme \<Rightarrow> room_id \<Rightarrow>
   string fault + 'pid peerset" where
  "persistent_read P c fs r =
     (case fs_files fs (room_file c r) of
        None \<Rightarrow> Inl (Err ''error reading peerset cache file'')
      | Some buf \<Rightarrow> panics (peerset_from_bytes P buf (pc_local_peer_id c)))"

text \<open>
  The directory is created first (a failure is a panic), then the peer set is encoded (it may
  panic), then the file is replaced. A write fails as a whole here: that \<open>fs::write\<close> may leave a
  truncated file behind when it fails half way is not modelled, nor is the cause that the messages
  of the two errors end with.
\<close>

definition persistent_write ::
  "'pid pid_ops \<Rightarrow> 'pid persistent_cacher \<Rightarrow> 'z file_system_scheme \<Rightarrow> room_id \<Rightarrow>
   'pid peerset \<Rightarrow> string fault + 'z file_system_scheme" where
  "persistent_write P c fs r ps =
     (let path = room_file c r in
      if \<not> fs_can_mkdir fs (butlast path) then Inl (Panic UnwrapFailed)
      else and_then (panics (peerset_to_bytes P ps)) (\<lambda>b.
        if fs_can_write fs path then Inr (fs\<lparr>fs_files := (fs_files fs)(path \<mapsto> b)\<rparr>)
        else Inl (Err ''error writing to file'')))"

text \<open>What the disk can hold: a well-formed peer set that fits in the decoder's buffer.\<close>

definition storable_peerset :: "'pid pid_ops \<Rightarrow> 'pid peerset \<Rightarrow> bool" where
  "storable_peerset P ps \<longleftrightarrow>
     pid_ok P \<and> peerset_wf P ps \<and> length (session_peers ps) \<le> max_peers"

lemma room_file_inject [simp]: "room_file c r = room_file c r' \<longleftrightarrow> r = r'"
  by (simp add: room_file_def)

lemma persistent_write_Inr:
  assumes "persistent_write P c fs r ps = Inr fs'"
  obtains b where "peerset_to_bytes P ps = Inr b"
    and "fs' = fs\<lparr>fs_files := (fs_files fs)(room_file c r \<mapsto> b)\<rparr>"
  using assms
  by (cases "peerset_to_bytes P ps") (auto simp: persistent_write_def Let_def split: if_splits)

interpretation persistent: peerset_store "persistent_read P c" "persistent_write P c"
    "storable_peerset P" "\<lambda>ps. ps\<lparr>local_peer_id := pc_local_peer_id c\<rparr>" for P c
proof unfold_locales
  fix ps fs r fs'
  assume st: "storable_peerset P ps" and "persistent_write P c fs r ps = Inr fs'"
  from this(2) obtain b where b: "peerset_to_bytes P ps = Inr b"
    and fs': "fs' = fs\<lparr>fs_files := (fs_files fs)(room_file c r \<mapsto> b)\<rparr>"
    by (rule persistent_write_Inr)
  have "length (parties_indexes ps) = length (session_peers ps)"
    using st by (simp add: storable_peerset_def peerset_wf_def)
  then show "persistent_read P c fs' r = Inr (ps\<lparr>local_peer_id := pc_local_peer_id c\<rparr>)"
    using peerset_decode_encode [of P ps "pc_local_peer_id c"] st b
    by (simp add: persistent_read_def fs' storable_peerset_def)
next
  fix fs r ps fs' r'
  assume "persistent_write P c fs r ps = Inr fs'" and "r' \<noteq> r"
  then show "persistent_read P c fs' r' = persistent_read P c fs r'"
    by (auto elim!: persistent_write_Inr simp: persistent_read_def)
qed simp_all

section \<open>Properties\<close>

text \<open>
  What key generation saves to disk is what signing recovers. After the peer set of a key
  generation was written to the room's file, and whatever was written to the files of other rooms
  since, a signing session in that room among some of its parties reads the file back and obtains,
  for every one of its parties, the index that party had in the key generation.
\<close>

theorem persistent_save_then_recover:
  assumes "storable_peerset P g" and "distinct (session_peers g)"
    and "persistent_write P c fs r g = Inr fs1"
    and "fold_may (\<lambda>(r', ps') s. persistent_write P c s r' ps') ws fs1 = Inr fs2"
    and "\<forall>(r', ps') \<in> set ws. r' \<noteq> r"
    and "sorted (map (pid_to_bytes P) (session_peers ps))"
    and "set (session_peers ps) \<subseteq> set (session_peers g)"
  shows "and_then (persistent_read P c fs2 r) (\<lambda>cache. recover_from_cache P (Inr cache) ps) =
    Inr (ps\<lparr>parties_indexes := map (cached_index g) (session_peers ps)\<rparr>)"
proof -
  have "cache_ok g"
  proof -
    have "length (session_peers g) \<le> 210" using assms(1) by (simp add: storable_peerset_def)
    then have "length (session_peers g) \<le> 2 ^ 16" by simp
    moreover have "length (parties_indexes g) = length (session_peers g)"
      using assms(1) unfolding storable_peerset_def peerset_wf_def by blast
    ultimately show ?thesis using assms(2) unfolding cache_ok_def by blast
  qed
  from persistent.save_then_recover [OF assms(1) this assms(3,6,7)]
  have "and_then (persistent_read P c fs1 r) (\<lambda>cache. recover_from_cache P (Inr cache) ps) =
    Inr (ps\<lparr>parties_indexes := map (cached_index g) (session_peers ps)\<rparr>)" .
  moreover have "persistent_read P c fs2 r = persistent_read P c fs1 r"
    using persistent.read_write [OF assms(1,3)]
      persistent.read_write_others [OF assms(1,3,4,5)] by simp
  ultimately show ?thesis by simp
qed

theorem persistent_save_then_recover_witness:
  "\<exists>fs1. persistent_write sample_pid (persistent_new [''data''] 4)
      \<lparr>fs_files = Map.empty, fs_can_mkdir = (\<lambda>_. True), fs_can_write = (\<lambda>_. True)\<rparr> (RoomId ''ab'')
      (peerset_new sample_pid [9, 4, 7] 4) = Inr fs1 \<and>
    and_then (persistent_read sample_pid (persistent_new [''data''] 4) fs1 (RoomId ''ab''))
      (\<lambda>cache. recover_from_cache sample_pid (Inr cache) (peerset_new sample_pid [9, 4] 4)) =
    Inr ((peerset_new sample_pid [9, 4] 4)\<lparr>parties_indexes := [0, 2]\<rparr>)"
proof -
  let ?g = "peerset_new sample_pid [9, 4, 7] 4" and ?c = "persistent_new [''data''] (4::byte)"
  let ?fs = "\<lparr>fs_files = Map.empty, fs_can_mkdir = (\<lambda>_. True), fs_can_write = (\<lambda>_. True)\<rparr>"
  have g: "storable_peerset sample_pid ?g"
    using peerset_new_wf [of "[9, 4, 7]" sample_pid 4]
    by (simp add: storable_peerset_def sample_pid_ok sample_pid_ed25519)
  obtain fs1 where w: "persistent_write sample_pid ?c ?fs (RoomId ''ab'') ?g = Inr fs1"
    by (simp add: persistent_write_def peerset_to_bytes_eq)
  have idx: "cached_index ?g 4 = 0" "cached_index ?g 9 = 2"
    by (simp_all add: cached_index_def index_of_def)
  show ?thesis
    using persistent_save_then_recover [OF g _ w, of "[]" fs1 "peerset_new sample_pid [9, 4] 4"] w idx
    by auto
qed

end
