(* ===== verification/StartMsg.thy ===== *)
theory StartMsg
  imports Peerset Varint
begin

text \<open>
  The message with which a proposer starts a computation (\<open>StartMsg\<close> in
  \<open>node/runtime/src/negotiation.rs\<close>): the peer set and the arguments of the computation, each
  preceded by its length. The encoder goes through a \<open>BufWriter\<close> and returns its \<open>buffer()\<close>; the
  decoder reads through a \<open>BufReader\<close>, which \<open>read_exact\<close> makes transparent
  (\<open>br_read_exact_contents\<close>), so it is written on the bytes themselves.
\<close>

section \<open>The message\<close>

record 'pid start_msg =
  sm_parties :: "'pid peerset"
  sm_body :: bytes

definition start_msg_to_bytes ::
  "'pid pid_ops \<Rightarrow> varint_ops \<Rightarrow> 'pid start_msg \<Rightarrow> panic + bytes" where
  "start_msg_to_bytes P V m =
     and_then (peerset_to_bytes P (sm_parties m)) (\<lambda>peerset_bytes.
       let io = bw_new;
           io = bw_write_all (enc_usize V (length peerset_bytes)) io;
           io = bw_write_all peerset_bytes io;
           io = bw_write_all (enc_usize V (length (sm_body m))) io;
           io = bw_write_all (sm_body m) io
       in Inr (bw_buf io))"

definition read_len :: "varint_ops \<Rightarrow> bytes \<Rightarrow> io_kind fault + nat \<times> bytes" where
  "read_len V io = map_sum (\<lambda>_. Err InvalidInput) id (read_usize V io)"

definition read_vec :: "nat \<Rightarrow> bytes \<Rightarrow> io_kind fault + bytes \<times> bytes" where
  "read_vec n io = and_then (panics (vec_zeroed n)) (\<lambda>_. map_sum Err id (read_exact n io))"

definition start_msg_from_bytes ::
  "'pid pid_ops \<Rightarrow> varint_ops \<Rightarrow> bytes \<Rightarrow> 'pid \<Rightarrow> io_kind fault + 'pid start_msg" where
  "start_msg_from_bytes P V b local =
     and_then (read_len V b) (\<lambda>(peerset_len, io).
     and_then (read_vec peerset_len io) (\<lambda>(peerset_buffer, io).
     and_then (read_len V io) (\<lambda>(len, io).
     and_then (read_vec len io) (\<lambda>(body, io).
     and_then (panics (peerset_from_bytes P peerset_buffer local)) (\<lambda>parties.
       Inr \<lparr>sm_parties = parties, sm_body = body\<rparr>)))))"

section \<open>The intended encoding\<close>

text \<open>The wire format that the encoder means to produce: two length-delimited byte strings.\<close>

definition start_msg_encoding :: "varint_ops \<Rightarrow> bytes \<Rightarrow> bytes \<Rightarrow> bytes" where
  "start_msg_encoding V peerset_bytes body =
     enc_usize V (length peerset_bytes) @ peerset_bytes @ enc_usize V (length body) @ body"

lemma read_vec_append [codec_simps]:
  "length p < isize_limit \<Longrightarrow> read_vec (length p) (p @ rest) = Inr (p, rest)"
  by (simp add: read_vec_def vec_zeroed_def read_exact_def)

lemma read_len_enc [codec_simps]:
  "varint_ok V \<Longrightarrow> n < usize_limit \<Longrightarrow> read_len V (enc_usize V n @ rest) = Inr (n, rest)"
  by (simp add: read_len_def varint_okD)

lemma start_msg_decode:
  assumes "varint_ok V" and "length pb < isize_limit" and "length body < isize_limit"
  shows "start_msg_from_bytes P V (start_msg_encoding V pb body @ rest) local =
    and_then (panics (peerset_from_bytes P pb local)) (\<lambda>parties.
       Inr \<lparr>sm_parties = parties, sm_body = body\<rparr>)"
proof -
  have "length pb < usize_limit" "length body < usize_limit" using assms(2,3) by simp_all
  then show ?thesis
    using assms
    by (simp add: start_msg_from_bytes_def start_msg_encoding_def codec_simps)
qed

section \<open>What the encoder produces\<close>

text \<open>The writer after the four writes.\<close>

definition start_msg_writer :: "varint_ops \<Rightarrow> bytes \<Rightarrow> bytes \<Rightarrow> buf_writer" where
  "start_msg_writer V pb body =
     bw_write_all body (bw_write_all (enc_usize V (length body))
       (bw_write_all pb (bw_write_all (enc_usize V (length pb)) bw_new)))"

lemma start_msg_to_bytes_eq:
  "start_msg_to_bytes P V m =
     map_sum id (\<lambda>pb. bw_buf (start_msg_writer V pb (sm_body m))) (peerset_to_bytes P (sm_parties m))"
  by (cases "peerset_to_bytes P (sm_parties m)")
     (simp_all add: start_msg_to_bytes_def start_msg_writer_def)

lemma start_msg_writer_ok: "bw_ok (start_msg_writer V pb body)"
  by (simp add: start_msg_writer_def)

lemma start_msg_writer_written: "bw_written (start_msg_writer V pb body) = start_msg_encoding V pb body"
  by (simp add: start_msg_writer_def start_msg_encoding_def bw_write_all_written)

lemma start_msg_writer_fits:
  assumes "varint_ok V" and "length (start_msg_encoding V pb body) \<le> io_cap"
  shows "bw_buf (start_msg_writer V pb body) = start_msg_encoding V pb body"
proof -
  let ?e1 = "enc_usize V (length pb)" and ?e2 = "enc_usize V (length body)"
  have small: "length ?e1 + length pb + length ?e2 + length body \<le> io_cap"
    using assms(2) by (simp add: start_msg_encoding_def)
  then have "length pb < usize_limit" by simp
  from enc_usize_length [OF assms(1) this] have e1: "?e1 \<noteq> []" "length ?e1 \<le> 10" .
  have "bw_write_all ?e1 bw_new = \<lparr>bw_inner = [], bw_buf = ?e1\<rparr>"
    using e1 by (subst bw_write_all_fits) (simp_all add: bw_new_def)
  moreover have "bw_write_all pb \<dots> = \<lparr>bw_inner = [], bw_buf = ?e1 @ pb\<rparr>"
    using e1 small by (subst bw_write_all_fits) simp_all
  moreover have "bw_write_all ?e2 \<dots> = \<lparr>bw_inner = [], bw_buf = ?e1 @ pb @ ?e2\<rparr>"
    using e1 small by (subst bw_write_all_fits) simp_all
  moreover have "bw_write_all body \<dots> = \<lparr>bw_inner = [], bw_buf = ?e1 @ pb @ ?e2 @ body\<rparr>"
    using e1 small by (subst bw_write_all_fits) simp_all
  ultimately show ?thesis by (simp add: start_msg_writer_def start_msg_encoding_def)
qed

lemma start_msg_writer_huge:
  assumes "varint_ok V" and "io_cap \<le> length body" and "length body < usize_limit"
  shows "bw_buf (start_msg_writer V pb body) = []"
proof -
  let ?w = "bw_write_all (enc_usize V (length body))
       (bw_write_all pb (bw_write_all (enc_usize V (length pb)) bw_new))"
  have "enc_usize V (length body) \<noteq> []" and "length (enc_usize V (length body)) \<le> 10"
    using enc_usize_length [OF assms(1,3)] by simp_all
  then have "bw_buf ?w \<noteq> []" by (simp add: bw_write_all_def Let_def)
  then show ?thesis
    unfolding start_msg_writer_def using assms(2) by (intro bw_write_all_huge) simp_all
qed

section \<open>Properties\<close>

lemma start_msg_decodes:
  assumes "pid_ok P" and "varint_ok V" and "peerset_wf P (sm_parties m)"
    and "peerset_to_bytes P (sm_parties m) = Inr pb"
    and "length (start_msg_encoding V pb (sm_body m)) \<le> 8192"
  shows "start_msg_to_bytes P V m = Inr (start_msg_encoding V pb (sm_body m)) \<and>
    start_msg_from_bytes P V (start_msg_encoding V pb (sm_body m)) local =
      Inr (m\<lparr>sm_parties := (sm_parties m)\<lparr>local_peer_id := local\<rparr>\<rparr>)"
proof -
  have len: "length pb \<le> 8192" "length (sm_body m) \<le> 8192"
    using assms(5) by (simp_all add: start_msg_encoding_def)
  have b: "start_msg_to_bytes P V m = Inr (start_msg_encoding V pb (sm_body m))"
    using start_msg_writer_fits [OF assms(2,5)] assms(4) by (simp add: start_msg_to_bytes_eq)
  have pb: "pb = encode_pairs P (zip (session_peers (sm_parties m)) (parties_indexes (sm_parties m)))"
    using peerset_wf_pairs(1) [OF assms(3)] assms(4) by simp
  have same: "length (parties_indexes (sm_parties m)) = length (session_peers (sm_parties m))"
    using assms(3) by (simp add: peerset_wf_def)
  have "\<forall>(p, i) \<in> set (zip (session_peers (sm_parties m)) (parties_indexes (sm_parties m))). ed25519 P p"
    using peerset_wf_pairs(2) [OF assms(3)] by blast
  from encode_pairs_length [OF this] have "length pb = 39 * length (session_peers (sm_parties m))"
    by (simp add: pb same)
  with len(1) have "length (session_peers (sm_parties m)) \<le> max_peers" by simp
  with peerset_decode_encode [OF assms(1,3), of local] assms(4) same
  have "peerset_from_bytes P pb local = Inr ((sm_parties m)\<lparr>local_peer_id := local\<rparr>)" by simp
  with start_msg_decode [OF assms(2), of pb "sm_body m" P "[]" local] len b
  show ?thesis by simp
qed

text \<open>
  C32: A start message whose encoding fits in 8 KiB reaches the other parties intact: decoding what
  the proposer encoded gives the same parties with the same indexes and the same arguments.
\<close>

theorem start_msg_roundtrip:
  assumes "pid_ok P" and "varint_ok V" and "peerset_wf P (sm_parties m)"
    and "peerset_to_bytes P (sm_parties m) = Inr pb"
    and "length (start_msg_encoding V pb (sm_body m)) \<le> 8192"
  shows "and_then (map_sum Panic id (start_msg_to_bytes P V m))
      (\<lambda>b. start_msg_from_bytes P V b local) =
    Inr (m\<lparr>sm_parties := (sm_parties m)\<lparr>local_peer_id := local\<rparr>\<rparr>)"
  using start_msg_decodes [OF assms] by simp

theorem start_msg_roundtrip_witness:
  "and_then (map_sum Panic id (start_msg_to_bytes sample_pid leb_ops
       \<lparr>sm_parties = peerset_new sample_pid [9, 4] 4, sm_body = [1, 2, 3]\<rparr>))
      (\<lambda>b. start_msg_from_bytes sample_pid leb_ops b 9) =
    Inr \<lparr>sm_parties = peerset_new sample_pid [9, 4] 9, sm_body = [1, 2, 3]\<rparr>"
proof -
  let ?m = "\<lparr>sm_parties = peerset_new sample_pid [9, 4] 4, sm_body = [1, 2, 3]\<rparr>"
  have wf: "peerset_wf sample_pid (sm_parties ?m)"
    using peerset_new_wf [of "[9, 4]" sample_pid 4] by (simp add: sample_pid_ed25519)
  then obtain pb where pb: "peerset_to_bytes sample_pid (sm_parties ?m) = Inr pb"
    and len: "length pb = 78"
    using peerset_wf_pairs(1) [OF wf] encode_pairs_length [of "zip (session_peers (sm_parties ?m))
      (parties_indexes (sm_parties ?m))" sample_pid] by (simp add: sample_pid_ed25519)
  then have "length (start_msg_encoding leb_ops pb (sm_body ?m)) \<le> 8192"
    using enc_usize_length(2) [OF leb_ops_ok, of 78]
      enc_usize_length(2) [OF leb_ops_ok, of "Suc (Suc (Suc 0))"]
    by (simp add: start_msg_encoding_def)
  from start_msg_roundtrip [OF sample_pid_ok leb_ops_ok wf pb this, of 9]
  show ?thesis by (simp add: peerset_new_def)
qed

text \<open>
  The encoder is complete only up to 8 KiB: since it returns the writer's buffer without
  flushing it, what it returns is the whole encoding exactly when the encoding is at most 8192 bytes
  long. With arguments of 8 KiB or more (such as a message to be signed) it returns nothing at all,
  and a party that receives this fails to decode it.
\<close>

theorem start_msg_encoder_truncates:
  assumes "varint_ok V" and "peerset_to_bytes P (sm_parties m) = Inr pb"
    and "length (sm_body m) < usize_limit"
  shows "(start_msg_to_bytes P V m = Inr (start_msg_encoding V pb (sm_body m)) \<longleftrightarrow>
      length (start_msg_encoding V pb (sm_body m)) \<le> 8192) \<and>
    (8192 \<le> length (sm_body m) \<longrightarrow>
       start_msg_to_bytes P V m = Inr [] \<and>
       start_msg_from_bytes P V [] local = Inl (Err InvalidInput))"
proof -
  let ?w = "start_msg_writer V pb (sm_body m)" and ?e = "start_msg_encoding V pb (sm_body m)"
  have b: "start_msg_to_bytes P V m = Inr (bw_buf ?w)"
    using assms(2) by (simp add: start_msg_to_bytes_eq)
  have "bw_buf ?w \<noteq> ?e" if "8192 < length ?e"
    using bw_buf_short [OF start_msg_writer_ok, of V pb "sm_body m"] that
    by (simp add: start_msg_writer_written)
  then have "start_msg_to_bytes P V m = Inr ?e \<longleftrightarrow> length ?e \<le> 8192"
    using start_msg_writer_fits [OF assms(1), of pb "sm_body m"] b
    by (cases "length ?e \<le> 8192") auto
  moreover have "start_msg_from_bytes P V [] local = Inl (Err InvalidInput)"
    using assms(1) by (simp add: start_msg_from_bytes_def read_len_def varint_okD)
  ultimately show ?thesis
    using start_msg_writer_huge [OF assms(1) _ assms(3), of pb] b by simp
qed

theorem start_msg_encoder_truncates_witness:
  "start_msg_to_bytes sample_pid leb_ops
     \<lparr>sm_parties = peerset_new sample_pid [9, 4] 4, sm_body = replicate 9000 7\<rparr> = Inr []"
proof -
  let ?m = "\<lparr>sm_parties = peerset_new sample_pid [9, 4] 4, sm_body = replicate 9000 7\<rparr>"
  obtain pb where "peerset_to_bytes sample_pid (sm_parties ?m) = Inr pb"
    by (simp add: peerset_to_bytes_eq)
  from start_msg_encoder_truncates [OF leb_ops_ok this] show ?thesis by simp
qed

text \<open>
  Decoding a start message from the network can fail in two ways besides a proper error: an
  identifier in it that is not a valid peer identifier, and a length prefix beyond the largest
  allocation, are panics of the node and not errors of the message.
\<close>

theorem start_msg_decoding_panics:
  assumes "varint_ok V"
  shows "(length bad = 38 \<and> pid_from_bytes P bad = None \<and> length rest + length body < 2 ^ 62 \<longrightarrow>
      start_msg_from_bytes P V (start_msg_encoding V (bad @ rest) body) local =
        Inl (Panic UnwrapFailed)) \<and>
    (2 ^ 63 \<le> n \<and> n < 2 ^ 64 \<longrightarrow>
      start_msg_from_bytes P V (enc_usize V n @ rest) local = Inl (Panic CapacityOverflow))"
proof (intro conjI impI)
  assume a: "length bad = 38 \<and> pid_from_bytes P bad = None \<and> length rest + length body < 2 ^ 62"
  then have bad: "bad \<noteq> []" by auto
  have "fst (br_read 38 (br_new (bad @ rest))) = bad"
    using a bad by (simp add: br_read_def br_new_def br_fill_def)
  then obtain r' where "br_read 38 (br_new (bad @ rest)) = (bad, r')"
    by (metis prod.collapse)
  then have "read_peers P (br_new (bad @ rest)) = Inl UnwrapFailed"
    using a by (simp add: read_peers.simps [of P "br_new (bad @ rest)"])
  then have "peerset_from_bytes P (bad @ rest) local = Inl UnwrapFailed"
    by (simp add: peerset_from_bytes_def)
  with start_msg_decode [OF assms, of "bad @ rest" body P "[]" local] a
  show "start_msg_from_bytes P V (start_msg_encoding V (bad @ rest) body) local =
        Inl (Panic UnwrapFailed)" by simp
next
  assume "2 ^ 63 \<le> n \<and> n < (2::nat) ^ 64"
  then show "start_msg_from_bytes P V (enc_usize V n @ rest) local = Inl (Panic CapacityOverflow)"
    using assms
    by (simp add: start_msg_from_bytes_def read_len_enc read_vec_def vec_zeroed_def)
qed

theorem start_msg_decoding_panics_witness:
  "start_msg_from_bytes sample_pid leb_ops
     (start_msg_encoding leb_ops (replicate 38 1 @ [0]) [1, 2]) 4 = Inl (Panic UnwrapFailed)"
proof -
  have "hd (take 37 (replicate 38 (1::byte))) \<noteq> hd sample_header"
    by (simp add: sample_header_def)
  then have "take 37 (replicate 38 (1::byte)) \<noteq> sample_header" by metis
  then have "pid_from_bytes sample_pid (replicate 38 1) = None"
    by (simp add: sample_pid_def)
  then show ?thesis
    using start_msg_decoding_panics [OF leb_ops_ok, of "replicate 38 1" sample_pid "[0]" "[1, 2]" 4 0]
    by simp
qed

end
