(* ===== verification/Coordination.thy ===== *)
theory Coordination
  imports StartMsg Service
begin

text \<open>
  The coordination of a computation in one room (\<open>node/runtime/src/coordination.rs\<close>,
  \<open>negotiation.rs\<close>, \<open>network_proxy.rs\<close>): phase 1 waits for a remote proposal or a local request,
  phase 2 waits for the start message of a proposal that was answered, the negotiation collects
  the answers to one's own proposal, and the receiver proxy hands the messages of a running
  computation on.

  Each of these is a future, modelled by its \<open>poll\<close> function: one poll takes what the channels and
  the timer yield at that moment and returns the outcome, or the state that stays pending, and the
  messages it hands to the network worker. A room's receiver is the identity of the channel; a
  future that gave it away holds \<open>None\<close> and panics when polled again. Channels and timers belong to
  crates outside the repository: what they yield is an argument.
\<close>

section \<open>Data\<close>

datatype canceled = Canceled

text \<open>
  \<open>'agent\<close> stands for the boxed \<open>dyn ComputeAgentAsync\<close>, \<open>'done\<close> for the sender on which the result
  of a computation is awaited.
\<close>

record ('agent, 'done) local_rpc_msg =
  rpc_n :: u16
  rpc_args :: bytes
  rpc_agent :: 'agent
  rpc_on_done :: 'done

record 'pid phase1_channel =
  p1_id :: room_id
  p1_rx :: "chan option"
  p1_on_local_rpc :: chan
  p1_service :: "'pid network_service"

record 'pid phase2_chan =
  p2_id :: room_id
  p2_rx :: "chan option"
  p2_service :: "'pid network_service"

record ('pid, 'agent, 'done) negotiation_state =
  ns_id :: room_id
  ns_n :: u16
  ns_args :: bytes
  ns_service :: "'pid network_service"
  ns_peers :: "'pid list"
  ns_responses :: "chan option"
  ns_on_done :: 'done

record ('pid, 'agent, 'done) negotiation_chan =
  ng_rx :: "chan option"
  ng_agent :: "'agent option"
  ng_state :: "('pid, 'agent, 'done) negotiation_state option"

record 'pid receiver_proxy =
  rp_id :: room_id
  rp_rx :: "chan option"
  rp_tx :: chan
  rp_service :: "'pid network_service"
  rp_parties :: "'pid peerset"

section \<open>Constructors\<close>

text \<open>
  The channel pair that a constructor creates is an argument: \<open>h\<close> names the oneshot channel of a
  phase-1 future, whose sender goes to the runtime, and \<open>c\<close> the channel of a proxy, whose receiver
  goes to the execution.
\<close>

definition phase1_new ::
  "chan \<Rightarrow> room_id \<Rightarrow> chan \<Rightarrow> 'pid network_service \<Rightarrow> 'pid phase1_channel \<times> chan" where
  "phase1_new h room_id room_rx service =
     (\<lparr>p1_id = room_id, p1_rx = Some room_rx, p1_on_local_rpc = h, p1_service = service\<rparr>, h)"

definition negotiation_new ::
  "room_id \<Rightarrow> chan \<Rightarrow> u16 \<Rightarrow> bytes \<Rightarrow> 'pid network_service \<Rightarrow> 'agent \<Rightarrow> 'done \<Rightarrow>
   ('pid, 'agent, 'done) negotiation_chan" where
  "negotiation_new room_id room_rx n args service agent on_done =
     \<lparr>ng_rx = Some room_rx, ng_agent = Some agent,
      ng_state = Some \<lparr>ns_id = room_id, ns_n = n, ns_args = args, ns_service = service,
        ns_peers = [ns_local_peer_id service], ns_responses = None, ns_on_done = on_done\<rparr>\<rparr>"

text \<open>The proxy's channel has room for \<open>size - 1\<close> messages: an empty peer set underflows.\<close>

definition receiver_proxy_new ::
  "chan \<Rightarrow> room_id \<Rightarrow> chan \<Rightarrow> 'pid network_service \<Rightarrow> 'pid peerset \<Rightarrow>
   panic + 'pid receiver_proxy \<times> chan" where
  "receiver_proxy_new c room_id room_rx service parties =
     (if peerset_size parties = 0 then Inl ArithOverflow
      else Inr (\<lparr>rp_id = room_id, rp_rx = Some room_rx, rp_tx = c, rp_service = service,
        rp_parties = parties\<rparr>, c))"

section \<open>Phase 1\<close>

datatype ('pid, 'agent, 'done) phase1_msg =
    FromRemote 'pid u64 u64 bytes chan "'pid phase2_chan"
  | FromLocal room_id u16 "('pid, 'agent, 'done) negotiation_chan"

datatype ('a, 's) poll = Ready 'a | Pending 's | Panicked panic

text \<open>
  One poll of phase 1. \<open>incoming\<close> is the next message of the room, if there is one, and \<open>rpc\<close> what
  \<open>try_recv\<close> on the local request channel returns, whose error is unwrapped. A remote message is
  looked at first.
\<close>

definition phase1_poll ::
  "'pid incoming_message option \<Rightarrow> (canceled + ('agent, 'done) local_rpc_msg option) \<Rightarrow>
   'pid phase1_channel \<Rightarrow> (('pid, 'agent, 'done) phase1_msg, 'pid phase1_channel) poll" where
  "phase1_poll incoming rpc self =
     (case p1_rx self of
        None \<Rightarrow> Panicked UnwrapFailed
      | Some rx \<Rightarrow>
          (case incoming of
             Some msg \<Rightarrow>
               (case message_type (im_context msg) of
                  Coordination \<Rightarrow>
                    Ready (FromRemote (im_peer_id msg) (session_id (im_context msg))
                      (protocol_id (im_context msg)) (im_payload msg) (im_pending_response msg)
                      \<lparr>p2_id = p1_id self, p2_rx = Some rx, p2_service = p1_service self\<rparr>)
                | Computation \<Rightarrow> Panicked ExplicitPanic)
           | None \<Rightarrow>
               (case rpc of
                  Inl Canceled \<Rightarrow> Panicked UnwrapFailed
                | Inr (Some m) \<Rightarrow>
                    Ready (FromLocal (p1_id self) (rpc_n m)
                      (negotiation_new (p1_id self) rx (rpc_n m) (rpc_args m) (p1_service self)
                        (rpc_agent m) (rpc_on_done m)))
                | Inr None \<Rightarrow> Pending self)))"

section \<open>Phase 2\<close>

datatype 'pid phase2_msg =
    P2Start room_id chan "'pid receiver_proxy" "'pid peerset" bytes
  | P2Abort room_id "'pid phase1_channel" chan

text \<open>\<open>abort\<close> and the three places that return to phase 1; \<open>h\<close> is the new oneshot channel.\<close>

definition phase2_abort ::
  "chan \<Rightarrow> 'pid phase2_chan \<Rightarrow> panic + room_id \<times> 'pid phase1_channel \<times> chan" where
  "phase2_abort h self =
     (case p2_rx self of
        None \<Rightarrow> Inl UnwrapFailed
      | Some rx \<Rightarrow>
          (case phase1_new h (p2_id self) rx (p2_service self) of
             (ch, tx) \<Rightarrow> Inr (p2_id self, ch, tx)))"

definition phase2_return :: "chan \<Rightarrow> 'pid phase2_chan \<Rightarrow> ('pid phase2_msg, 'pid phase2_chan) poll" where
  "phase2_return h self =
     (case phase2_abort h self of
        Inl p \<Rightarrow> Panicked p
      | Inr (room, ch, tx) \<Rightarrow> Ready (P2Abort room ch tx))"

definition phase2_poll ::
  "'pid pid_ops \<Rightarrow> varint_ops \<Rightarrow> chan \<Rightarrow> chan \<Rightarrow> 'pid incoming_message option \<Rightarrow> bool \<Rightarrow>
   'pid phase2_chan \<Rightarrow> ('pid phase2_msg, 'pid phase2_chan) poll" where
  "phase2_poll P V h c incoming timer self =
     (case p2_rx self of
        None \<Rightarrow> Panicked UnwrapFailed
      | Some rx \<Rightarrow>
          (case incoming of
             Some msg \<Rightarrow>
               (case message_type (im_context msg) of
                  Coordination \<Rightarrow>
                    (case start_msg_from_bytes P V (im_payload msg)
                        (ns_local_peer_id (p2_service self)) of
                       Inl (Panic p) \<Rightarrow> Panicked p
                     | Inl (Err _) \<Rightarrow> phase2_return h self
                     | Inr start_msg \<Rightarrow>
                         (case receiver_proxy_new c (p2_id self) rx (p2_service self)
                             (sm_parties start_msg) of
                            Inl p \<Rightarrow> Panicked p
                          | Inr (proxy, room_rx) \<Rightarrow>
                              Ready (P2Start (p2_id self) room_rx proxy (sm_parties start_msg)
                                (sm_body start_msg))))
                | Computation \<Rightarrow> Panicked ExplicitPanic)
           | None \<Rightarrow> if timer then phase2_return h self else Pending self))"

section \<open>Negotiation\<close>

datatype ('pid, 'agent, 'done) negotiation_msg =
    NStart 'agent 'done chan "'pid receiver_proxy" "'pid peerset" bytes
  | NAbort room_id "'pid phase1_channel" chan

text \<open>
  The methods of \<open>ComputeAgentAsync\<close> that the runtime calls on an agent before it runs.
\<close>

record 'agent agent_ops =
  agent_session_id :: "'agent \<Rightarrow> u64"
  agent_protocol_id :: "'agent \<Rightarrow> u64"

definition agent_context :: "'agent agent_ops \<Rightarrow> 'agent \<Rightarrow> message_context" where
  "agent_context A agent =
     \<lparr>message_type = Coordination, session_id = agent_session_id A agent,
      protocol_id = agent_protocol_id A agent\<rparr>"

text \<open>
  The first poll broadcasts the proposal, with a reply channel of capacity \<open>n - 1\<close> named \<open>q\<close>. (The code
  queues the future that sends it and wakes itself, so that the message leaves at the start of the
  next poll, lines 85 to 91; here it leaves in the poll that queues it. The 15 s timer has not
  expired by then.) The peers are a hash set, whose order is any; here it is a list without
  duplicates. Every
  later poll takes at most one reply, adds its sender to the peers, and when \<open>n\<close> peers are
  there builds the peer set and multicasts the start message to all of them, itself included.
  Otherwise an expired timer returns the room to phase 1.
\<close>

definition negotiation_timeout ::
  "chan \<Rightarrow> bool \<Rightarrow> ('pid, 'agent, 'done) negotiation_chan \<Rightarrow>
   ('pid, 'agent, 'done) negotiation_state \<Rightarrow>
   (('pid, 'agent, 'done) negotiation_msg, ('pid, 'agent, 'done) negotiation_chan) poll" where
  "negotiation_timeout h timer self st =
     (if timer then
        (case ng_rx self of
           None \<Rightarrow> Panicked UnwrapFailed
         | Some rx \<Rightarrow>
             (case phase1_new h (ns_id st) rx (ns_service st) of
                (ch, tx) \<Rightarrow> Ready (NAbort (ns_id st) ch tx)))
      else Pending (self\<lparr>ng_state := Some st\<rparr>))"

definition negotiation_start ::
  "'pid pid_ops \<Rightarrow> varint_ops \<Rightarrow> 'agent agent_ops \<Rightarrow> chan \<Rightarrow>
   ('pid, 'agent, 'done) negotiation_chan \<Rightarrow> ('pid, 'agent, 'done) negotiation_state \<Rightarrow>
   (('pid, 'agent, 'done) negotiation_msg, ('pid, 'agent, 'done) negotiation_chan) poll \<times>
   'pid network_message list" where
  "negotiation_start P V A c self st =
     (case ng_agent self of
        None \<Rightarrow> (Panicked UnwrapFailed, [])
      | Some agent \<Rightarrow>
          let parties = peerset_new P (ns_peers st) (ns_local_peer_id (ns_service st)) in
          (case start_msg_to_bytes P V \<lparr>sm_parties = parties, sm_body = ns_args st\<rparr> of
             Inl p \<Rightarrow> (Panicked p, [])
           | Inr bytes \<Rightarrow>
               let sent = [service_multicast (ns_id st) (ns_peers st) (agent_context A agent)
                             bytes None]
               in (case ng_rx self of
                     None \<Rightarrow> (Panicked UnwrapFailed, sent)
                   | Some rx \<Rightarrow>
                       (case receiver_proxy_new c (ns_id st) rx (ns_service st) parties of
                          Inl p \<Rightarrow> (Panicked p, sent)
                        | Inr (proxy, room_rx) \<Rightarrow>
                            (Ready (NStart agent (ns_on_done st) room_rx proxy parties (ns_args st)),
                             sent)))))"

definition negotiation_poll ::
  "'pid pid_ops \<Rightarrow> varint_ops \<Rightarrow> 'agent agent_ops \<Rightarrow> bool \<Rightarrow> chan \<Rightarrow> chan \<Rightarrow> chan \<Rightarrow>
   'pid reply option \<Rightarrow> bool \<Rightarrow> ('pid, 'agent, 'done) negotiation_chan \<Rightarrow>
   (('pid, 'agent, 'done) negotiation_msg, ('pid, 'agent, 'done) negotiation_chan) poll \<times>
   'pid network_message list" where
  "negotiation_poll P V A checks h c q reply timer self =
     (case ng_state self of
        None \<Rightarrow> (Panicked UnwrapFailed, [])
      | Some st \<Rightarrow>
          (case ns_responses st of
             Some rx \<Rightarrow>
               (case reply of
                  Some (Inr (peer, _)) \<Rightarrow>
                    let st = st\<lparr>ns_peers := List.insert peer (ns_peers st)\<rparr> in
                    if length (ns_peers st) = unat (ns_n st)
                    then negotiation_start P V A c self st
                    else (negotiation_timeout h timer self st, [])
                | _ \<Rightarrow> (negotiation_timeout h timer self st, []))
           | None \<Rightarrow>
               (case ng_agent self of
                  None \<Rightarrow> (Panicked UnwrapFailed, [])
                | Some agent \<Rightarrow>
                    (case u16_sub checks (ns_n st) 1 of
                       Inl p \<Rightarrow> (Panicked p, [])
                     | Inr _ \<Rightarrow>
                         (negotiation_timeout h timer self (st\<lparr>ns_responses := Some q\<rparr>),
                          [service_broadcast (ns_id st) (agent_context A agent) [] (Some q)])))))"

section \<open>Receiver proxy\<close>

text \<open>
  A proxy whose execution has dropped the receiver (\<open>closed\<close>) returns the room to phase 1.
  Otherwise it takes one message, stamps it with the index of its sender in the peer set and
  passes it on; a message from anyone else panics. Whether the channel had room for the message is
  ignored, so the message passed on is an attempt.
\<close>

definition receiver_proxy_poll ::
  "chan \<Rightarrow> bool \<Rightarrow> 'pid incoming_message option \<Rightarrow> 'pid receiver_proxy \<Rightarrow>
   (room_id \<times> 'pid phase1_channel \<times> chan, 'pid receiver_proxy) poll \<times>
   (chan \<times> 'pid incoming_message) list" where
  "receiver_proxy_poll h closed incoming self =
     (case rp_rx self of
        None \<Rightarrow> (Panicked UnwrapFailed, [])
      | Some rx \<Rightarrow>
          if closed then
            (case phase1_new h (rp_id self) rx (rp_service self) of
               (ch, tx) \<Rightarrow> (Ready (rp_id self, ch, tx), []))
          else
            (case incoming of
               None \<Rightarrow> (Pending self, [])
             | Some msg \<Rightarrow>
                 (case index_of (rp_parties self) (im_peer_id msg) of
                    None \<Rightarrow> (Panicked ExplicitPanic, [])
                  | Some i \<Rightarrow> (Pending self, [(rp_tx self, msg\<lparr>im_peer_index := i\<rparr>)]))))"

section \<open>Phases 1 and 2\<close>

text \<open>The receiver that a future or an outcome owns.\<close>

fun phase1_msg_rx :: "('pid, 'agent, 'done) phase1_msg \<Rightarrow> chan option" where
  "phase1_msg_rx (FromRemote peer sid pid payload tx ch) = p2_rx ch"
| "phase1_msg_rx (FromLocal room n neg) = ng_rx neg"

fun phase2_msg_rx :: "'pid phase2_msg \<Rightarrow> chan option" where
  "phase2_msg_rx (P2Start room room_rx proxy parties body) = rp_rx proxy"
| "phase2_msg_rx (P2Abort room ch tx) = p1_rx ch"

fun negotiation_msg_rx :: "('pid, 'agent, 'done) negotiation_msg \<Rightarrow> chan option" where
  "negotiation_msg_rx (NStart agent on_done room_rx proxy parties args) = rp_rx proxy"
| "negotiation_msg_rx (NAbort room ch tx) = p1_rx ch"

lemma receiver_proxy_new_Inr:
  "receiver_proxy_new c room rx service ps = Inr (proxy, room_rx) \<longleftrightarrow>
     session_peers ps \<noteq> [] \<and> room_rx = c \<and>
     proxy = \<lparr>rp_id = room, rp_rx = Some rx, rp_tx = c, rp_service = service, rp_parties = ps\<rparr>"
  by (auto simp: receiver_proxy_new_def peerset_size_def)

lemma phase1_poll_Ready_rx:
  "phase1_poll incoming rpc self = Ready m \<Longrightarrow> p1_rx self \<noteq> None \<and> phase1_msg_rx m = p1_rx self"
  by (auto simp: phase1_poll_def negotiation_new_def
      split: option.splits message_type.splits sum.splits canceled.splits)

lemma phase1_poll_Pending:
  "phase1_poll incoming rpc self = Pending self' \<Longrightarrow> self' = self"
  by (auto simp: phase1_poll_def
      split: option.splits message_type.splits sum.splits canceled.splits)

lemma phase2_return_simps:
  "p2_rx self = Some rx \<Longrightarrow>
     phase2_return h self = Ready (P2Abort (p2_id self)
       \<lparr>p1_id = p2_id self, p1_rx = Some rx, p1_on_local_rpc = h, p1_service = p2_service self\<rparr> h)"
  by (simp add: phase2_return_def phase2_abort_def phase1_new_def)

lemma phase2_poll_Ready_rx:
  assumes "phase2_poll P V h c incoming timer self = Ready m"
  shows "p2_rx self \<noteq> None \<and> phase2_msg_rx m = p2_rx self"
proof (cases "p2_rx self")
  case None
  with assms show ?thesis by (simp add: phase2_poll_def)
next
  case (Some rx)
  with assms show ?thesis
    by (auto simp: phase2_poll_def phase2_return_simps receiver_proxy_new_Inr
        split: option.splits message_type.splits sum.splits fault.splits if_splits)
qed

text \<open>
  Phase 1 panics in exactly three situations: it is polled after it has finished, the room
  delivers a message of the computation phase, or the local request channel was dropped without a
  request. A remote proposal is taken before a local request, and otherwise a local request starts
  a negotiation.
\<close>

theorem phase1_outcomes:
  "((\<exists>p. phase1_poll incoming rpc self = Panicked p) \<longleftrightarrow>
      p1_rx self = None \<or>
      (\<exists>msg. incoming = Some msg \<and> message_type (im_context msg) = Computation) \<or>
      (incoming = None \<and> rpc = Inl Canceled)) \<and>
   (p1_rx self \<noteq> None \<and> incoming = Some msg \<and> message_type (im_context msg) = Coordination \<longrightarrow>
      (\<exists>ch. phase1_poll incoming rpc self = Ready (FromRemote (im_peer_id msg)
         (session_id (im_context msg)) (protocol_id (im_context msg)) (im_payload msg)
         (im_pending_response msg) ch) \<and> p2_rx ch = p1_rx self \<and> p2_id ch = p1_id self)) \<and>
   (p1_rx self \<noteq> None \<and> incoming = None \<and> rpc = Inr (Some r) \<longrightarrow>
      (\<exists>neg. phase1_poll incoming rpc self = Ready (FromLocal (p1_id self) (rpc_n r) neg) \<and>
         ng_rx neg = p1_rx self)) \<and>
   (p1_rx self \<noteq> None \<and> incoming = None \<and> rpc = Inr None \<longrightarrow>
      phase1_poll incoming rpc self = Pending self)"
  by (auto simp: phase1_poll_def negotiation_new_def
      split: option.splits message_type.splits sum.splits canceled.splits)

definition sample_service :: "byte network_service" where
  "sample_service = \<lparr>ns_local_peer_id = 4\<rparr>"

definition sample_msg :: "message_type \<Rightarrow> byte \<Rightarrow> bytes \<Rightarrow> byte incoming_message" where
  "sample_msg mt peer payload =
     \<lparr>im_peer_id = peer, im_peer_index = 0, im_payload = payload, im_is_broadcast = True,
      im_pending_response = 3,
      im_context = \<lparr>message_type = mt, session_id = 0, protocol_id = 0\<rparr>\<rparr>"

theorem phase1_outcomes_witness:
  "\<exists>p. phase1_poll (Some (sample_msg Computation 9 []))
     (Inr None :: canceled + (unit, unit) local_rpc_msg option)
     \<lparr>p1_id = RoomId ''ab'', p1_rx = Some 1, p1_on_local_rpc = 2, p1_service = sample_service\<rparr> =
     Panicked p"
  using phase1_outcomes [of "Some (sample_msg Computation 9 [])"
      "Inr None :: canceled + (unit, unit) local_rpc_msg option"
      "\<lparr>p1_id = RoomId ''ab'', p1_rx = Some 1, p1_on_local_rpc = 2, p1_service = sample_service\<rparr>"]
  by (simp add: sample_msg_def)

section \<open>Negotiation\<close>

text \<open>
  The states of a negotiation, with the peers that have replied so far: it is created for a room,
  and every poll that does not finish gives the next state, whatever the channels and the timer
  yield.
\<close>

definition reply_peers :: "'pid reply option \<Rightarrow> 'pid set" where
  "reply_peers reply = (case reply of Some (Inr (p, _)) \<Rightarrow> {p} | _ \<Rightarrow> {})"

inductive neg_reach ::
  "'pid pid_ops \<Rightarrow> varint_ops \<Rightarrow> 'agent agent_ops \<Rightarrow> bool \<Rightarrow>
   ('pid, 'agent, 'done) negotiation_chan \<Rightarrow> 'pid set \<Rightarrow>
   ('pid, 'agent, 'done) negotiation_chan \<Rightarrow> bool"
  for P V A checks s0 where
  neg_init: "neg_reach P V A checks s0 {} s0"
| neg_step: "neg_reach P V A checks s0 R s \<Longrightarrow>
     fst (negotiation_poll P V A checks h c q reply timer s) = Pending s' \<Longrightarrow>
     neg_reach P V A checks s0 (R \<union> reply_peers reply) s'"

text \<open>
  Between two polls the negotiation holds the room's receiver and the agent, its parameters are
  those it was created with, its peers are distinct, contain the local peer and otherwise only peers
  that replied, and as long as at least two parties are asked for there are fewer peers than that.
\<close>

definition neg_inv ::
  "room_id \<Rightarrow> chan \<Rightarrow> u16 \<Rightarrow> bytes \<Rightarrow> 'pid network_service \<Rightarrow> 'agent \<Rightarrow> 'done \<Rightarrow>
   'pid set \<Rightarrow> ('pid, 'agent, 'done) negotiation_chan \<Rightarrow> bool" where
  "neg_inv room rx n args service agent on_done R s \<longleftrightarrow>
     ng_rx s = Some rx \<and> ng_agent s = Some agent \<and>
     (\<exists>st. ng_state s = Some st \<and> ns_id st = room \<and> ns_n st = n \<and> ns_args st = args \<and>
        ns_service st = service \<and> ns_on_done st = on_done \<and> distinct (ns_peers st) \<and>
        ns_local_peer_id service \<in> set (ns_peers st) \<and>
        set (ns_peers st) \<subseteq> insert (ns_local_peer_id service) R \<and>
        (2 \<le> unat n \<longrightarrow> length (ns_peers st) < unat n))"

lemma neg_inv_init: "neg_inv room rx n args service agent on_done {}
    (negotiation_new room rx n args service agent on_done)"
  by (auto simp: neg_inv_def negotiation_new_def)

lemma negotiation_timeout_cases:
  assumes "ng_rx s = Some rx"
  shows "negotiation_timeout h timer s st =
    (if timer then Ready (NAbort (ns_id st) \<lparr>p1_id = ns_id st, p1_rx = Some rx,
        p1_on_local_rpc = h, p1_service = ns_service st\<rparr> h)
     else Pending (s\<lparr>ng_state := Some st\<rparr>))"
  using assms by (simp add: negotiation_timeout_def phase1_new_def)

lemma start_msg_to_bytes_total:
  "\<exists>b. start_msg_to_bytes P V \<lparr>sm_parties = peerset_new P peers l, sm_body = args\<rparr> = Inr b"
  by (simp add: start_msg_to_bytes_eq peerset_to_bytes_eq)

text \<open>What one poll of a negotiation can do: start, abort, wait, or panic for \<open>n = 0\<close>.\<close>

lemma negotiation_start_eq:
  assumes "ng_rx s = Some rx" and "ng_agent s = Some agent" and "ns_peers st \<noteq> []"
  obtains b where "start_msg_to_bytes P V \<lparr>sm_parties =
      peerset_new P (ns_peers st) (ns_local_peer_id (ns_service st)), sm_body = ns_args st\<rparr> = Inr b"
    and "negotiation_start P V A c s st =
      (Ready (NStart agent (ns_on_done st) c
         \<lparr>rp_id = ns_id st, rp_rx = Some rx, rp_tx = c, rp_service = ns_service st,
          rp_parties = peerset_new P (ns_peers st) (ns_local_peer_id (ns_service st))\<rparr>
         (peerset_new P (ns_peers st) (ns_local_peer_id (ns_service st))) (ns_args st)),
       [service_multicast (ns_id st) (ns_peers st) (agent_context A agent) b None])"
proof -
  let ?ps = "peerset_new P (ns_peers st) (ns_local_peer_id (ns_service st))"
  obtain b where b: "start_msg_to_bytes P V \<lparr>sm_parties = ?ps, sm_body = ns_args st\<rparr> = Inr b"
    using start_msg_to_bytes_total [of P V "ns_peers st" "ns_local_peer_id (ns_service st)"
        "ns_args st"] by blast
  have "receiver_proxy_new c (ns_id st) rx (ns_service st) ?ps =
    Inr (\<lparr>rp_id = ns_id st, rp_rx = Some rx, rp_tx = c, rp_service = ns_service st,
          rp_parties = ?ps\<rparr>, c)"
    using assms(3) by (simp add: receiver_proxy_new_def peerset_size_def)
  then have "negotiation_start P V A c s st =
      (Ready (NStart agent (ns_on_done st) c
         \<lparr>rp_id = ns_id st, rp_rx = Some rx, rp_tx = c, rp_service = ns_service st,
          rp_parties = ?ps\<rparr> ?ps (ns_args st)),
       [service_multicast (ns_id st) (ns_peers st) (agent_context A agent) b None])"
    using assms(1,2) b by (simp add: negotiation_start_def Let_def)
  then show thesis by (rule that [OF b])
qed

lemma List_insert_length: "length (List.insert x xs) \<le> Suc (length xs)"
  by (simp add: List.insert_def)

lemma neg_inv_poll:
  assumes inv: "neg_inv room rx n args service agent on_done R s"
  obtains (start) peers b where
      "negotiation_poll P V A checks h c q reply timer s =
        (Ready (NStart agent on_done c
           \<lparr>rp_id = room, rp_rx = Some rx, rp_tx = c, rp_service = service,
            rp_parties = peerset_new P peers (ns_local_peer_id service)\<rparr>
           (peerset_new P peers (ns_local_peer_id service)) args),
         [service_multicast room peers (agent_context A agent) b None])"
      and "start_msg_to_bytes P V \<lparr>sm_parties = peerset_new P peers (ns_local_peer_id service),
          sm_body = args\<rparr> = Inr b"
      and "distinct peers" and "ns_local_peer_id service \<in> set peers"
      and "length peers = unat n" and "\<exists>p r. reply = Some (Inr (p, r)) \<and> p \<in> set peers"
      and "set peers \<subseteq> insert (ns_local_peer_id service) (R \<union> reply_peers reply)"
  | (abort) msgs where "timer" and "negotiation_poll P V A checks h c q reply timer s =
        (Ready (NAbort room \<lparr>p1_id = room, p1_rx = Some rx, p1_on_local_rpc = h,
           p1_service = service\<rparr> h), msgs)"
  | (wait) s' msgs where "\<not> timer"
      and "negotiation_poll P V A checks h c q reply timer s = (Pending s', msgs)"
      and "neg_inv room rx n args service agent on_done (R \<union> reply_peers reply) s'"
  | (zero) "checks" and "n = 0"
      and "negotiation_poll P V A checks h c q reply timer s = (Panicked ArithOverflow, [])"
proof -
  from inv obtain st where rx: "ng_rx s = Some rx" and agent: "ng_agent s = Some agent"
    and st: "ng_state s = Some st" "ns_id st = room" "ns_n st = n" "ns_args st = args"
      "ns_service st = service" "ns_on_done st = on_done"
    and peers: "distinct (ns_peers st)" "ns_local_peer_id service \<in> set (ns_peers st)"
      "2 \<le> unat n \<longrightarrow> length (ns_peers st) < unat n"
      "set (ns_peers st) \<subseteq> insert (ns_local_peer_id service) R"
    unfolding neg_inv_def by blast
  have settle: "thesis" if poll: "negotiation_poll P V A checks h c q reply timer s =
      (negotiation_timeout h timer s st', msgs)"
    and st': "ns_id st' = room" "ns_n st' = n" "ns_args st' = args" "ns_service st' = service"
      "ns_on_done st' = on_done" "distinct (ns_peers st')"
      "ns_local_peer_id service \<in> set (ns_peers st')"
      "2 \<le> unat n \<longrightarrow> length (ns_peers st') < unat n"
      "set (ns_peers st') \<subseteq> insert (ns_local_peer_id service) (R \<union> reply_peers reply)"
    for st' msgs
  proof (cases timer)
    case True
    with abort [OF True] poll st' show thesis by (simp add: negotiation_timeout_cases [OF rx])
  next
    case False
    have "neg_inv room rx n args service agent on_done (R \<union> reply_peers reply)
        (s\<lparr>ng_state := Some st'\<rparr>)"
      unfolding neg_inv_def using rx agent st' by auto
    with wait [OF False] poll False show thesis by (simp add: negotiation_timeout_cases [OF rx])
  qed
  show thesis
  proof (cases "ns_responses st")
    case None
    show thesis
    proof (cases "u16_sub checks n 1")
      case (Inl p)
      then have "checks" "n < 1" "p = ArithOverflow" by (auto simp: u16_sub_def split: if_splits)
      moreover have "n = 0" using \<open>n < 1\<close> by (simp add: word_less_nat_alt unat_eq_0)
      ultimately show thesis
        using zero Inl None agent st by (simp add: negotiation_poll_def)
    next
      case (Inr m)
      then show thesis
        using None agent st peers
        by (intro settle [of "st\<lparr>ns_responses := Some q\<rparr>"]) (auto simp add: negotiation_poll_def)
    qed
  next
    case (Some r)
    show thesis
    proof (cases "\<exists>p x. reply = Some (Inr (p, x))")
      case False
      then have "negotiation_poll P V A checks h c q reply timer s =
          (negotiation_timeout h timer s st, [])"
        using Some st(1) by (auto simp: negotiation_poll_def split: option.splits sum.splits)
      then show thesis by (rule settle) (use st peers in auto)
    next
      case True
      then obtain p x where reply: "reply = Some (Inr (p, x))" by blast
      let ?st = "st\<lparr>ns_peers := List.insert p (ns_peers st)\<rparr>"
      have ne: "ns_peers ?st \<noteq> []" using peers(2) by (auto simp: List.insert_def)
      have st': "ns_id ?st = room" "ns_n ?st = n" "ns_args ?st = args" "ns_service ?st = service"
        "ns_on_done ?st = on_done" "distinct (ns_peers ?st)"
        "ns_local_peer_id service \<in> set (ns_peers ?st)"
        using st peers by simp_all
      have sub: "set (ns_peers ?st) \<subseteq>
          insert (ns_local_peer_id service) (R \<union> reply_peers reply)"
        using peers(4) by (auto simp: reply reply_peers_def)
      show thesis
      proof (cases "length (ns_peers ?st) = unat n")
        case False
        have "length (ns_peers ?st) \<le> Suc (length (ns_peers st))"
          using List_insert_length [of p "ns_peers st"] by simp
        with peers(3) False have "2 \<le> unat n \<longrightarrow> length (ns_peers ?st) < unat n" by auto
        moreover have "negotiation_poll P V A checks h c q reply timer s =
            (negotiation_timeout h timer s ?st, [])"
          using Some st(1,3) reply False by (simp add: negotiation_poll_def Let_def)
        ultimately show thesis using settle [OF _ st' _ sub] by blast
      next
        case True
        have "negotiation_poll P V A checks h c q reply timer s = negotiation_start P V A c s ?st"
          using Some st(1,3) reply True by (simp add: negotiation_poll_def Let_def)
        moreover obtain b where "start_msg_to_bytes P V \<lparr>sm_parties =
            peerset_new P (ns_peers ?st) (ns_local_peer_id service), sm_body = args\<rparr> = Inr b"
          and "negotiation_start P V A c s ?st =
            (Ready (NStart agent on_done c
               \<lparr>rp_id = room, rp_rx = Some rx, rp_tx = c, rp_service = service,
                rp_parties = peerset_new P (ns_peers ?st) (ns_local_peer_id service)\<rparr>
               (peerset_new P (ns_peers ?st) (ns_local_peer_id service)) args),
             [service_multicast room (ns_peers ?st) (agent_context A agent) b None])"
          using negotiation_start_eq [OF rx agent ne, of P V A c] st'(1-5) by metis
        ultimately show thesis
          using start [of "ns_peers ?st" b] st'(6,7) True reply sub by simp
      qed
    qed
  qed
qed

lemma neg_reach_inv:
  "neg_reach P V A checks (negotiation_new room rx n args service agent on_done) R s \<Longrightarrow>
   neg_inv room rx n args service agent on_done R s"
proof (induction rule: neg_reach.induct)
  case neg_init
  show ?case by (rule neg_inv_init)
next
  case (neg_step R s h c q reply timer s')
  from neg_step.IH show ?case
    by (rule neg_inv_poll [where P = P and V = V and A = A and checks = checks and h = h and c = c
          and q = q and reply = reply and timer = timer])
       (use neg_step.hyps in auto)
qed

text \<open>
  C9: A negotiation for \<open>n\<close> parties starts a computation only with exactly \<open>n\<close> different peers, the
  proposer among them and all others having replied, in the canonical order with the indexes
  \<open>0, \<dots>, n - 1\<close>; it then hands on the proposer's own arguments, agent and completion sender and
  the room's receiver, and sends exactly one message: the multicast of the encoded start message
  to exactly these peers. A reply from another peer never starts a negotiation with \<open>n < 2\<close>.
\<close>

theorem negotiation_starts_with_n_peers:
  assumes "neg_reach P V A checks (negotiation_new room rx n args service agent on_done) R s"
    and "negotiation_poll P V A checks h c q reply timer s =
      (Ready (NStart agent' on_done' room_rx proxy parties args'), msgs)"
  shows "length (session_peers parties) = unat n \<and> distinct (session_peers parties) \<and>
    ns_local_peer_id service \<in> set (session_peers parties) \<and>
    set (session_peers parties) \<subseteq>
      insert (ns_local_peer_id service) (R \<union> reply_peers reply) \<and>
    (reply_peers reply \<noteq> {ns_local_peer_id service} \<longrightarrow> 2 \<le> unat n) \<and>
    sorted (map (pid_to_bytes P) (session_peers parties)) \<and>
    parties_indexes parties = [0..<unat n] \<and> local_peer_id parties = ns_local_peer_id service \<and>
    agent' = agent \<and> on_done' = on_done \<and> args' = args \<and>
    proxy = \<lparr>rp_id = room, rp_rx = Some rx, rp_tx = room_rx, rp_service = service,
             rp_parties = parties\<rparr> \<and>
    (\<exists>peers b. mset peers = mset (session_peers parties) \<and>
       start_msg_to_bytes P V \<lparr>sm_parties = parties, sm_body = args\<rparr> = Inr b \<and>
       msgs = [service_multicast room peers (agent_context A agent) b None])"
proof -
  from neg_reach_inv [OF assms(1)] show ?thesis
  proof (rule neg_inv_poll [where P = P and V = V and A = A and checks = checks and h = h and c = c
          and q = q and reply = reply and timer = timer])
    fix peers b
    assume "negotiation_poll P V A checks h c q reply timer s =
        (Ready (NStart agent on_done c
           \<lparr>rp_id = room, rp_rx = Some rx, rp_tx = c, rp_service = service,
            rp_parties = peerset_new P peers (ns_local_peer_id service)\<rparr>
           (peerset_new P peers (ns_local_peer_id service)) args),
         [service_multicast room peers (agent_context A agent) b None])"
      and "start_msg_to_bytes P V \<lparr>sm_parties = peerset_new P peers (ns_local_peer_id service),
          sm_body = args\<rparr> = Inr b"
      and distinct: "distinct peers" and local: "ns_local_peer_id service \<in> set peers"
      and len: "length peers = unat n" and p: "\<exists>p r. reply = Some (Inr (p, r)) \<and> p \<in> set peers"
      and "set peers \<subseteq> insert (ns_local_peer_id service) (R \<union> reply_peers reply)"
    moreover have "2 \<le> unat n" if other: "reply_peers reply \<noteq> {ns_local_peer_id service}"
    proof -
      from p obtain q r where "q \<in> set peers" and reply: "reply = Some (Inr (q, r))" by blast
      with other have "q \<noteq> ns_local_peer_id service" by (auto simp: reply_peers_def)
      with \<open>q \<in> set peers\<close> local distinct have "card {q, ns_local_peer_id service} \<le> length peers"
        by (metis card_mono distinct_card empty_subsetI finite_set insert_subset)
      with \<open>q \<noteq> ns_local_peer_id service\<close> len show ?thesis by simp
    qed
    ultimately show ?thesis using assms(2) by auto
  qed (use assms(2) in auto)
qed


definition sample_agent :: "nat agent_ops" where
  "sample_agent = \<lparr>agent_session_id = (\<lambda>_. 7), agent_protocol_id = (\<lambda>_. 1)\<rparr>"

abbreviation sample_negotiation :: "u16 \<Rightarrow> (byte, nat, nat) negotiation_chan" where
  "sample_negotiation n \<equiv> negotiation_new (RoomId ''ab'') 1 n [5] sample_service 0 0"

definition sample_poll ::
  "byte reply option \<Rightarrow> bool \<Rightarrow> (byte, nat, nat) negotiation_chan \<Rightarrow>
   ((byte, nat, nat) negotiation_msg, (byte, nat, nat) negotiation_chan) poll \<times>
   byte network_message list" where
  "sample_poll = negotiation_poll sample_pid leb_ops sample_agent True 10 11 12"

lemma sample_reach:
  "\<exists>s. neg_reach sample_pid leb_ops sample_agent True (sample_negotiation 2) {} s \<and>
     sample_poll None False (sample_negotiation 2) = (Pending s,
       [service_broadcast (RoomId ''ab'') \<lparr>message_type = Coordination, session_id = 7,
          protocol_id = 1\<rparr> [] (Some 12)]) \<and>
     ng_agent s = Some 0 \<and> ng_rx s = Some 1 \<and>
     ng_state s = Some \<lparr>ns_id = RoomId ''ab'', ns_n = 2, ns_args = [5],
        ns_service = sample_service, ns_peers = [4], ns_responses = Some 12, ns_on_done = 0\<rparr>"
proof -
  let ?init = "sample_negotiation 2"
  let ?st = "\<lparr>ns_id = RoomId ''ab'', ns_n = 2, ns_args = [5], ns_service = sample_service,
       ns_peers = [4::byte], ns_responses = Some 12, ns_on_done = (0::nat)\<rparr>"
  let ?s = "?init\<lparr>ng_state := Some ?st\<rparr>"
  have poll: "sample_poll None False ?init = (Pending ?s,
       [service_broadcast (RoomId ''ab'') \<lparr>message_type = Coordination, session_id = 7,
          protocol_id = 1\<rparr> [] (Some 12)])"
    by (simp add: sample_poll_def negotiation_poll_def negotiation_new_def u16_sub_def
        negotiation_timeout_def sample_service_def agent_context_def sample_agent_def)
  have "neg_reach sample_pid leb_ops sample_agent True ?init ({} \<union> reply_peers None) ?s"
    by (rule neg_step [OF neg_init, where h = 10 and c = 11 and q = 12 and timer = False])
      (use poll in \<open>simp add: sample_poll_def\<close>)
  with poll show ?thesis
    by (intro exI [of _ ?s]) (simp add: reply_peers_def negotiation_new_def)
qed

theorem negotiation_starts_with_n_peers_witness:
  "\<exists>s parties msgs. session_peers parties = [4, 9] \<and> parties_indexes parties = [0, 1] \<and>
     fst (sample_poll None False (sample_negotiation 2)) = Pending s \<and>
     fst (sample_poll (Some (Inr (9, []))) False s) =
       Ready (NStart 0 0 11 \<lparr>rp_id = RoomId ''ab'', rp_rx = Some 1, rp_tx = 11,
         rp_service = sample_service, rp_parties = parties\<rparr> parties [5])"
proof -
  obtain s where reach: "neg_reach sample_pid leb_ops sample_agent True (sample_negotiation 2) {} s"
    and fst: "fst (sample_poll None False (sample_negotiation 2)) = Pending s"
    and s: "ng_agent s = Some 0" "ng_rx s = Some 1"
     "ng_state s = Some \<lparr>ns_id = RoomId ''ab'', ns_n = 2, ns_args = [5],
        ns_service = sample_service, ns_peers = [4], ns_responses = Some 12, ns_on_done = 0\<rparr>"
    using sample_reach by (metis fst_conv)
  let ?ps = "peerset_new sample_pid [9, 4] 4"
  obtain b where poll: "negotiation_poll sample_pid leb_ops sample_agent True 10 11 12
      (Some (Inr (9, []))) False s =
      (Ready (NStart 0 0 11 \<lparr>rp_id = RoomId ''ab'', rp_rx = Some 1, rp_tx = 11,
         rp_service = sample_service, rp_parties = ?ps\<rparr> ?ps [5]),
       [service_multicast (RoomId ''ab'') [9, 4] (agent_context sample_agent 0) b None])"
  proof (rule negotiation_start_eq [of s 1 0 "\<lparr>ns_id = RoomId ''ab'', ns_n = 2, ns_args = [5],
        ns_service = sample_service, ns_peers = [9, 4], ns_responses = Some 12, ns_on_done = 0\<rparr>"
        sample_pid leb_ops sample_agent 11])
  qed (use s in \<open>auto simp: negotiation_poll_def sample_service_def\<close>)
  have "length (session_peers ?ps) = unat (2::u16)"
    using negotiation_starts_with_n_peers [OF reach poll] by blast
  then show ?thesis
    using fst poll by (intro exI [of _ s] exI [of _ ?ps]) (simp add: sample_poll_def peerset_new_def)
qed


lemma neg_reach_zero:
  assumes "neg_reach P V A True (negotiation_new room rx 0 args service agent on_done) R s"
  shows "s = negotiation_new room rx 0 args service agent on_done"
  using assms
proof (induction rule: neg_reach.induct)
  case (neg_step R s h c q reply timer s')
  then show ?case by (simp add: negotiation_poll_def negotiation_new_def u16_sub_def)
qed simp

text \<open>
  A negotiation never panics, except that with overflow checks compiled in the first poll of one
  for \<open>n = 0\<close> parties does (\<open>n - 1\<close>). It gives up only when its timer expires, and then returns the
  room with its receiver to phase 1.
\<close>

theorem negotiation_panics_iff:
  assumes "neg_reach P V A checks (negotiation_new room rx n args service agent on_done) R s"
  shows "((\<exists>p msgs. negotiation_poll P V A checks h c q reply timer s = (Panicked p, msgs)) \<longleftrightarrow>
      checks \<and> n = 0) \<and>
    (fst (negotiation_poll P V A checks h c q reply timer s) = Ready (NAbort room' ch tx) \<longrightarrow>
      timer \<and> room' = room \<and> p1_id ch = room \<and> p1_rx ch = Some rx \<and> tx = p1_on_local_rpc ch)"
proof (cases "checks \<and> n = 0")
  case True
  then have "s = negotiation_new room rx 0 args service agent on_done"
    using assms by (intro neg_reach_zero) simp
  with True show ?thesis by (simp add: negotiation_poll_def negotiation_new_def u16_sub_def)
next
  case False
  from neg_reach_inv [OF assms] show ?thesis
    by (rule neg_inv_poll [where P = P and V = V and A = A and checks = checks and h = h and c = c
          and q = q and reply = reply and timer = timer])
       (use False in auto)
qed

theorem negotiation_panics_iff_witness:
  "\<exists>p msgs. sample_poll None False (sample_negotiation 0) = (Panicked p, msgs)"
  unfolding sample_poll_def
  using negotiation_panics_iff [of sample_pid leb_ops sample_agent True "RoomId ''ab''" 1 0 "[5]"
      sample_service 0 0 "{}" "sample_negotiation 0" 10 11 12 None False] neg_init
  by blast

section \<open>The room's receiver\<close>

lemma negotiation_start_rx:
  assumes "negotiation_start P V A c s st = (Ready m, msgs)"
  shows "ng_rx s \<noteq> None \<and> negotiation_msg_rx m = ng_rx s"
  using assms
  by (auto simp: negotiation_start_def Let_def receiver_proxy_new_Inr
      split: option.splits sum.splits)

lemma negotiation_timeout_rx:
  assumes "negotiation_timeout h timer s st = Ready m"
  shows "ng_rx s \<noteq> None \<and> negotiation_msg_rx m = ng_rx s"
  using assms by (auto simp: negotiation_timeout_def phase1_new_def split: if_splits option.splits)

lemma negotiation_poll_rx:
  assumes "negotiation_poll P V A checks h c q reply timer s = (Ready m, msgs)"
  shows "ng_rx s \<noteq> None \<and> negotiation_msg_rx m = ng_rx s"
  using assms
  by (auto simp: negotiation_poll_def Let_def
      dest: negotiation_start_rx negotiation_timeout_rx
      split: option.splits sum.splits if_splits)

text \<open>
  A room's receiver is never lost or duplicated by the futures that pass it on: whenever phase 1,
  phase 2, a negotiation or a receiver proxy finishes, its result carries exactly the receiver that
  the future held, in the one part of the result that is the room's next future.
\<close>

theorem room_receiver_conserved:
  "(phase1_poll incoming rpc p1 = Ready m1 \<longrightarrow> p1_rx p1 \<noteq> None \<and> phase1_msg_rx m1 = p1_rx p1) \<and>
   (phase2_poll P V h c incoming timer p2 = Ready m2 \<longrightarrow>
      p2_rx p2 \<noteq> None \<and> phase2_msg_rx m2 = p2_rx p2) \<and>
   (fst (negotiation_poll P V A checks h c q reply timer ng) = Ready m3 \<longrightarrow>
      ng_rx ng \<noteq> None \<and> negotiation_msg_rx m3 = ng_rx ng) \<and>
   (fst (receiver_proxy_poll h closed incoming rp) = Ready (room, ch, tx) \<longrightarrow>
      rp_rx rp \<noteq> None \<and> p1_rx ch = rp_rx rp \<and> room = rp_id rp \<and> p1_id ch = room)"
proof (intro conjI impI)
  assume "fst (negotiation_poll P V A checks h c q reply timer ng) = Ready m3"
  then have "negotiation_poll P V A checks h c q reply timer ng =
      (Ready m3, snd (negotiation_poll P V A checks h c q reply timer ng))"
    by (cases "negotiation_poll P V A checks h c q reply timer ng") simp
  from negotiation_poll_rx [OF this] show "ng_rx ng \<noteq> None" and "negotiation_msg_rx m3 = ng_rx ng"
    by simp_all
qed (auto dest: phase1_poll_Ready_rx phase2_poll_Ready_rx
      simp: receiver_proxy_poll_def phase1_new_def split: option.splits if_splits)

theorem room_receiver_conserved_witness:
  "p1_rx \<lparr>p1_id = RoomId ''ab'', p1_rx = Some 1, p1_on_local_rpc = 2, p1_service = sample_service\<rparr> =
   phase1_msg_rx (FromRemote 9 0 0 [] 3
     \<lparr>p2_id = RoomId ''ab'', p2_rx = Some 1, p2_service = sample_service\<rparr>
     :: (byte, unit, unit) phase1_msg)"
  using room_receiver_conserved [of "Some (sample_msg Coordination 9 [])"
      "Inr None :: canceled + (unit, unit) local_rpc_msg option"
      "\<lparr>p1_id = RoomId ''ab'', p1_rx = Some 1, p1_on_local_rpc = 2, p1_service = sample_service\<rparr>"
      "FromRemote 9 0 0 [] 3 \<lparr>p2_id = RoomId ''ab'', p2_rx = Some 1, p2_service = sample_service\<rparr>"]
  by (simp add: phase1_poll_def sample_msg_def)


section \<open>Agreement on the parties\<close>

lemma start_msg_agreement:
  assumes "pid_ok P" and "varint_ok V" and "\<forall>p \<in> set peers. ed25519 P p"
    and "39 * length peers + length args + 20 \<le> 8192"
    and "start_msg_to_bytes P V \<lparr>sm_parties = peerset_new P peers l, sm_body = args\<rparr> = Inr b"
  shows "start_msg_from_bytes P V b local =
    Inr \<lparr>sm_parties = peerset_new P peers local, sm_body = args\<rparr>"
proof -
  let ?m = "\<lparr>sm_parties = peerset_new P peers l, sm_body = args\<rparr>"
  have wf: "peerset_wf P (sm_parties ?m)" using assms(3,4) peerset_new_wf [of peers P l] by simp
  let ?pb = "encode_pairs P (zip (sort_key (pid_to_bytes P) peers) [0..<length peers])"
  have pb: "peerset_to_bytes P (sm_parties ?m) = Inr ?pb"
    by (simp add: peerset_to_bytes_eq)
  have "\<forall>(p, i) \<in> set (zip (sort_key (pid_to_bytes P) peers) [0..<length peers]). ed25519 P p"
    using assms(3) by (auto dest!: set_zip_leftD)
  from encode_pairs_length [OF this] have "length ?pb = 39 * length peers" by simp
  then have "length (start_msg_encoding V ?pb (sm_body ?m)) \<le> 8192"
    using assms(4) enc_usize_length(2) [OF assms(2), of "length ?pb"]
      enc_usize_length(2) [OF assms(2), of "length args"]
    by (simp add: start_msg_encoding_def)
  from start_msg_decodes [OF assms(1,2) wf pb this, of local] assms(5)
  show ?thesis by (simp add: peerset_new_def Let_def)
qed

text \<open>
  C2: The parties agree. When a negotiation starts, a party that waits in phase 2 and receives the
  multicast start message starts as well, on its own room's receiver, with the same peers in the
  same order, the same indexes and the same arguments as the proposer, only with itself as the local
  peer. This holds as long as 39 bytes per peer, the arguments and 20 bytes for the two lengths fit
  in 8 KiB.
\<close>

theorem start_agreement:
  assumes "pid_ok P" and "varint_ok V"
    and "neg_reach P V A checks (negotiation_new room rx n args service agent on_done) R s"
    and "negotiation_poll P V A checks h c q reply timer s =
      (Ready (NStart agent' on_done' room_rx proxy parties args'),
       [RequestResponse room' ctx (Multicast peers b sender)])"
    and "\<forall>p \<in> set peers. ed25519 P p" and "39 * unat n + length args + 20 \<le> 8192"
    and "p2_rx p2 = Some rx2" and "im_payload msg = b"
    and "message_type (im_context msg) = message_type ctx"
  shows "room' = room \<and> ns_local_peer_id service \<in> set peers \<and>
    phase2_poll P V h2 c2 (Some msg) timer2 p2 =
      (let parties2 = parties\<lparr>local_peer_id := ns_local_peer_id (p2_service p2)\<rparr> in
       Ready (P2Start (p2_id p2) c2 \<lparr>rp_id = p2_id p2, rp_rx = Some rx2, rp_tx = c2,
         rp_service = p2_service p2, rp_parties = parties2\<rparr> parties2 args'))"
proof -
  let ?me = "ns_local_peer_id (p2_service p2)"
  from neg_reach_inv [OF assms(3)] show ?thesis
  proof (rule neg_inv_poll [where P = P and V = V and A = A and checks = checks and h = h and c = c
          and q = q and reply = reply and timer = timer])
    fix ps b'
    assume eq: "negotiation_poll P V A checks h c q reply timer s =
        (Ready (NStart agent on_done c
           \<lparr>rp_id = room, rp_rx = Some rx, rp_tx = c, rp_service = service,
            rp_parties = peerset_new P ps (ns_local_peer_id service)\<rparr>
           (peerset_new P ps (ns_local_peer_id service)) args),
         [service_multicast room ps (agent_context A agent) b' None])"
      and enc: "start_msg_to_bytes P V \<lparr>sm_parties = peerset_new P ps (ns_local_peer_id service),
          sm_body = args\<rparr> = Inr b'"
      and local: "ns_local_peer_id service \<in> set ps" and len: "length ps = unat n"
    from eq assms(4) have same: "ps = peers" "b' = b" "room' = room" "args' = args"
      "parties = peerset_new P peers (ns_local_peer_id service)"
      "ctx = agent_context A agent"
      by (simp_all add: service_multicast_def)
    have "start_msg_from_bytes P V b ?me =
        Inr \<lparr>sm_parties = peerset_new P peers ?me, sm_body = args\<rparr>"
      by (rule start_msg_agreement [OF assms(1,2,5)])
         (use assms(6) enc len same in simp_all)
    moreover have "peerset_new P peers ?me = parties\<lparr>local_peer_id := ?me\<rparr>"
      by (simp add: same(5) peerset_new_def Let_def)
    moreover have "set (session_peers parties) = set peers" by (simp add: same(5))
    then have "session_peers parties \<noteq> []" using local same(1) by force
    moreover have "message_type (im_context msg) = Coordination"
      using assms(9) by (simp add: same(6) agent_context_def)
    ultimately show ?thesis
      using assms(7,8) local same(1,3,4)
      by (simp add: phase2_poll_def Let_def receiver_proxy_new_def peerset_size_def)
  qed (use assms(4) in auto)
qed


theorem start_agreement_witness:
  "\<exists>b msgs s. fst (sample_poll None False (sample_negotiation 2)) = Pending s \<and>
     snd (sample_poll (Some (Inr (9, []))) False s) =
       [service_multicast (RoomId ''ab'') [9, 4] (agent_context sample_agent 0) b None] \<and>
     phase2_poll sample_pid leb_ops 20 21 (Some (sample_msg Coordination 4 b)) False
       \<lparr>p2_id = RoomId ''ab'', p2_rx = Some 30, p2_service = \<lparr>ns_local_peer_id = 9\<rparr>\<rparr> =
     (let ps = \<lparr>local_peer_id = 9, session_peers = [4, 9], parties_indexes = [0, 1]\<rparr> in
      Ready (P2Start (RoomId ''ab'') 21 \<lparr>rp_id = RoomId ''ab'', rp_rx = Some 30, rp_tx = 21,
        rp_service = \<lparr>ns_local_peer_id = 9\<rparr>, rp_parties = ps\<rparr> ps [5]))"
proof -
  obtain s where reach: "neg_reach sample_pid leb_ops sample_agent True (sample_negotiation 2) {} s"
    and fst: "fst (sample_poll None False (sample_negotiation 2)) = Pending s"
    and s: "ng_agent s = Some 0" "ng_rx s = Some 1"
     "ng_state s = Some \<lparr>ns_id = RoomId ''ab'', ns_n = 2, ns_args = [5],
        ns_service = sample_service, ns_peers = [4], ns_responses = Some 12, ns_on_done = 0\<rparr>"
    using sample_reach by (metis fst_conv)
  let ?ps = "peerset_new sample_pid [9, 4] 4"
  obtain b where poll: "negotiation_poll sample_pid leb_ops sample_agent True 10 11 12
      (Some (Inr (9, []))) False s =
      (Ready (NStart 0 0 11 \<lparr>rp_id = RoomId ''ab'', rp_rx = Some 1, rp_tx = 11,
         rp_service = sample_service, rp_parties = ?ps\<rparr> ?ps [5]),
       [RequestResponse (RoomId ''ab'') (agent_context sample_agent 0) (Multicast [9, 4] b None)])"
  proof (rule negotiation_start_eq [of s 1 0 "\<lparr>ns_id = RoomId ''ab'', ns_n = 2, ns_args = [5],
        ns_service = sample_service, ns_peers = [9, 4], ns_responses = Some 12, ns_on_done = 0\<rparr>"
        sample_pid leb_ops sample_agent 11])
  qed (use s in \<open>auto simp: negotiation_poll_def sample_service_def service_multicast_def\<close>)
  have "phase2_poll sample_pid leb_ops 20 21 (Some (sample_msg Coordination 4 b)) False
       \<lparr>p2_id = RoomId ''ab'', p2_rx = Some 30, p2_service = \<lparr>ns_local_peer_id = 9\<rparr>\<rparr> =
     (let ps = ?ps\<lparr>local_peer_id := 9\<rparr> in
      Ready (P2Start (RoomId ''ab'') 21 \<lparr>rp_id = RoomId ''ab'', rp_rx = Some 30, rp_tx = 21,
        rp_service = \<lparr>ns_local_peer_id = 9\<rparr>, rp_parties = ps\<rparr> ps [5]))"
    using start_agreement [OF sample_pid_ok leb_ops_ok reach poll, of
        "\<lparr>p2_id = RoomId ''ab'', p2_rx = Some 30, p2_service = \<lparr>ns_local_peer_id = 9\<rparr>\<rparr>" 30
        "sample_msg Coordination 4 b" 20 21 False]
    by (simp add: sample_pid_ed25519 sample_msg_def agent_context_def)
  then show ?thesis
    using fst poll
    by (intro exI [of _ b] exI [of _ s])
       (simp add: sample_poll_def service_multicast_def peerset_new_def Let_def)
qed

section \<open>Receiver proxy\<close>

text \<open>
  The receiver proxy hands a message on exactly when it comes from a party: it then sends that
  one message to the execution, unchanged except that its peer index is the sender's position in
  the peer set, and stays as it is. A message from any other peer panics.
\<close>

theorem proxy_stamps_sender:
  assumes "rp_rx rp = Some rx" and "distinct (session_peers (rp_parties rp))"
    and "length (session_peers (rp_parties rp)) \<le> 2 ^ 16"
  shows "(k < length (session_peers (rp_parties rp)) \<and>
      session_peers (rp_parties rp) ! k = im_peer_id msg \<longrightarrow>
      receiver_proxy_poll h False (Some msg) rp =
        (Pending rp, [(rp_tx rp, msg\<lparr>im_peer_index := word_of_nat k\<rparr>)]) \<and>
      unat (word_of_nat k :: u16) = k) \<and>
    (im_peer_id msg \<notin> set (session_peers (rp_parties rp)) \<longrightarrow>
      receiver_proxy_poll h False (Some msg) rp = (Panicked ExplicitPanic, [])) \<and>
    receiver_proxy_poll h False None rp = (Pending rp, [])"
  using assms index_of_SomeI [OF assms(2), of k "im_peer_id msg"]
    index_of_None [of "rp_parties rp" "im_peer_id msg"]
  by (auto simp del: index_of_None simp: receiver_proxy_poll_def unat_of_nat_u16 split: option.splits)

theorem proxy_stamps_sender_witness:
  "let rp = \<lparr>rp_id = RoomId ''ab'', rp_rx = Some 1, rp_tx = 11, rp_service = sample_service,
      rp_parties = \<lparr>local_peer_id = 4, session_peers = [4, 9], parties_indexes = [0, 1]\<rparr>\<rparr> in
   receiver_proxy_poll 5 False (Some (sample_msg Computation 9 [7])) rp =
     (Pending rp, [(11, (sample_msg Computation 9 [7])\<lparr>im_peer_index := 1\<rparr>)])"
  using proxy_stamps_sender [of "\<lparr>rp_id = RoomId ''ab'', rp_rx = Some 1, rp_tx = 11,
      rp_service = sample_service,
      rp_parties = \<lparr>local_peer_id = 4, session_peers = [4, 9], parties_indexes = [0, 1]\<rparr>\<rparr>" 1 1
      "sample_msg Computation 9 [7]" 5]
  by (simp add: sample_msg_def)

end
