(* ===== verification/RtError.thy ===== *)
theory RtError
  imports Broadcast
begin

text \<open>
  The errors of the runtime (\<open>node/runtime/src/error.rs\<close>). \<open>'e\<close> stands for \<open>anyhow::Error\<close>. The
  protocol error has the suffix that keeps it apart from the request failure of the same name.
\<close>

datatype 'e rt_error =
    Busy
  | InconsistentEcho u16
  | EchoFailed request_failure
  | UnknownProtocolId u64
  | InternalError 'e

end
