(* ===== verification/Echo.thy ===== *)
theory Echo
  imports RtError
begin

text \<open>
  The echo broadcast of a computation (\<open>node/runtime/src/echo.rs\<close>): per round, every party collects
  the broadcast messages of all parties, acknowledges each with the hash of all of them, and compares
  the hashes that the others return for its own message with the one it computed.

  The asynchronous function \<open>proceed_round\<close> is a state machine with two stages, as it waits in two
  places: for messages and for the replies to its own message. The binary heap of the standard
  library is used through the contract \<open>max_heap\<close>; the model's heap is a list. The hash function
  (BLAKE2s of a crate) is the argument \<open>H\<close>; it hashes the concatenation of what was written to it.
\<close>

section \<open>Messages\<close>

datatype echo_response = EIncoming chan | EOutgoing chan

record echo_message =
  em_sender :: u16
  em_payload :: bytes
  em_response :: echo_response

text \<open>\<open>Ord for EchoMessage\<close> compares the senders only.\<close>

definition em_cmp :: "echo_message \<Rightarrow> echo_message \<Rightarrow> bool" where
  "em_cmp a b \<longleftrightarrow> em_sender a \<le> em_sender b"

section \<open>The priority queue\<close>

text \<open>
  What \<open>BinaryHeap\<close> promises: \<open>push\<close> adds an element and \<open>pop\<close> takes a maximal one. Which of
  several maximal elements comes first is not specified.
\<close>

locale max_heap =
  fixes empty :: 'h
    and push :: "'a \<Rightarrow> 'h \<Rightarrow> 'h"
    and pop :: "'h \<Rightarrow> ('a \<times> 'h) option"
    and items :: "'h \<Rightarrow> 'a multiset"
    and key :: "'a \<Rightarrow> 'k::linorder"
  assumes items_empty: "items empty = {#}"
    and items_push: "items (push x h) = add_mset x (items h)"
    and pop_None: "pop h = None \<longleftrightarrow> items h = {#}"
    and pop_items: "pop h = Some (x, h') \<Longrightarrow> items h = add_mset x (items h')"
    and pop_max: "pop h = Some (x, h') \<Longrightarrow> y \<in># items h \<Longrightarrow> key y \<le> key x"
begin

inductive drains :: "'h \<Rightarrow> 'a list \<Rightarrow> bool" where
  drains_Nil: "pop h = None \<Longrightarrow> drains h []"
| drains_Cons: "pop h = Some (x, h') \<Longrightarrow> drains h' xs \<Longrightarrow> drains h (x # xs)"

lemma drains_items: "drains h xs \<Longrightarrow> mset xs = items h"
  by (induction rule: drains.induct) (auto simp: pop_None dest: pop_items)

lemma drains_sorted: "drains h xs \<Longrightarrow> sorted (map key (rev xs))"
proof (induction rule: drains.induct)
  case (drains_Nil h)
  then show ?case by simp
next
  case (drains_Cons h x h' xs)
  have "key y \<le> key x" if "y \<in> set xs" for y
  proof -
    from that have "y \<in># items h'"
      using drains_items [OF drains_Cons.hyps(2)] by (metis set_mset_mset)
    then have "y \<in># items h" using pop_items [OF drains_Cons.hyps(1)] by simp
    then show ?thesis by (rule pop_max [OF drains_Cons.hyps(1)])
  qed
  with drains_Cons.IH show ?case by (simp add: sorted_append)
qed

text \<open>With distinct keys the order in which the heap is emptied is determined by its contents.\<close>

lemma drains_determined:
  assumes "drains h xs" and "mset ys = items h" and "distinct (map key ys)"
  shows "xs = rev (sort_key key ys)"
proof -
  have perm: "mset (rev xs) = mset ys" using drains_items [OF assms(1)] assms(2) by simp
  have inj: "inj_on key (set ys)" using assms(3) by (simp add: distinct_map)
  from mset_eq_setD [OF perm] inj have "inj_on key (set (rev xs))" by simp
  with perm have "sort_key key (rev xs) = sort_key key ys" by (intro sort_key_perm_eq)
  moreover have "sort_key key (rev xs) = rev xs"
    by (rule sort_key_id_if_sorted) (rule drains_sorted [OF assms(1)])
  ultimately show ?thesis by (metis rev_rev_ident)
qed

lemma items_foldr: "items (foldr push xs empty) = mset xs"
  by (induction xs) (simp_all add: items_empty items_push)

lemma items_push_all: "items (fold push xs h) = mset xs + items h"
  by (induction xs arbitrary: h) (simp_all add: items_push)

end

text \<open>The model's heap: \<open>pop\<close> takes the most recent one of the messages of the greatest sender.\<close>

definition heap_push :: "echo_message \<Rightarrow> echo_message list \<Rightarrow> echo_message list" where
  "heap_push m h = m # h"

fun heap_pop :: "echo_message list \<Rightarrow> (echo_message \<times> echo_message list) option" where
  "heap_pop [] = None"
| "heap_pop (m # h) =
     (case heap_pop h of
        None \<Rightarrow> Some (m, [])
      | Some (x, h') \<Rightarrow> if em_cmp x m then Some (m, h) else Some (x, m # h'))"

lemma heap_pop_None [simp]: "heap_pop h = None \<longleftrightarrow> h = []"
  by (cases h) (auto split: option.splits)

lemma heap_pop_items: "heap_pop h = Some (x, h') \<Longrightarrow> mset h = add_mset x (mset h')"
  by (induction h arbitrary: x h') (auto split: option.splits if_splits)

lemma heap_pop_max:
  "heap_pop h = Some (x, h') \<Longrightarrow> y \<in> set h \<Longrightarrow> em_sender y \<le> em_sender x"
proof (induction h arbitrary: x h' y)
  case Nil
  then show ?case by simp
next
  case (Cons m h)
  show ?case
  proof (cases "heap_pop h")
    case None
    then have "h = []" by simp
    with Cons.prems show ?thesis by simp
  next
    case (Some p)
    obtain z h'' where p: "p = (z, h'')" by (cases p)
    with Some have *: "em_sender w \<le> em_sender z" if "w \<in> set h" for w
      using Cons.IH that by blast
    with Some p Cons.prems show ?thesis
      by (fastforce simp: em_cmp_def split: if_splits)
  qed
qed

interpretation eh: max_heap "[]" heap_push heap_pop mset em_sender
  by unfold_locales (auto simp: heap_push_def dest: heap_pop_items heap_pop_max)


section \<open>The gadget\<close>

text \<open>
  \<open>usize\<close> subtraction \<open>self.n - 1\<close> is only reached after a message has been counted up to \<open>n\<close>, so
  it never underflows. The receiver of the messages is the source of the events below.
\<close>

record echo_gadget =
  eg_r :: u16
  eg_n :: nat
  eg_msgs :: "echo_message list"

definition echo_gadget_new :: "nat \<Rightarrow> echo_gadget" where
  "echo_gadget_new n = \<lparr>eg_r = 0, eg_n = n, eg_msgs = []\<rparr>"

text \<open>
  The \<open>while let\<close> loop pops the whole heap: it writes each payload to the hasher, collects the
  acknowledgement channels, and keeps the last reply channel.
\<close>

record echo_drain =
  ed_written :: bytes
  ed_acks :: "chan list"
  ed_outgoing :: "chan option"

definition drain_one :: "echo_message \<Rightarrow> echo_drain \<Rightarrow> echo_drain" where
  "drain_one m d =
     (let d = d\<lparr>ed_written := ed_written d @ em_payload m\<rparr> in
      case em_response m of
        EIncoming tx \<Rightarrow> d\<lparr>ed_acks := ed_acks d @ [tx]\<rparr>
      | EOutgoing rx \<Rightarrow> d\<lparr>ed_outgoing := Some rx\<rparr>)"

lemma heap_pop_length: "heap_pop h = Some (x, h') \<Longrightarrow> length h = Suc (length h')"
  using heap_pop_items [of h x h'] by (metis size_mset size_add_mset)

function drain_heap :: "echo_message list \<Rightarrow> echo_drain \<Rightarrow> echo_drain" where
  "drain_heap h d =
     (case heap_pop h of
        None \<Rightarrow> d
      | Some (m, h') \<Rightarrow> drain_heap h' (drain_one m d))"
  by pat_completeness auto
termination
  by (relation "measure (\<lambda>(h, d). length h)") (auto dest: heap_pop_length)

declare drain_heap.simps [simp del]

text \<open>
  The acknowledgements are sent in turn; \<open>open_tx\<close> says which of the channels still have a receiver.
  The first closed one panics (\<open>expect\<close>).
\<close>

fun send_acks ::
  "(chan \<Rightarrow> bool) \<Rightarrow> bytes \<Rightarrow> chan list \<Rightarrow> (panic + unit) \<times> (chan \<times> outgoing_response) list" where
  "send_acks open_tx h [] = (Inr (), [])"
| "send_acks open_tx h (tx # txs) =
     (if open_tx tx then
        (case send_acks open_tx h txs of
           (r, sent) \<Rightarrow> (r, (tx, \<lparr>or_result = Inr h, or_sent_feedback = None\<rparr>) # sent))
      else (Inl ExpectFailed, []))"

text \<open>
  The two places in which a round waits: for messages, or for the replies on a channel, with the
  hash to compare them with and the replies so far.
\<close>

datatype 'pid echo_stage =
    Collecting
  | Awaiting chan bytes "'pid reply list"

text \<open>Lines 66 to 89: the heap is full, its messages are hashed and acknowledged.\<close>

definition emit_echo ::
  "(bytes \<Rightarrow> bytes) \<Rightarrow> (chan \<Rightarrow> bool) \<Rightarrow> echo_gadget \<Rightarrow>
   (panic + echo_gadget \<times> 'pid echo_stage) \<times> (chan \<times> outgoing_response) list" where
  "emit_echo H open_tx g =
     (let d = drain_heap (eg_msgs g) \<lparr>ed_written = [], ed_acks = [], ed_outgoing = None\<rparr> in
      case ed_outgoing d of
        None \<Rightarrow> (Inl ExpectFailed, [])
      | Some rx \<Rightarrow>
          let h = H (ed_written d) in
          (case send_acks open_tx h (ed_acks d) of
             (Inl p, sent) \<Rightarrow> (Inl p, sent)
           | (Inr _, sent) \<Rightarrow> (Inr (g\<lparr>eg_msgs := []\<rparr>, Awaiting rx h []), sent)))"

text \<open>Lines 102 to 113: the replies are looked at in the order of their arrival.\<close>

fun check_echoes :: "bytes \<Rightarrow> nat \<Rightarrow> 'pid reply list \<Rightarrow> 'e rt_error + unit" where
  "check_echoes h i [] = Inr ()"
| "check_echoes h i (Inr (peer, hash) # rs) =
     (if hash \<noteq> h then Inl (InconsistentEcho (word_of_nat i)) else check_echoes h (Suc i) rs)"
| "check_echoes h i (Inl e # rs) = Inl (EchoFailed e)"

text \<open>
  What a step of a round comes to: it waits on, the round is over and the next may begin, an
  error, or a panic.
\<close>

datatype ('pid, 'e) echo_result =
    Waiting echo_gadget "'pid echo_stage"
  | RoundDone echo_gadget
  | RoundFailed "'e rt_error"
  | RoundPanicked panic

definition proceed_message ::
  "(bytes \<Rightarrow> bytes) \<Rightarrow> (chan \<Rightarrow> bool) \<Rightarrow> echo_message \<Rightarrow> echo_gadget \<Rightarrow>
   ('pid, 'e) echo_result \<times> (chan \<times> outgoing_response) list" where
  "proceed_message H open_tx msg g =
     (let g = g\<lparr>eg_msgs := heap_push msg (eg_msgs g)\<rparr> in
      if length (eg_msgs g) = eg_n g then
        (case emit_echo H open_tx g of
           (Inl p, sent) \<Rightarrow> (RoundPanicked p, sent)
         | (Inr (g', stage), sent) \<Rightarrow> (Waiting g' stage, sent))
      else (Waiting g Collecting, []))"

definition proceed_reply ::
  "bool \<Rightarrow> 'pid reply \<Rightarrow> chan \<Rightarrow> bytes \<Rightarrow> 'pid reply list \<Rightarrow> echo_gadget \<Rightarrow>
   ('pid, 'e) echo_result" where
  "proceed_reply checks reply rx h hashes g =
     (let hashes = hashes @ [reply] in
      if length hashes = eg_n g - 1 then
        (case check_echoes h 0 hashes of
           Inl e \<Rightarrow> RoundFailed e
         | Inr _ \<Rightarrow>
             (case u16_add checks (eg_r g) 1 of
                Inl p \<Rightarrow> RoundPanicked p
              | Inr r \<Rightarrow> RoundDone (g\<lparr>eg_r := r\<rparr>)))
      else Waiting g (Awaiting rx h hashes))"

section \<open>Wrapping a computation\<close>

text \<open>
  \<open>wrap_execution\<close> drives rounds one after the other until one fails or the computation is over. The
  events are what its \<open>select!\<close> sees: the next message, the next reply to the gadget's own message,
  or the result of the computation. A message that arrives while the gadget waits for replies stays
  in the channel, and so does not occur as an event of that stage.
\<close>

datatype ('pid, 'e) echo_event =
    EvMessage echo_message
  | EvReply "'pid reply"
  | EvComputed "'e rt_error + unit"

datatype ('pid, 'e) wrapped =
    Running echo_gadget "'pid echo_stage"
  | Returned "'e rt_error + unit"
  | WrapPanicked panic

definition after_round :: "('pid, 'e) echo_result \<Rightarrow> ('pid, 'e) wrapped" where
  "after_round r =
     (case r of
        Waiting g stage \<Rightarrow> Running g stage
      | RoundDone g \<Rightarrow> Running g Collecting
      | RoundFailed e \<Rightarrow> Returned (Inl e)
      | RoundPanicked p \<Rightarrow> WrapPanicked p)"

fun wrap_step ::
  "(bytes \<Rightarrow> bytes) \<Rightarrow> bool \<Rightarrow> (chan \<Rightarrow> bool) \<Rightarrow> ('pid, 'e) echo_event \<Rightarrow> ('pid, 'e) wrapped \<Rightarrow>
   ('pid, 'e) wrapped \<times> (chan \<times> outgoing_response) list" where
  "wrap_step H checks open_tx (EvComputed res) (Running g stage) = (Returned (Inr ()), [])"
| "wrap_step H checks open_tx (EvMessage m) (Running g Collecting) =
     (case proceed_message H open_tx m g of (r, sent) \<Rightarrow> (after_round r, sent))"
| "wrap_step H checks open_tx (EvReply r) (Running g (Awaiting rx h hashes)) =
     (after_round (proceed_reply checks r rx h hashes g), [])"
| "wrap_step H checks open_tx ev w = (w, [])"

definition wrap_start :: "nat \<Rightarrow> ('pid, 'e) wrapped" where
  "wrap_start n = Running (echo_gadget_new n) Collecting"

fun wrap_run ::
  "(bytes \<Rightarrow> bytes) \<Rightarrow> bool \<Rightarrow> (chan \<Rightarrow> bool) \<Rightarrow> ('pid, 'e) echo_event list \<Rightarrow> ('pid, 'e) wrapped \<Rightarrow>
   ('pid, 'e) wrapped \<times> (chan \<times> outgoing_response) list" where
  "wrap_run H checks open_tx [] w = (w, [])"
| "wrap_run H checks open_tx (ev # evs) w =
     (case wrap_step H checks open_tx ev w of
        (w', sent) \<Rightarrow>
          (case wrap_run H checks open_tx evs w' of (w'', sent') \<Rightarrow> (w'', sent @ sent')))"


section \<open>Emptying the heap\<close>

definition incoming_ack :: "echo_message \<Rightarrow> chan list" where
  "incoming_ack m = (case em_response m of EIncoming tx \<Rightarrow> [tx] | EOutgoing _ \<Rightarrow> [])"

definition outgoing_rx :: "echo_message \<Rightarrow> chan list" where
  "outgoing_rx m = (case em_response m of EIncoming _ \<Rightarrow> [] | EOutgoing rx \<Rightarrow> [rx])"

text \<open>What is hashed: the payloads in descending order of their senders.\<close>

definition echo_order :: "echo_message list \<Rightarrow> echo_message list" where
  "echo_order ms = rev (sort_key em_sender ms)"

definition echo_input :: "echo_message list \<Rightarrow> bytes" where
  "echo_input ms = concat (map em_payload (echo_order ms))"

lemma set_echo_order [simp]: "set (echo_order ms) = set ms"
  by (simp add: echo_order_def)

lemma length_echo_order [simp]: "length (echo_order ms) = length ms"
  by (simp add: echo_order_def)

lemma mset_echo_order [simp]: "mset (echo_order ms) = mset ms"
  by (simp add: echo_order_def)

lemma echo_order_perm:
  "mset ms = mset ms' \<Longrightarrow> distinct (map em_sender ms) \<Longrightarrow> echo_order ms = echo_order ms'"
  unfolding echo_order_def by (metis distinct_map sort_key_perm_eq)

lemma drain_heap_drains: "eh.drains h xs \<Longrightarrow> drain_heap h d = fold drain_one xs d"
proof (induction arbitrary: d rule: eh.drains.induct)
  case (drains_Nil h)
  then show ?case by (subst drain_heap.simps) simp
next
  case (drains_Cons h x h' xs)
  then show ?case by (subst drain_heap.simps) simp
qed

lemma drains_total: "\<exists>xs. eh.drains h xs"
proof (induction "length h" arbitrary: h rule: less_induct)
  case less
  show ?case
  proof (cases "heap_pop h")
    case None
    then show ?thesis using eh.drains_Nil by blast
  next
    case (Some p)
    then show ?thesis
      using less eh.drains_Cons heap_pop_length by (metis lessI surj_pair)
  qed
qed

text \<open>Whatever lies in the heap, equal senders included, it is drained in some order.\<close>

lemma drained:
  obtains xs where "mset xs = mset h" and "drain_heap h d = fold drain_one xs d"
  using drains_total [of h] by (metis drain_heap_drains eh.drains_items)

lemma drain_heap_eq:
  assumes "mset ms = mset h" and "distinct (map em_sender ms)"
  shows "drain_heap h d = fold drain_one (echo_order ms) d"
proof -
  obtain xs where xs: "eh.drains h xs" using drains_total by blast
  from eh.drains_determined [OF xs assms(1,2)] show ?thesis
    by (simp add: drain_heap_drains [OF xs] echo_order_def)
qed

lemma fold_drain_one:
  "fold drain_one xs d =
     \<lparr>ed_written = ed_written d @ concat (map em_payload xs),
      ed_acks = ed_acks d @ concat (map incoming_ack xs),
      ed_outgoing = fold (\<lambda>rx _. Some rx) (concat (map outgoing_rx xs)) (ed_outgoing d)\<rparr>"
  by (induction xs arbitrary: d)
     (auto simp: drain_one_def Let_def incoming_ack_def outgoing_rx_def
        split: echo_response.splits)

lemma fold_Some: "fold (\<lambda>rx _. Some rx) xs x = (if xs = [] then x else Some (last xs))"
  by (induction xs arbitrary: x) auto

lemma send_acks_open:
  "\<forall>tx \<in> set txs. open_tx tx \<Longrightarrow>
   send_acks open_tx h txs = (Inr (), map (\<lambda>tx. (tx, \<lparr>or_result = Inr h, or_sent_feedback = None\<rparr>)) txs)"
  by (induction txs) simp_all

text \<open>
  The messages of one round: one message per sender, exactly one of them one's own, with the reply
  channel \<open>rx\<close>, and the acknowledgement channels of the others open.
\<close>

definition round_msgs :: "nat \<Rightarrow> (chan \<Rightarrow> bool) \<Rightarrow> chan \<Rightarrow> echo_message list \<Rightarrow> bool" where
  "round_msgs n open_tx rx ms \<longleftrightarrow>
     length ms = n \<and> distinct (map em_sender ms) \<and> concat (map outgoing_rx ms) = [rx] \<and>
     (\<forall>tx \<in> set (concat (map incoming_ack ms)). open_tx tx)"

definition echo_acks :: "bytes \<Rightarrow> echo_message list \<Rightarrow> (chan \<times> outgoing_response) list" where
  "echo_acks h ms =
     map (\<lambda>tx. (tx, \<lparr>or_result = Inr h, or_sent_feedback = None\<rparr>))
       (concat (map incoming_ack (echo_order ms)))"

lemma mset_concat_map: "mset (concat (map f xs)) = (\<Sum>x \<in># mset xs. mset (f x))"
  by (induction xs) simp_all

lemma concat_map_order: "mset (concat (map f (echo_order ms))) = mset (concat (map f ms))"
  by (simp add: mset_concat_map)

lemma emit_echo_eq:
  assumes "round_msgs n open_tx rx ms" and "mset ms = mset (eg_msgs g)"
  shows "emit_echo H open_tx g =
    (Inr (g\<lparr>eg_msgs := []\<rparr>, Awaiting rx (H (echo_input ms)) []), echo_acks (H (echo_input ms)) ms)"
proof -
  have ms: "distinct (map em_sender ms)" "concat (map outgoing_rx ms) = [rx]"
    "\<forall>tx \<in> set (concat (map incoming_ack ms)). open_tx tx"
    using assms(1) by (auto simp: round_msgs_def)
  have "mset (concat (map outgoing_rx (echo_order ms))) = {#rx#}"
    by (simp only: concat_map_order ms mset.simps)
  then have rx: "concat (map outgoing_rx (echo_order ms)) = [rx]" by simp
  have "set (concat (map incoming_ack (echo_order ms))) = set (concat (map incoming_ack ms))"
    by simp
  with ms(3) have open_all: "\<forall>tx \<in> set (concat (map incoming_ack (echo_order ms))). open_tx tx"
    by blast
  show ?thesis
    using send_acks_open [OF open_all, of "H (echo_input ms)"] rx
    by (simp add: emit_echo_def drain_heap_eq [OF assms(2) ms(1)] fold_drain_one echo_acks_def
        echo_input_def Let_def)
qed

section \<open>Rounds\<close>

lemma wrap_run_append:
  "wrap_run H checks open_tx (es @ es') w =
     (case wrap_run H checks open_tx es w of
        (w', sent) \<Rightarrow> (case wrap_run H checks open_tx es' w' of
           (w'', sent') \<Rightarrow> (w'', sent @ sent')))"
  by (induction es arbitrary: w) (simp_all split: prod.splits)

lemma wrap_run_collect:
  "length (eg_msgs g) + length ms < eg_n g \<Longrightarrow>
   wrap_run H checks open_tx (map EvMessage ms) (Running g Collecting) =
     (Running (g\<lparr>eg_msgs := rev ms @ eg_msgs g\<rparr>) Collecting, [])"
  by (induction ms arbitrary: g)
     (simp_all add: proceed_message_def Let_def heap_push_def after_round_def)

lemma wrap_run_await:
  "length hashes + length rs < eg_n g - 1 \<Longrightarrow>
   wrap_run H checks open_tx (map EvReply rs) (Running g (Awaiting rx h hashes)) =
     (Running g (Awaiting rx h (hashes @ rs)), [])"
  by (induction rs arbitrary: hashes)
     (simp_all add: proceed_reply_def Let_def after_round_def)

lemma wrap_run_emits:
  assumes "round_msgs (eg_n g) open_tx rx ms" and "eg_msgs g = []"
  shows "wrap_run H checks open_tx (map EvMessage ms) (Running g Collecting) =
    (Running g (Awaiting rx (H (echo_input ms)) []), echo_acks (H (echo_input ms)) ms)"
proof -
  have n: "length ms = eg_n g" and "concat (map outgoing_rx ms) \<noteq> []"
    using assms(1) by (auto simp: round_msgs_def)
  then have "ms \<noteq> []" by auto
  then obtain ms' m where ms: "ms = ms' @ [m]" by (cases ms rule: rev_cases) auto
  let ?g = "g\<lparr>eg_msgs := m # rev ms'\<rparr>"
  have "mset ms = mset (eg_msgs ?g)" by (simp add: ms assms(2))
  note emit = emit_echo_eq [OF assms(1) this]
  have g: "?g\<lparr>eg_msgs := []\<rparr> = g" using assms(2) by simp
  have "length (eg_msgs g) + length ms' < eg_n g" using n ms assms(2) by simp
  note collect = wrap_run_collect [OF this]
  show ?thesis
    using n assms(2) g
    by (simp add: ms wrap_run_append collect emit [unfolded ms] proceed_message_def Let_def
        heap_push_def after_round_def)
qed


lemma check_echoes_ok: "check_echoes h i rs = Inr () \<longleftrightarrow> (\<forall>r \<in> set rs. \<exists>p. r = Inr (p, h))"
  by (induction h i rs rule: check_echoes.induct) auto

definition echo_error :: "nat \<Rightarrow> 'pid reply \<Rightarrow> 'e rt_error" where
  "echo_error k r = (case r of Inl e \<Rightarrow> EchoFailed e | Inr _ \<Rightarrow> InconsistentEcho (word_of_nat k))"

lemma check_echoes_first:
  assumes "k < length rs" and "\<forall>j < k. \<exists>p. rs ! j = Inr (p, h)" and "\<nexists>p. rs ! k = Inr (p, h)"
  shows "check_echoes h i rs = Inl (echo_error (i + k) (rs ! k))"
  using assms
proof (induction h i rs arbitrary: k rule: check_echoes.induct)
  case (2 h i peer hash rs)
  show ?case
  proof (cases k)
    case 0
    with 2 show ?thesis by (simp add: echo_error_def)
  next
    case (Suc k')
    have "hash = h" using 2(3) Suc by auto
    moreover have "\<forall>j < k'. \<exists>p. rs ! j = Inr (p, h)" using 2(3) Suc by fastforce
    ultimately show ?thesis using 2 Suc by simp
  qed
next
  case (3 h i e rs)
  then show ?case by (cases k) (auto simp: echo_error_def)
qed simp

lemma wrap_run_replies:
  assumes "length rs = eg_n g - 1" and "rs \<noteq> []"
  shows "wrap_run H checks open_tx (map EvReply rs) (Running g (Awaiting rx h [])) =
    ((case check_echoes h 0 rs of
        Inl e \<Rightarrow> Returned (Inl e)
      | Inr _ \<Rightarrow> (case u16_add checks (eg_r g) 1 of
          Inl p \<Rightarrow> WrapPanicked p
        | Inr r \<Rightarrow> Running (g\<lparr>eg_r := r\<rparr>) Collecting)), [])"
proof -
  obtain rs' r where rs: "rs = rs' @ [r]" using assms(2) by (cases rs rule: rev_cases) auto
  have len: "length ([] :: 'a reply list) + length rs' < eg_n g - 1" using assms(1) rs by simp
  show ?thesis
    using assms(1)
    by (simp add: rs wrap_run_append wrap_run_await [OF len] proceed_reply_def Let_def
        after_round_def split: sum.splits)
qed

lemma complete_round:
  assumes "round_msgs (eg_n g) open_tx rx ms" and "eg_msgs g = []" and "length rs = eg_n g - 1"
    and "2 \<le> eg_n g" and "unat (eg_r g) + 1 < 65536"
    and "\<forall>r \<in> set rs. \<exists>p. r = Inr (p, H (echo_input ms))"
  shows "fst (wrap_run H checks open_tx (map EvMessage ms @ map EvReply rs) (Running g Collecting)) =
    (Running (g\<lparr>eg_r := eg_r g + 1\<rparr>) Collecting :: ('pid, 'e) wrapped)"
proof -
  have ne: "rs \<noteq> []" using assms(3,4) by auto
  have ok: "check_echoes (H (echo_input ms)) 0 rs = (Inr () :: 'e rt_error + unit)"
    using assms(6) by (simp only: check_echoes_ok)
  have r: "u16_add checks (eg_r g) 1 = Inr (eg_r g + 1)"
    using assms(5) by (intro u16_add_ok) simp
  show ?thesis
    by (simp add: wrap_run_append wrap_run_emits [OF assms(1,2)] wrap_run_replies [OF assms(3) ne]
        ok r)
qed

section \<open>What equal hashes say\<close>

lemma echo_order_sender: "map em_sender (echo_order ms) = rev (sort (map em_sender ms))"
proof -
  have "map em_sender (sort_key em_sender ms) = sort (map em_sender ms)"
    by (rule properties_for_sort [symmetric]) simp_all
  then show ?thesis by (simp add: echo_order_def rev_map [symmetric])
qed


text \<open>
  Two parties' views of a round have the same senders, each once; \<open>same_position\<close> finds the
  messages of one sender at the same position of both orders.
\<close>

definition same_senders :: "echo_message list \<Rightarrow> echo_message list \<Rightarrow> bool" where
  "same_senders ms ms' \<longleftrightarrow>
     distinct (map em_sender ms) \<and> distinct (map em_sender ms') \<and>
     em_sender ` set ms = em_sender ` set ms'"

lemma same_senders_order:
  assumes "same_senders ms ms'"
  shows "map em_sender (echo_order ms) = map em_sender (echo_order ms')"
proof -
  have "mset (map em_sender ms) = mset (map em_sender ms')"
    using assms by (intro iffD1 [OF set_eq_iff_mset_eq_distinct]) (simp_all add: same_senders_def)
  then have "sort (map em_sender ms) = sort (map em_sender ms')"
    by (intro properties_for_sort) simp_all
  then show ?thesis by (simp add: echo_order_sender)
qed

lemma same_senders_length:
  "same_senders ms ms' \<Longrightarrow> length (echo_order ms) = length (echo_order ms')"
  using same_senders_order [of ms ms'] by (metis length_map)

lemma same_position:
  assumes "same_senders ms ms'" and "m \<in> set ms" and "m' \<in> set ms'" and "em_sender m = em_sender m'"
  obtains k where "k < length (echo_order ms)" and "echo_order ms ! k = m"
    and "echo_order ms' ! k = m'"
proof -
  obtain k where k: "k < length (echo_order ms)" "echo_order ms ! k = m"
    using assms(2) by (metis in_set_conv_nth set_echo_order)
  obtain j where j: "j < length (echo_order ms')" "echo_order ms' ! j = m'"
    using assms(3) by (metis in_set_conv_nth set_echo_order)
  let ?s = "map em_sender (echo_order ms')"
  have s: "?s ! k = em_sender m"
    using k same_senders_order [OF assms(1)] by (metis nth_map)
  moreover have "?s ! j = em_sender m" using j assms(4) by simp
  moreover have "distinct ?s"
    using assms(1) by (simp add: same_senders_def echo_order_sender)
  moreover have "k < length ?s" "j < length ?s"
    using k j same_senders_length [OF assms(1)] by simp_all
  ultimately have "k = j" by (metis nth_eq_iff_index_eq)
  with that k j show thesis by blast
qed

lemma echo_order_pairs:
  assumes "same_senders ms ms'" and "(x, y) \<in> set (zip (echo_order ms) (echo_order ms'))"
  shows "x \<in> set ms \<and> y \<in> set ms' \<and> em_sender x = em_sender y"
proof -
  from assms(2) obtain k where k: "k < length (echo_order ms)" "k < length (echo_order ms')"
    "x = echo_order ms ! k" "y = echo_order ms' ! k"
    by (auto simp: set_zip)
  then have "em_sender x = em_sender y"
    using same_senders_order [OF assms(1)] by (metis nth_map)
  moreover have "x \<in> set ms" "y \<in> set ms'" using k nth_mem set_echo_order by metis+
  ultimately show ?thesis by blast
qed

lemma echo_input_inj:
  assumes "same_senders ms ms'" and "echo_input ms = echo_input ms'"
    and "\<forall>m \<in> set ms. \<forall>m' \<in> set ms'. em_sender m = em_sender m' \<longrightarrow>
      length (em_payload m) = length (em_payload m')"
    and "m \<in> set ms" and "m' \<in> set ms'" and "em_sender m = em_sender m'"
  shows "em_payload m = em_payload m'"
proof -
  let ?a = "map em_payload (echo_order ms)" and ?b = "map em_payload (echo_order ms')"
  have len: "length ?a = length ?b" using same_senders_length [OF assms(1)] by simp
  have "length x = length y" if "(x, y) \<in> set (zip ?a ?b)" for x y
    using that assms(3) echo_order_pairs [OF assms(1)] by (fastforce simp: zip_map_map)
  then have "\<forall>(x, y) \<in> set (zip ?a ?b). length x = length y" by blast
  from concat_eq_concat_iff [OF this len] have "?a = ?b"
    using assms(2) by (simp add: echo_input_def)
  obtain k where "k < length (echo_order ms)" "echo_order ms ! k = m" "echo_order ms' ! k = m'"
    by (rule same_position [OF assms(1,4-6)])
  with \<open>?a = ?b\<close> len show ?thesis by (metis length_map nth_map)
qed

text \<open>With the payloads of all but one sender the same, the lengths agree of themselves.\<close>

lemma sum_length_one:
  assumes "distinct (map em_sender xs)" and "list_all2 (\<lambda>x y. em_sender x = em_sender y \<and>
      (em_sender x \<noteq> s \<longrightarrow> em_payload x = em_payload y)) xs ys"
    and "length (concat (map em_payload xs)) = length (concat (map em_payload ys))"
  shows "list_all2 (\<lambda>x y. length (em_payload x) = length (em_payload y)) xs ys"
  using assms(2,1,3)
proof (induction rule: list_all2_induct)
  case Nil
  then show ?case by simp
next
  case (Cons x xs y ys)
  show ?case
  proof (cases "em_sender x = s")
    case False
    with Cons show ?thesis by simp
  next
    case True
    have "list_all2 (\<lambda>x y. em_payload x = em_payload y) xs ys"
      using Cons.hyps(2)
    proof (rule list.rel_mono_strong)
      fix z z'
      assume "z \<in> set xs" and "em_sender z = em_sender z' \<and>
        (em_sender z \<noteq> s \<longrightarrow> em_payload z = em_payload z')"
      moreover have "s \<notin> em_sender ` set xs" using Cons.prems(1) True by auto
      ultimately show "em_payload z = em_payload z'" by (metis image_eqI)
    qed
    then have "map em_payload xs = map em_payload ys"
      by (simp add: list_all2_conv_all_nth list_eq_iff_nth_eq)
    moreover from this have "list_all2 (\<lambda>x y. length (em_payload x) = length (em_payload y)) xs ys"
      by (simp add: list_all2_conv_all_nth list_eq_iff_nth_eq)
    ultimately show ?thesis using Cons.prems(2) by simp
  qed
qed


lemma echo_input_one_sender:
  assumes "same_senders ms ms'" and "echo_input ms = echo_input ms'"
    and "\<forall>m \<in> set ms. \<forall>m' \<in> set ms'. em_sender m = em_sender m' \<and> em_sender m \<noteq> s \<longrightarrow>
      em_payload m = em_payload m'"
  shows "\<forall>m \<in> set ms. \<forall>m' \<in> set ms'. em_sender m = em_sender m' \<longrightarrow>
    length (em_payload m) = length (em_payload m')"
proof (intro ballI impI)
  fix m m' assume m: "m \<in> set ms" "m' \<in> set ms'" "em_sender m = em_sender m'"
  have pair: "em_sender x = em_sender y \<and>
      (em_sender x \<noteq> s \<longrightarrow> em_payload x = em_payload y)"
    if "(x, y) \<in> set (zip (echo_order ms) (echo_order ms'))" for x y
    using echo_order_pairs [OF assms(1) that] assms(3) by blast
  have "list_all2 (\<lambda>x y. length (em_payload x) = length (em_payload y))
      (echo_order ms) (echo_order ms')"
  proof (rule sum_length_one [where s = s])
    show "distinct (map em_sender (echo_order ms))"
      using assms(1) by (simp add: same_senders_def echo_order_sender)
    show "list_all2 (\<lambda>x y. em_sender x = em_sender y \<and>
        (em_sender x \<noteq> s \<longrightarrow> em_payload x = em_payload y)) (echo_order ms) (echo_order ms')"
    proof (rule list_all2_all_nthI [OF same_senders_length [OF assms(1)]])
      fix k assume k: "k < length (echo_order ms)"
      have "k < length (zip (echo_order ms) (echo_order ms'))"
        using k same_senders_length [OF assms(1)] by simp
      from nth_mem [OF this] same_senders_length [OF assms(1)] k
      have "(echo_order ms ! k, echo_order ms' ! k) \<in> set (zip (echo_order ms) (echo_order ms'))"
        by (metis nth_zip)
      then show "em_sender (echo_order ms ! k) = em_sender (echo_order ms' ! k) \<and>
          (em_sender (echo_order ms ! k) \<noteq> s \<longrightarrow>
           em_payload (echo_order ms ! k) = em_payload (echo_order ms' ! k))"
        by (rule pair)
    qed
  qed (use assms(2) in \<open>simp add: echo_input_def\<close>)
  then have "length (em_payload (echo_order ms ! k)) = length (em_payload (echo_order ms' ! k))"
    if "k < length (echo_order ms)" for k
    using that by (rule list_all2_nthD)
  moreover obtain k where "k < length (echo_order ms)" "echo_order ms ! k = m"
    "echo_order ms' ! k = m'"
    by (rule same_position [OF assms(1) m])
  ultimately show "length (em_payload m) = length (em_payload m')" by blast
qed

text \<open>A round that was completed, with the reply of another party among its replies.\<close>

lemma completed_hash:
  assumes "round_msgs (eg_n g) open_tx rx ms" and "eg_msgs g = []" and "2 \<le> eg_n g"
    and "length rs = eg_n g - 1"
    and "fst (wrap_run H checks open_tx (map EvMessage ms @ map EvReply rs) (Running g Collecting)) =
      (Running g' Collecting :: ('pid, 'e) wrapped)"
    and "Inr (b, h) \<in> set rs"
  shows "h = H (echo_input ms)"
proof -
  have ne: "rs \<noteq> []" using assms(6) by auto
  from assms(5) have "check_echoes (H (echo_input ms)) 0 rs = (Inr () :: 'e rt_error + unit)"
    by (simp add: wrap_run_append wrap_run_emits [OF assms(1,2)]
        wrap_run_replies [OF assms(4) ne] split: sum.splits prod.splits)
  with assms(6) show ?thesis by (auto simp: check_echoes_ok)
qed

lemma acked_hash:
  assumes "round_msgs (eg_n g) open_tx rx ms" and "eg_msgs g = []"
    and "(tx, resp) \<in> set (snd (wrap_run H checks open_tx (map EvMessage ms) (Running g Collecting)))"
  shows "or_result resp = Inr (H (echo_input ms))"
  using assms(3) by (auto simp: wrap_run_emits [OF assms(1,2)] echo_acks_def)


section \<open>Properties\<close>

text \<open>
  C25: The echo of a round does not depend on the order in which its messages arrive: whatever that
  order, after the last of the \<open>n\<close> messages the gadget has acknowledged every message of another
  party, in descending order of the senders, with the hash of all payloads in that order, and waits
  for the replies to its own message.
\<close>

theorem echo_round_emits:
  assumes "round_msgs (eg_n g) open_tx rx ms" and "eg_msgs g = []" and "mset arrived = mset ms"
  shows "wrap_run H checks open_tx (map EvMessage arrived) (Running g Collecting) =
    (Running g (Awaiting rx (H (echo_input ms)) []), echo_acks (H (echo_input ms)) ms)"
proof -
  have ms: "distinct (map em_sender ms)" "concat (map outgoing_rx ms) = [rx]"
    using assms(1) by (simp_all add: round_msgs_def)
  have order: "echo_order arrived = echo_order ms"
    using echo_order_perm [OF assms(3) [symmetric] ms(1)] by simp
  have "mset (concat (map outgoing_rx arrived)) = {#rx#}"
    using assms(3) ms(2) mset_concat_map [of outgoing_rx arrived] mset_concat_map [of outgoing_rx ms]
    by simp
  moreover have "mset (map em_sender arrived) = mset (map em_sender ms)" using assms(3) by simp
  then have "distinct (map em_sender arrived)" using ms(1) by (metis mset_eq_imp_distinct_iff)
  moreover have "set arrived = set ms" "length arrived = length ms"
    using assms(3) by (auto dest: mset_eq_setD mset_eq_length)
  ultimately have "round_msgs (eg_n g) open_tx rx arrived"
    using assms(1) by (simp add: round_msgs_def)
  from wrap_run_emits [OF this assms(2)] show ?thesis
    by (simp add: echo_input_def echo_acks_def order)
qed

definition sample_round :: "echo_message list" where
  "sample_round =
     [\<lparr>em_sender = 1, em_payload = [10], em_response = EOutgoing 7\<rparr>,
      \<lparr>em_sender = 2, em_payload = [20], em_response = EIncoming 8\<rparr>,
      \<lparr>em_sender = 3, em_payload = [30], em_response = EIncoming 9\<rparr>]"

lemma sample_round_ok: "round_msgs 3 (\<lambda>_. True) 7 sample_round"
  by (simp add: round_msgs_def sample_round_def outgoing_rx_def)

lemma sample_round_input: "echo_input sample_round = [30, 20, 10]"
  by (simp add: echo_input_def echo_order_def sample_round_def)

theorem echo_round_emits_witness:
  "fst (wrap_run id True (\<lambda>_. True) (map EvMessage (rev sample_round)) (wrap_start 3)) =
     (Running (echo_gadget_new 3) (Awaiting 7 [30, 20, 10] []) :: (byte, unit) wrapped)"
  by (simp add: echo_gadget_new_def sample_round_ok sample_round_input wrap_start_def
      echo_round_emits [of _ "\<lambda>_. True" 7 sample_round "rev sample_round" id True])

text \<open>
  C26: With at least two parties a round ends with the last of the \<open>n - 1\<close> replies, never earlier: it
  is completed, and the next one begins, exactly when all replies carry the own hash. Otherwise the
  computation is given up with an error about the first reply, in the order of arrival, that is a
  failure or carries another hash; the number in \<open>InconsistentEcho\<close> is that position, not the index
  of a party.
\<close>

theorem echo_round_outcome:
  fixes rs :: "'pid reply list"
  assumes "length rs = eg_n g - 1" and "2 \<le> eg_n g" and "unat (eg_r g) + 1 < 2 ^ 16"
  shows "(i < eg_n g - 1 \<longrightarrow>
      wrap_run H checks open_tx (map EvReply (take i rs)) (Running g (Awaiting rx h [])) =
        (Running g (Awaiting rx h (take i rs)) :: ('pid, 'e) wrapped, [])) \<and>
    ((\<forall>r \<in> set rs. \<exists>p. r = Inr (p, h)) \<longrightarrow>
      wrap_run H checks open_tx (map EvReply rs) (Running g (Awaiting rx h [])) =
        (Running (g\<lparr>eg_r := eg_r g + 1\<rparr>) Collecting :: ('pid, 'e) wrapped, [])) \<and>
    (k < length rs \<and> (\<forall>j < k. \<exists>p. rs ! j = Inr (p, h)) \<and> (\<nexists>p. rs ! k = Inr (p, h)) \<longrightarrow>
      wrap_run H checks open_tx (map EvReply rs) (Running g (Awaiting rx h [])) =
        (Returned (Inl (case rs ! k of Inl e \<Rightarrow> EchoFailed e
           | Inr _ \<Rightarrow> InconsistentEcho (word_of_nat k))) :: ('pid, 'e) wrapped, []))"
proof -
  have ne: "rs \<noteq> []" using assms(1,2) by auto
  have r: "u16_add checks (eg_r g) 1 = Inr (eg_r g + 1)" using assms(3) by (simp add: u16_add_def)
  note replies = wrap_run_replies [OF assms(1) ne]
  show ?thesis
  proof (intro conjI impI)
    assume "i < eg_n g - 1"
    then have "length [] + length (take i rs) < eg_n g - 1" using assms(1) by simp
    then show "wrap_run H checks open_tx (map EvReply (take i rs)) (Running g (Awaiting rx h [])) =
        (Running g (Awaiting rx h (take i rs)) :: ('pid, 'e) wrapped, [])"
      using wrap_run_await [of "[]" "take i rs" g] by simp
  next
    assume "\<forall>r \<in> set rs. \<exists>p. r = Inr (p, h)"
    then have "check_echoes h 0 rs = (Inr () :: 'e rt_error + unit)" by (simp only: check_echoes_ok)
    then show "wrap_run H checks open_tx (map EvReply rs) (Running g (Awaiting rx h [])) =
        (Running (g\<lparr>eg_r := eg_r g + 1\<rparr>) Collecting :: ('pid, 'e) wrapped, [])"
      by (simp add: replies r)
  next
    assume "k < length rs \<and> (\<forall>j < k. \<exists>p. rs ! j = Inr (p, h)) \<and> (\<nexists>p. rs ! k = Inr (p, h))"
    then have "check_echoes h 0 rs = Inl (echo_error (0 + k) (rs ! k) :: 'e rt_error)"
      by (intro check_echoes_first) simp_all
    then show "wrap_run H checks open_tx (map EvReply rs) (Running g (Awaiting rx h [])) =
      (Returned (Inl (case rs ! k of Inl e \<Rightarrow> EchoFailed e
           | Inr _ \<Rightarrow> InconsistentEcho (word_of_nat k))) :: ('pid, 'e) wrapped, [])"
      by (simp add: replies echo_error_def)
  qed
qed

theorem echo_round_outcome_witness:
  "fst (wrap_run id True (\<lambda>_. True) (map EvReply [Inr (2, [9]), Inr (3, [8])])
      (Running (echo_gadget_new 3) (Awaiting 7 [9] []))) =
    (Returned (Inl (InconsistentEcho 1)) :: (byte, unit) wrapped)"
  using echo_round_outcome [where rs = "[Inr (2, [9]), Inr (3, [8])]" and g = "echo_gadget_new 3"
      and i = 0 and H = id and checks = True and open_tx = "\<lambda>_. True" and rx = 7 and h = "[9]"
      and k = 1 and ?'pid = byte and ?'e = unit]
  by (simp add: echo_gadget_new_def del: wrap_run.simps)


text \<open>The views of a round of four that parties 1 and 2 have; parties 3 and 4 sent \<open>b3\<close> and \<open>b4\<close>.\<close>

definition split_view :: "u16 \<Rightarrow> bytes \<Rightarrow> bytes \<Rightarrow> echo_message list" where
  "split_view me b3 b4 =
     [\<lparr>em_sender = me, em_payload = [1], em_response = EOutgoing 7\<rparr>,
      \<lparr>em_sender = 3 - me, em_payload = [1], em_response = EIncoming 8\<rparr>,
      \<lparr>em_sender = 3, em_payload = b3, em_response = EIncoming 9\<rparr>,
      \<lparr>em_sender = 4, em_payload = b4, em_response = EIncoming 10\<rparr>]"

abbreviation split_replies :: "bytes \<Rightarrow> byte reply list" where
  "split_replies h \<equiv> [Inr (1, h), Inr (2, h), Inr (3, h)]"

lemma split_view_facts:
  assumes "me = 1 \<or> me = 2"
  shows "round_msgs 4 (\<lambda>_. True) 7 (split_view me b3 b4)"
    and "echo_input (split_view me b3 b4) = b4 @ b3 @ [1, 1]"
    and "echo_acks h (split_view me b3 b4) =
      map (\<lambda>tx. (tx, \<lparr>or_result = Inr h, or_sent_feedback = None\<rparr>)) [10, 9, 8]"
  using assms
  by (auto simp: round_msgs_def split_view_def outgoing_rx_def echo_input_def echo_order_def
      echo_acks_def incoming_ack_def)

lemma split_view_round:
  assumes "me = 1 \<or> me = 2"
  shows "fst (wrap_run H checks (\<lambda>_. True) (map EvMessage (split_view me b3 b4) @
      map EvReply (split_replies (H (b4 @ b3 @ [1, 1])))) (wrap_start 4)) =
    (Running ((echo_gadget_new 4)\<lparr>eg_r := 1\<rparr>) Collecting :: (byte, 'e) wrapped)"
  using complete_round [of "echo_gadget_new 4" "\<lambda>_. True" 7 "split_view me b3 b4"
      "split_replies (H (b4 @ b3 @ [1, 1]))" H checks]
  by (simp add: wrap_start_def echo_gadget_new_def split_view_facts [OF assms] del: list.map)

text \<open>
  C6: The echo gives agreement on the broadcasts, as far as the hash does. Suppose a party completes
  a round and one of the replies that it took is the acknowledgement that a second party sent in
  its own round. If both have the same senders, the hash has no collision on their two inputs and
  the payloads that they have from one sender are of one length, then they have the same payload
  from every sender. The lengths need not be assumed if at most one sender sent different
  payloads: a single equivocating sender is always found out.
\<close>

theorem echo_agreement:
  fixes gA :: echo_gadget
  assumes A: "round_msgs (eg_n gA) openA rxA msA" "eg_msgs gA = []" "2 \<le> eg_n gA"
      "length rs = eg_n gA - 1"
      "fst (wrap_run H checks openA (map EvMessage msA @ map EvReply rs) (Running gA Collecting)) =
        (Running gA' Collecting :: ('pid, 'e) wrapped)"
    and B: "round_msgs (eg_n gB) openB rxB msB" "eg_msgs gB = []"
      "(tx, resp) \<in> set (snd (wrap_run H checks openB (map EvMessage msB)
        (Running gB Collecting :: ('pid, 'e) wrapped)))"
    and reply: "or_result resp = Inr h" "Inr (b, h) \<in> set rs"
    and senders: "em_sender ` set msA = em_sender ` set msB"
    and no_collision: "H (echo_input msA) = H (echo_input msB) \<longrightarrow> echo_input msA = echo_input msB"
    and lengths: "(\<forall>m \<in> set msA. \<forall>m' \<in> set msB. em_sender m = em_sender m' \<longrightarrow>
        length (em_payload m) = length (em_payload m')) \<or>
      (\<forall>m \<in> set msA. \<forall>m' \<in> set msB. em_sender m = em_sender m' \<and> em_sender m \<noteq> s \<longrightarrow>
        em_payload m = em_payload m')"
    and m: "m \<in> set msA" "m' \<in> set msB" "em_sender m = em_sender m'"
  shows "em_payload m = em_payload m'"
proof -
  have same: "same_senders msA msB"
    using A(1) B(1) senders by (simp add: same_senders_def round_msgs_def)
  have "h = H (echo_input msA)" by (rule completed_hash [OF A reply(2)])
  moreover have "h = H (echo_input msB)" using acked_hash [OF B] reply(1) by simp
  ultimately have input: "echo_input msA = echo_input msB" using no_collision by simp
  from lengths have "\<forall>m \<in> set msA. \<forall>m' \<in> set msB. em_sender m = em_sender m' \<longrightarrow>
        length (em_payload m) = length (em_payload m')"
    using echo_input_one_sender [OF same input] by blast
  from echo_input_inj [OF same input this m] show ?thesis .
qed

theorem echo_agreement_witness:
  "em_payload (split_view 1 [30] [40] ! 2) = em_payload (split_view 2 [30] [40] ! 2)"
proof -
  let ?A = "split_view 1 [30] [40]" and ?B = "split_view 2 [30] [40]"
  let ?g = "echo_gadget_new 4" and ?h = "[40, 30, 1, 1] :: bytes"
  have g: "eg_n ?g = 4" "eg_msgs ?g = []" by (simp_all add: echo_gadget_new_def)
  have run: "fst (wrap_run id True (\<lambda>_. True) (map EvMessage ?A @ map EvReply (split_replies ?h))
      (Running ?g Collecting)) = (Running (?g\<lparr>eg_r := 1\<rparr>) Collecting :: (byte, unit) wrapped)"
    using split_view_round [of 1 id True "[30]" "[40]"] by (simp add: wrap_start_def del: list.map)
  have okB: "round_msgs (eg_n ?g) (\<lambda>_. True) 7 ?B" by (simp add: g split_view_facts)
  have ack: "(8, \<lparr>or_result = Inr ?h, or_sent_feedback = None\<rparr>) \<in>
      set (snd (wrap_run id True (\<lambda>_. True) (map EvMessage ?B)
        (Running ?g Collecting :: (byte, unit) wrapped)))"
    by (simp add: wrap_run_emits [OF okB g(2)] split_view_facts del: list.map)
  show ?thesis
    by (rule echo_agreement [OF _ g(2) _ _ run _ g(2) ack, where rxA = 7 and rxB = 7 and h = ?h
          and b = 3 and s = 0])
       (simp_all add: g split_view_facts, auto simp: split_view_def)
qed

text \<open>
  C27: The echo does not find two colluding senders out, whatever the hash function: the payloads
  are hashed one after the other without their lengths. Parties 1 and 2 complete the round
  although they have different payloads from party 3, and from party 4.
\<close>

theorem echo_collusion_undetected:
  "\<exists>view1 view2 replies.
     fst (wrap_run H checks (\<lambda>_. True) (map EvMessage view1 @ map EvReply replies) (wrap_start 4)) =
       (Running ((echo_gadget_new 4)\<lparr>eg_r := 1\<rparr>) Collecting :: (byte, 'e) wrapped) \<and>
     fst (wrap_run H checks (\<lambda>_. True) (map EvMessage view2 @ map EvReply replies) (wrap_start 4)) =
       (Running ((echo_gadget_new 4)\<lparr>eg_r := 1\<rparr>) Collecting :: (byte, 'e) wrapped) \<and>
     round_msgs 4 (\<lambda>_. True) 7 view1 \<and> round_msgs 4 (\<lambda>_. True) 7 view2 \<and>
     map em_sender view1 = [1, 2, 3, 4] \<and> map em_sender view2 = [2, 1, 3, 4] \<and>
     map em_payload view1 = [[1], [1], [5, 6], [7]] \<and> map em_payload view2 = [[1], [1], [6], [7, 5]]"
proof -
  have "fst (wrap_run H checks (\<lambda>_. True) (map EvMessage (split_view 1 [5, 6] [7]) @
      map EvReply (split_replies (H [7, 5, 6, 1, 1]))) (wrap_start 4)) =
      (Running ((echo_gadget_new 4)\<lparr>eg_r := 1\<rparr>) Collecting :: (byte, 'e) wrapped)"
    using split_view_round [of 1 H checks "[5, 6]" "[7]"] by (simp del: list.map)
  moreover have "fst (wrap_run H checks (\<lambda>_. True) (map EvMessage (split_view 2 [6] [7, 5]) @
      map EvReply (split_replies (H [7, 5, 6, 1, 1]))) (wrap_start 4)) =
      (Running ((echo_gadget_new 4)\<lparr>eg_r := 1\<rparr>) Collecting :: (byte, 'e) wrapped)"
    using split_view_round [of 2 H checks "[6]" "[7, 5]"] by (simp del: list.map)
  moreover have "map em_sender (split_view 1 [5, 6] [7]) = [1, 2, 3, 4]"
    "map em_sender (split_view 2 [6] [7, 5]) = [2, 1, 3, 4]"
    "map em_payload (split_view 1 [5, 6] [7]) = [[1], [1], [5, 6], [7]]"
    "map em_payload (split_view 2 [6] [7, 5]) = [[1], [1], [6], [7, 5]]"
    by (simp_all add: split_view_def)
  ultimately show ?thesis
    by (intro exI [of _ "split_view 1 [5, 6] [7]"] exI [of _ "split_view 2 [6] [7, 5]"]
        exI [of _ "split_replies (H [7, 5, 6, 1, 1])"] conjI split_view_facts(1)) simp_all
qed


definition echo_caused :: "'e rt_error \<Rightarrow> bool" where
  "echo_caused e \<longleftrightarrow> (\<exists>i. e = InconsistentEcho i) \<or> (\<exists>f. e = EchoFailed f)"

lemma check_echoes_caused: "check_echoes h i rs = Inl e \<Longrightarrow> echo_caused e"
  by (induction h i rs rule: check_echoes.induct) (auto simp: echo_caused_def split: if_splits)

lemma wrap_step_caused:
  "fst (wrap_step H checks open_tx ev w) = Returned (Inl e) \<Longrightarrow> w = Returned (Inl e) \<or> echo_caused e"
  by (induction H checks open_tx ev w rule: wrap_step.induct)
     (auto simp: proceed_message_def proceed_reply_def after_round_def Let_def
        dest: check_echoes_caused split: prod.splits sum.splits if_splits echo_result.splits)

lemma wrap_run_caused:
  "fst (wrap_run H checks open_tx evs w) = Returned (Inl e) \<Longrightarrow> w = Returned (Inl e) \<or> echo_caused e"
proof (induction evs arbitrary: w)
  case Nil
  then show ?case by simp
next
  case (Cons ev evs)
  obtain w' sent where step: "wrap_step H checks open_tx ev w = (w', sent)"
    by (cases "wrap_step H checks open_tx ev w")
  then have "fst (wrap_run H checks open_tx evs w') = Returned (Inl e)"
    using Cons.prems by (simp split: prod.splits)
  from Cons.IH [OF this] show ?case using wrap_step_caused [of H checks open_tx ev w e] step by auto
qed

lemma wrap_run_returned: "wrap_run H checks open_tx evs (Returned r) = (Returned r, [])"
  by (induction evs) simp_all

text \<open>
  The only errors that a wrapped computation reports are those of the echo: when the computation
  itself ends, with a result or with an error, while the gadget runs, the outcome is success.
\<close>

theorem wrap_execution_result:
  "(fst (wrap_run H checks open_tx evs (wrap_start n)) = Returned (Inl e) \<longrightarrow>
      (\<exists>i. e = InconsistentEcho i) \<or> (\<exists>f. e = EchoFailed f)) \<and>
   (fst (wrap_run H checks open_tx evs (wrap_start n)) = Running g stage \<longrightarrow>
      fst (wrap_run H checks open_tx (evs @ EvComputed res # evs') (wrap_start n)) = Returned (Inr ()))"
proof (intro conjI impI)
  assume "fst (wrap_run H checks open_tx evs (wrap_start n)) = Returned (Inl e)"
  from wrap_run_caused [OF this] show "(\<exists>i. e = InconsistentEcho i) \<or> (\<exists>f. e = EchoFailed f)"
    by (simp add: wrap_start_def echo_caused_def)
next
  assume "fst (wrap_run H checks open_tx evs (wrap_start n)) = Running g stage"
  then obtain sent where "wrap_run H checks open_tx evs (wrap_start n) = (Running g stage, sent)"
    by (metis prod.collapse)
  then show "fst (wrap_run H checks open_tx (evs @ EvComputed res # evs') (wrap_start n)) =
      Returned (Inr ())"
    by (simp add: wrap_run_append wrap_run_returned)
qed

theorem wrap_execution_result_witness:
  "fst (wrap_run id True (\<lambda>_. True) [EvComputed (Inl (InternalError 5))] (wrap_start 3)) =
     (Returned (Inr ()) :: (byte, nat) wrapped)"
  using wrap_execution_result [where evs = "[]" and evs' = "[]" and H = id and checks = True
      and open_tx = "\<lambda>_. True" and n = 3 and res = "Inl (InternalError 5)" and e = Busy
      and g = "echo_gadget_new 3" and stage = "Collecting :: byte echo_stage"]
  by (simp add: wrap_start_def)

end
