(* ===== verification/Execution.thy ===== *)
theory Execution
  imports Coordination Echo Cacher
begin

text \<open>
  A running computation (\<open>node/runtime/src/execution.rs\<close>, with the messages of \<open>traits.rs\<close>): the
  future that moves messages between the agent of a protocol, the network and the echo gadget. One
  poll serves at most one cache request, one message of the agent and one message of the network,
  in this order, and then looks at the agent's future.

  The agent is not part of this file's code: what it sends and what its future yields are arguments
  of the poll, like what the channels deliver. A parameter says how many further messages the
  channel to the echo gadget accepts and whether the channel to the agent accepts one: a full or
  closed channel makes \<open>try_send\<close> fail, and its \<open>expect\<close> panic. Errors of \<open>anyhow\<close> are strings.
\<close>

section \<open>Messages of an agent\<close>

datatype message_routing = RouteBroadcast | PointToPoint u16

record protocol_incoming =
  pi_from :: u16
  pi_body :: bytes
  pi_to :: message_routing

record protocol_outgoing =
  po_body :: bytes
  po_to :: message_routing
  po_sent :: "chan option"

datatype 'pid peerset_msg =
    ReadFromCache chan
  | WriteToCache "'pid peerset" chan

section \<open>State\<close>

record ('pid, 'done) exec_state =
  ex_room_id :: room_id
  ex_local_peer_id :: 'pid
  ex_protocol_id :: u64
  ex_session_id :: u64
  ex_parties :: "'pid peerset"
  ex_cacher :: "'pid persistent_cacher"
  ex_on_done :: "'done option"
  ex_i :: u16
  ex_n :: u16

record ('pid, 'done) protocol_execution =
  pe_state :: "('pid, 'done) exec_state option"

text \<open>
  \<open>new\<close> unwraps the index of the local peer, and the two channels to the agent have capacity
  \<open>n - 1\<close>, which \<open>async_channel::bounded\<close> requires to be positive.
\<close>

definition execution_new ::
  "bool \<Rightarrow> room_id \<Rightarrow> 'agent agent_ops \<Rightarrow> 'agent \<Rightarrow> 'pid network_service \<Rightarrow> 'pid peerset \<Rightarrow>
   'pid persistent_cacher \<Rightarrow> 'done option \<Rightarrow> panic + ('pid, 'done) protocol_execution" where
  "execution_new checks room A agent service ps cacher on_done =
     (let n = word_of_nat (peerset_size ps) in
      case index_of ps (local_peer_id ps) of
        None \<Rightarrow> Inl UnwrapFailed
      | Some i \<Rightarrow>
          and_then (u16_sub checks n 1) (\<lambda>cap.
            if cap = 0 then Inl ExplicitPanic
            else Inr \<lparr>pe_state = Some \<lparr>ex_room_id = room,
              ex_local_peer_id = ns_local_peer_id service,
              ex_protocol_id = agent_protocol_id A agent, ex_session_id = 0, ex_parties = ps,
              ex_cacher = cacher, ex_on_done = on_done, ex_i = i, ex_n = n\<rparr>\<rparr>))"

section \<open>Effects\<close>

datatype ('pid, 'done) exec_effect =
    CacheRead chan "string + 'pid peerset"
  | CacheWritten chan "string + unit"
  | Net "'pid network_message"
  | ToEcho echo_message
  | SentFeedback chan
  | Ack chan outgoing_response
  | ToProtocol protocol_incoming
  | ExecDone 'done "string + bytes"

section \<open>The stages of a poll\<close>

text \<open>Lines 112 to 121. A failed read or write is sent to whoever asked; a panic is a panic.\<close>

fun serve_cache ::
  "'pid pid_ops \<Rightarrow> ('pid, 'done) exec_state \<Rightarrow> 'pid peerset_msg \<Rightarrow> file_system \<Rightarrow>
   panic + file_system \<times> ('pid, 'done) exec_effect list" where
  "serve_cache P st (ReadFromCache tx) fs =
     (case persistent_read P (ex_cacher st) fs (ex_room_id st) of
        Inl (Panic p) \<Rightarrow> Inl p
      | Inl (Err e) \<Rightarrow> Inr (fs, [CacheRead tx (Inl e)])
      | Inr ps \<Rightarrow> Inr (fs, [CacheRead tx (Inr ps)]))"
| "serve_cache P st (WriteToCache ps tx) fs =
     (case persistent_write P (ex_cacher st) fs (ex_room_id st) ps of
        Inl (Panic p) \<Rightarrow> Inl p
      | Inl (Err e) \<Rightarrow> Inr (fs, [CacheWritten tx (Inl e)])
      | Inr fs' \<Rightarrow> Inr (fs', [CacheWritten tx (Inr ())]))"

definition exec_context :: "message_type \<Rightarrow> ('pid, 'done) exec_state \<Rightarrow> message_context" where
  "exec_context mt st =
     \<lparr>message_type = mt, session_id = ex_session_id st, protocol_id = ex_protocol_id st\<rparr>"

text \<open>
  Lines 123 to 195. The future that sends a message is polled only after the \<open>match\<close>, so that a panic
  before that sends nothing. \<open>q\<close> names the fresh reply channel, \<open>free\<close> is the number of messages that
  the echo channel still takes; what is left of it is returned.
\<close>

definition exec_outgoing ::
  "bool \<Rightarrow> chan \<Rightarrow> nat \<Rightarrow> ('pid, 'done) exec_state \<Rightarrow> protocol_outgoing \<Rightarrow>
   panic + nat \<times> ('pid, 'done) exec_effect list" where
  "exec_outgoing checks q free st m =
     (case po_to m of
        PointToPoint remote_index \<Rightarrow>
          and_then (u16_sub checks remote_index 1) (\<lambda>k.
          and_then (peerset_index (ex_parties st) k) (\<lambda>peer.
            Inr (free, (case po_sent m of Some tx \<Rightarrow> [SentFeedback tx] | None \<Rightarrow> []) @
              [Net (service_send (ex_room_id st) peer (exec_context Computation st) (po_body m) q)])))
      | RouteBroadcast \<Rightarrow>
          and_then (u16_sub checks (ex_n st) 1) (\<lambda>_.
          and_then (u16_add checks (ex_i st) 1) (\<lambda>sender.
            if free = 0 then Inl ExpectFailed
            else Inr (free - 1,
              [ToEcho \<lparr>em_sender = sender, em_payload = po_body m, em_response = EOutgoing q\<rparr>,
               Net (service_multicast (ex_room_id st) (remotes_iter (ex_parties st))
                 (exec_context Coordination st) (po_body m) (Some q))]))))"

text \<open>Lines 197 to 228.\<close>

definition exec_incoming ::
  "bool \<Rightarrow> nat \<Rightarrow> bool \<Rightarrow> ('pid, 'done) exec_state \<Rightarrow> 'pid incoming_message \<Rightarrow>
   (panic + unit) \<times> ('pid, 'done) exec_effect list" where
  "exec_incoming checks free agent_open st msg =
     (case u16_add checks (im_peer_index msg) 1 of
        Inl p \<Rightarrow>
          (Inl p, if im_is_broadcast msg then []
                  else [Ack (im_pending_response msg) \<lparr>or_result = Inr [], or_sent_feedback = None\<rparr>])
      | Inr sender \<Rightarrow>
          if im_is_broadcast msg \<and> free = 0 then (Inl ExpectFailed, [])
          else
            let first = (if im_is_broadcast msg
                then ToEcho \<lparr>em_sender = sender, em_payload = im_payload msg,
                       em_response = EIncoming (im_pending_response msg)\<rparr>
                else Ack (im_pending_response msg) \<lparr>or_result = Inr [], or_sent_feedback = None\<rparr>)
            in if im_is_broadcast msg
              then (if agent_open then
                  (Inr (), [first, ToProtocol \<lparr>pi_from = sender, pi_body = im_payload msg,
                     pi_to = RouteBroadcast\<rparr>])
                else (Inl ExpectFailed, [first]))
              else (case u16_add checks (ex_i st) 1 of
                  Inl p \<Rightarrow> (Inl p, [first])
                | Inr me \<Rightarrow>
                    if agent_open then
                      (Inr (), [first, ToProtocol \<lparr>pi_from = sender, pi_body = im_payload msg,
                         pi_to = PointToPoint me\<rparr>])
                    else (Inl ExpectFailed, [first])))"

text \<open>Lines 230 to 269, but for the state that is put back.\<close>

definition exec_agent ::
  "(string + bytes) option \<Rightarrow> ('pid, 'done) exec_state \<Rightarrow>
   (string rt_error + unit, ('pid, 'done) protocol_execution) poll \<times> ('pid, 'done) exec_effect list" where
  "exec_agent result st =
     (case result of
        None \<Rightarrow> (Pending \<lparr>pe_state = Some st\<rparr>, [])
      | Some res \<Rightarrow>
          (Ready (case res of Inr _ \<Rightarrow> Inr () | Inl e \<Rightarrow> Inl (InternalError e)),
           case ex_on_done st of Some tx \<Rightarrow> [ExecDone tx res] | None \<Rightarrow> []))"

section \<open>The poll\<close>

record 'pid exec_input =
  xi_cache :: "'pid peerset_msg option"
  xi_outgoing :: "protocol_outgoing option"
  xi_incoming :: "'pid incoming_message option"
  xi_agent :: "(string + bytes) option"
  xi_echo_free :: nat
  xi_agent_open :: bool
  xi_chan :: chan

definition exec_poll ::
  "'pid pid_ops \<Rightarrow> bool \<Rightarrow> 'pid exec_input \<Rightarrow> ('pid, 'done) protocol_execution \<Rightarrow> file_system \<Rightarrow>
   (string rt_error + unit, ('pid, 'done) protocol_execution) poll \<times> file_system \<times>
   ('pid, 'done) exec_effect list" where
  "exec_poll P checks inp self fs =
     (case pe_state self of
        None \<Rightarrow> (Panicked UnwrapFailed, fs, [])
      | Some st \<Rightarrow>
          (case (case xi_cache inp of None \<Rightarrow> Inr (fs, []) | Some m \<Rightarrow> serve_cache P st m fs) of
             Inl p \<Rightarrow> (Panicked p, fs, [])
           | Inr (fs, eff1) \<Rightarrow>
               (case (case xi_outgoing inp of None \<Rightarrow> Inr (xi_echo_free inp, [])
                   | Some m \<Rightarrow> exec_outgoing checks (xi_chan inp) (xi_echo_free inp) st m) of
                  Inl p \<Rightarrow> (Panicked p, fs, eff1)
                | Inr (free, eff2) \<Rightarrow>
                    (case (case xi_incoming inp of None \<Rightarrow> (Inr (), [])
                        | Some m \<Rightarrow> exec_incoming checks free (xi_agent_open inp) st m) of
                       (Inl p, eff3) \<Rightarrow> (Panicked p, fs, eff1 @ eff2 @ eff3)
                     | (Inr _, eff3) \<Rightarrow>
                         (case exec_agent (xi_agent inp) st of
                            (r, eff4) \<Rightarrow> (r, fs, eff1 @ eff2 @ eff3 @ eff4))))))"


section \<open>Creation\<close>

text \<open>
  What a freshly created execution satisfies when its parties are distinct and fewer than 65536: it
  knows its own position and the number of the parties, and there are at least two.
\<close>

definition exec_wf :: "('pid, 'done) exec_state \<Rightarrow> bool" where
  "exec_wf st \<longleftrightarrow>
     (let ps = session_peers (ex_parties st) in
      distinct ps \<and> 2 \<le> length ps \<and> length ps < 2 ^ 16 \<and> unat (ex_n st) = length ps \<and>
      unat (ex_i st) < length ps \<and> ps ! unat (ex_i st) = local_peer_id (ex_parties st))"

lemma exec_wfD:
  assumes "exec_wf st"
  shows "distinct (session_peers (ex_parties st))" and "2 \<le> length (session_peers (ex_parties st))"
    and "length (session_peers (ex_parties st)) < 65536"
    and "unat (ex_n st) = length (session_peers (ex_parties st))"
    and "unat (ex_i st) < length (session_peers (ex_parties st))"
    and "session_peers (ex_parties st) ! unat (ex_i st) = local_peer_id (ex_parties st)"
  using assms by (simp_all add: exec_wf_def Let_def)

lemma u16_pred_zero: "unat n = l \<Longrightarrow> 1 \<le> l \<Longrightarrow> (n - 1 :: u16) = 0 \<longleftrightarrow> l = 1"
  using unat_u16_sub [of 1 n] by (auto simp: word_le_nat_alt unat_eq_zero [symmetric])

lemma index_of_Some_nth:
  assumes "distinct (session_peers ps)" and "length (session_peers ps) < 65536"
    and "index_of ps p = Some i"
  shows "unat i < length (session_peers ps) \<and> session_peers ps ! unat i = p"
proof -
  from assms(3) obtain k where "position (\<lambda>x. x = p) (session_peers ps) = Some k"
    and i: "i = word_of_nat k" by (auto simp: index_of_def)
  then have k: "k < length (session_peers ps)" "session_peers ps ! k = p"
    using position_SomeD by fast+
  have "unat i = k" unfolding i by (rule unat_of_nat_u16) (use k assms(2) in simp)
  with k show ?thesis by simp
qed

text \<open>
  For fewer than 65536 distinct parties, an execution is created exactly when the local peer is
  one of at least two parties; otherwise its creation panics. It then knows its own position and
  the number of the parties, and speaks for the protocol of its agent.
\<close>

theorem execution_created_iff:
  assumes "distinct (session_peers ps)" and "length (session_peers ps) < 2 ^ 16"
  shows "(if local_peer_id ps \<in> set (session_peers ps) \<and> 2 \<le> length (session_peers ps)
     then \<exists>st. execution_new checks room A agent service ps cacher on_done =
         Inr \<lparr>pe_state = Some st\<rparr> \<and> exec_wf st \<and> ex_parties st = ps \<and>
         ex_protocol_id st = agent_protocol_id A agent \<and> ex_on_done st = on_done
     else \<exists>p. execution_new checks room A agent service ps cacher on_done = Inl p)"
proof (cases "index_of ps (local_peer_id ps)")
  case None
  have "local_peer_id ps \<notin> set (session_peers ps)"
    using None index_of_None [of ps "local_peer_id ps"] by simp
  then show ?thesis by (simp add: execution_new_def Let_def None del: index_of_None)
next
  case (Some i)
  let ?n = "word_of_nat (length (session_peers ps)) :: u16"
  have mem: "local_peer_id ps \<in> set (session_peers ps)"
    using Some index_of_None [of ps "local_peer_id ps"] by simp
  have i: "unat i < length (session_peers ps)" "session_peers ps ! unat i = local_peer_id ps"
    using index_of_Some_nth [OF assms(1) _ Some] assms(2) by simp_all
  have n: "unat ?n = length (session_peers ps)" using assms(2) by (simp add: unat_of_nat_u16)
  have pos: "1 \<le> length (session_peers ps)" using i(1) by simp
  then have "u16_sub checks ?n 1 = Inr (?n - 1)"
    using n by (intro u16_sub_ok) (simp add: word_le_nat_alt)
  moreover have "?n - 1 = 0 \<longleftrightarrow> length (session_peers ps) = 1" by (rule u16_pred_zero [OF n pos])
  ultimately show ?thesis
    using mem i n pos assms Some
    by (auto simp: execution_new_def Let_def peerset_size_def exec_wf_def)
qed

theorem execution_created_iff_witness:
  "\<exists>p. execution_new True (RoomId ''ab'') sample_agent 0 sample_service
     \<lparr>local_peer_id = 4, session_peers = [4], parties_indexes = [0]\<rparr>
     (persistent_new [''tmp''] 4) (None :: nat option) = Inl p"
  using execution_created_iff [of "\<lparr>local_peer_id = 4, session_peers = [4], parties_indexes = [0]\<rparr>"
      True "RoomId ''ab''" sample_agent 0 sample_service "persistent_new [''tmp''] 4" None]
  by simp

section \<open>From party to party\<close>

lemma u16_sub_Suc: "Suc b < 65536 \<Longrightarrow> u16_sub checks (word_of_nat (Suc b)) 1 = Inr (word_of_nat b)"
proof -
  assume b: "Suc b < 65536"
  then have "unat (word_of_nat (Suc b) :: u16) = Suc b" by (rule unat_of_nat_u16)
  then have "1 \<le> (word_of_nat (Suc b) :: u16)" by (simp add: word_le_nat_alt)
  then show ?thesis by (simp add: u16_sub_ok)
qed

lemma u16_add_nat:
  "Suc a < 65536 \<Longrightarrow> u16_add checks (word_of_nat a) 1 = Inr (word_of_nat (Suc a))"
  by (simp add: u16_add_def unat_of_nat_u16 add.commute)

text \<open>What a proxy does with a message of the party at position \<open>a\<close>.\<close>

lemma proxy_forwards:
  assumes "rp_rx rp = Some rx" and "distinct (session_peers (rp_parties rp))"
    and "a < length (session_peers (rp_parties rp))"
    and "im_peer_id msg = session_peers (rp_parties rp) ! a"
  shows "receiver_proxy_poll h False (Some msg) rp =
    (Pending rp, [(rp_tx rp, msg\<lparr>im_peer_index := word_of_nat a\<rparr>)])"
  using index_of_SomeI [OF assms(2,3)] assms(1,4) by (simp add: receiver_proxy_poll_def)

lemma exec_wf_i:
  assumes "exec_wf st" and "a < length (session_peers (ex_parties st))"
    and "session_peers (ex_parties st) ! a = local_peer_id (ex_parties st)"
  shows "ex_i st = word_of_nat a"
proof -
  have "unat (ex_i st) = a"
    using exec_wfD [OF assms(1)] assms(2,3) by (metis nth_eq_iff_index_eq)
  moreover have "ex_i st = word_of_nat (unat (ex_i st))" by simp
  ultimately show ?thesis by simp
qed


lemma point_to_point_arrives:
  assumes "exec_wf stA" and "exec_wf stB"
    and peers: "session_peers (ex_parties stA) = ps" "session_peers (ex_parties stB) = ps"
      "session_peers (rp_parties rp) = ps"
    and a: "a < length ps" "ps ! a = local_peer_id (ex_parties stA)"
    and b: "b < length ps" "ps ! b = local_peer_id (ex_parties stB)"
    and out: "po_to m = PointToPoint (word_of_nat (Suc b))"
    and rp: "rp_rx rp = Some rx"
    and msg: "im_peer_id msg = ps ! a" "im_payload msg = po_body m" "\<not> im_is_broadcast msg"
  shows "exec_outgoing checks q free stA m = Inr (free,
      (case po_sent m of Some tx \<Rightarrow> [SentFeedback tx] | None \<Rightarrow> []) @
      [Net (RequestResponse (ex_room_id stA) (exec_context Computation stA)
        (SendDirect (ps ! b) (po_body m) q))]) \<and>
    receiver_proxy_poll h False (Some msg) rp =
      (Pending rp, [(rp_tx rp, msg\<lparr>im_peer_index := word_of_nat a\<rparr>)]) \<and>
    exec_incoming checks freeB True stB (msg\<lparr>im_peer_index := word_of_nat a\<rparr>) =
      (Inr (), [Ack (im_pending_response msg) \<lparr>or_result = Inr [], or_sent_feedback = None\<rparr>,
        ToProtocol \<lparr>pi_from = word_of_nat (Suc a), pi_body = po_body m,
          pi_to = PointToPoint (word_of_nat (Suc b))\<rparr>])"
proof -
  note wfA = exec_wfD [OF assms(1), unfolded peers(1)]
  have sub: "u16_sub checks (word_of_nat (Suc b)) 1 = Inr (word_of_nat b)"
    by (rule u16_sub_Suc) (use b wfA(3) in simp)
  have "peerset_index (ex_parties stA) (word_of_nat b) = Inr (ps ! b)"
    using b wfA(3) peers(1) by (simp add: peerset_index_def unat_of_nat_u16)
  moreover have "ex_i stB = word_of_nat b"
    by (rule exec_wf_i [OF assms(2)]) (use b peers(2) in simp_all)
  moreover have "u16_add checks (word_of_nat k) 1 = Inr (word_of_nat (Suc k))"
    if "k < length ps" for k
    by (rule u16_add_nat) (use that wfA(3) in simp)
  ultimately show ?thesis
    using sub out msg proxy_forwards [of rp rx a msg h] rp peers a b(1) wfA(1)
    by (simp add: exec_outgoing_def exec_incoming_def service_send_def Let_def del: of_nat_Suc)
qed

text \<open>
  A message from party \<open>a\<close> to party \<open>b\<close> (counted from 1, in the order that all parties share)
  arrives as what it is. The sender's execution sends its body as a computation message to the peer
  at position \<open>b\<close> alone; when it arrives there from the peer it was sent by, the proxy and the
  execution of that party acknowledge it and hand its agent the same body, from \<open>a\<close>, to \<open>b\<close>.
\<close>

theorem point_to_point_delivered:
  assumes "exec_wf stA" and "exec_wf stB"
    and peers: "session_peers (ex_parties stA) = ps" "session_peers (ex_parties stB) = ps"
      "session_peers (rp_parties rp) = ps"
    and a: "a < length ps" "ps ! a = local_peer_id (ex_parties stA)"
    and b: "b < length ps" "ps ! b = local_peer_id (ex_parties stB)"
    and out: "po_to m = PointToPoint (word_of_nat (Suc b))"
    and rp: "rp_rx rp = Some rx"
    and msg: "im_peer_id msg = ps ! a" "im_payload msg = po_body m" "\<not> im_is_broadcast msg"
  shows "exec_outgoing checks q free stA m = Inr (free,
      (case po_sent m of Some tx \<Rightarrow> [SentFeedback tx] | None \<Rightarrow> []) @
      [Net (RequestResponse (ex_room_id stA) (exec_context Computation stA)
        (SendDirect (ps ! b) (po_body m) q))]) \<and>
    receiver_proxy_poll h False (Some msg) rp =
      (Pending rp, [(rp_tx rp, msg\<lparr>im_peer_index := word_of_nat a\<rparr>)]) \<and>
    exec_incoming checks freeB True stB (msg\<lparr>im_peer_index := word_of_nat a\<rparr>) =
      (Inr (), [Ack (im_pending_response msg) \<lparr>or_result = Inr [], or_sent_feedback = None\<rparr>,
        ToProtocol \<lparr>pi_from = word_of_nat (Suc a), pi_body = po_body m,
          pi_to = PointToPoint (word_of_nat (Suc b))\<rparr>])"
  using assms by (rule point_to_point_arrives)

definition sample_exec :: "byte \<Rightarrow> (byte, nat) exec_state" where
  "sample_exec me =
     \<lparr>ex_room_id = RoomId ''ab'', ex_local_peer_id = me, ex_protocol_id = 1, ex_session_id = 0,
      ex_parties = peerset_new sample_pid [4, 9] me, ex_cacher = persistent_new [''tmp''] me,
      ex_on_done = Some 5, ex_i = (if me = 4 then 0 else 1), ex_n = 2\<rparr>"

lemma sample_exec_wf: "me = 4 \<or> me = 9 \<Longrightarrow> exec_wf (sample_exec me)"
  by (auto simp: sample_exec_def exec_wf_def)

definition sample_proxy :: "byte \<Rightarrow> byte receiver_proxy" where
  "sample_proxy me =
     \<lparr>rp_id = RoomId ''ab'', rp_rx = Some 1, rp_tx = 11, rp_service = \<lparr>ns_local_peer_id = me\<rparr>,
      rp_parties = peerset_new sample_pid [4, 9] me\<rparr>"

theorem point_to_point_delivered_witness:
  "exec_outgoing True 6 3 (sample_exec 4)
     \<lparr>po_body = [7], po_to = PointToPoint 2, po_sent = None\<rparr> =
   Inr (3, [Net (RequestResponse (RoomId ''ab'') (exec_context Computation (sample_exec 4))
     (SendDirect 9 [7] 6))])"
proof -
  let ?msg = "(sample_msg Computation 4 [7])\<lparr>im_is_broadcast := False\<rparr>"
  let ?m = "\<lparr>po_body = [7], po_to = PointToPoint 2, po_sent = None\<rparr>"
  have s: "session_peers (ex_parties (sample_exec 4)) = [4, 9]"
    "session_peers (ex_parties (sample_exec 9)) = [4, 9]"
    "session_peers (rp_parties (sample_proxy 9)) = [4, 9]"
    by (simp_all add: sample_exec_def sample_proxy_def)
  show ?thesis
    using point_to_point_delivered [OF sample_exec_wf sample_exec_wf s, of 0 1 ?m 1 ?msg True 6 3]
    by (simp add: sample_proxy_def sample_msg_def, simp add: sample_exec_def)
qed


lemma broadcast_arrives:
  assumes "exec_wf stA" and "exec_wf stB"
    and peers: "session_peers (ex_parties stA) = ps" "session_peers (ex_parties stB) = ps"
      "session_peers (rp_parties rp) = ps"
    and a: "a < length ps" "ps ! a = local_peer_id (ex_parties stA)"
    and out: "po_to m = RouteBroadcast" "0 < free" "0 < freeB"
    and rp: "rp_rx rp = Some rx"
    and msg: "im_peer_id msg = ps ! a" "im_payload msg = po_body m" "im_is_broadcast msg"
  shows "exec_outgoing checks q free stA m = Inr (free - 1,
      [ToEcho \<lparr>em_sender = word_of_nat (Suc a), em_payload = po_body m, em_response = EOutgoing q\<rparr>,
       Net (RequestResponse (ex_room_id stA) (exec_context Coordination stA)
         (Multicast (remotes_iter (ex_parties stA)) (po_body m) (Some q)))]) \<and>
    distinct (remotes_iter (ex_parties stA)) \<and>
    set (remotes_iter (ex_parties stA)) = set ps - {ps ! a} \<and>
    length (remotes_iter (ex_parties stA)) = length ps - 1 \<and>
    receiver_proxy_poll h False (Some msg) rp =
      (Pending rp, [(rp_tx rp, msg\<lparr>im_peer_index := word_of_nat a\<rparr>)]) \<and>
    exec_incoming checks freeB True stB (msg\<lparr>im_peer_index := word_of_nat a\<rparr>) =
      (Inr (), [ToEcho \<lparr>em_sender = word_of_nat (Suc a), em_payload = po_body m,
          em_response = EIncoming (im_pending_response msg)\<rparr>,
        ToProtocol \<lparr>pi_from = word_of_nat (Suc a), pi_body = po_body m, pi_to = RouteBroadcast\<rparr>])"
proof -
  note wfA = exec_wfD [OF assms(1), unfolded peers(1)]
  have "1 \<le> ex_n stA" using wfA(2,4) by (simp add: word_le_nat_alt)
  then have n: "u16_sub checks (ex_n stA) 1 = Inr (ex_n stA - 1)" by (rule u16_sub_ok)
  have i: "ex_i stA = word_of_nat a"
    by (rule exec_wf_i [OF assms(1)]) (use a peers(1) in simp_all)
  have add: "u16_add checks (word_of_nat a) 1 = Inr (word_of_nat (Suc a))"
    by (rule u16_add_nat) (use a wfA(3) in simp)
  have set: "set (remotes_iter (ex_parties stA)) = set ps - {ps ! a}"
    by (auto simp: remotes_iter_def peers(1) a(2))
  have dist: "distinct (remotes_iter (ex_parties stA))"
    using wfA(1) by (simp add: remotes_iter_def peers(1))
  have len: "length (remotes_iter (ex_parties stA)) = length ps - 1"
    using distinct_card [OF dist] distinct_card [OF wfA(1)] a(1)
    by (simp add: set card_Diff_singleton)
  have "exec_outgoing checks q free stA m = Inr (free - 1,
      [ToEcho \<lparr>em_sender = word_of_nat (Suc a), em_payload = po_body m, em_response = EOutgoing q\<rparr>,
       Net (RequestResponse (ex_room_id stA) (exec_context Coordination stA)
         (Multicast (remotes_iter (ex_parties stA)) (po_body m) (Some q)))])"
    using out(1,2) n i add by (simp add: exec_outgoing_def service_multicast_def)
  moreover have "receiver_proxy_poll h False (Some msg) rp =
      (Pending rp, [(rp_tx rp, msg\<lparr>im_peer_index := word_of_nat a\<rparr>)])"
    by (rule proxy_forwards [OF rp]) (use wfA(1) a(1) msg(1) peers(3) in simp_all)
  moreover have "exec_incoming checks freeB True stB (msg\<lparr>im_peer_index := word_of_nat a\<rparr>) =
      (Inr (), [ToEcho \<lparr>em_sender = word_of_nat (Suc a), em_payload = po_body m,
          em_response = EIncoming (im_pending_response msg)\<rparr>,
        ToProtocol \<lparr>pi_from = word_of_nat (Suc a), pi_body = po_body m, pi_to = RouteBroadcast\<rparr>])"
    using out(3) add msg by (simp add: exec_incoming_def Let_def)
  ultimately show ?thesis using set dist len by blast
qed

text \<open>
  C24: A broadcast of party \<open>a\<close> enters the echo of all parties under the same sender. The sender's
  execution multicasts the body to the \<open>n - 1\<close> other parties, each once, and gives its own echo gadget
  the message with the channel on which their replies arrive; the execution of a receiver gives
  its gadget the message with the same sender and payload and with the channel of its
  acknowledgement, and its agent the body, from \<open>a\<close>. The network message is marked as one of the
  coordination phase.
\<close>

theorem broadcast_echoed_consistently:
  assumes "exec_wf stA" and "exec_wf stB"
    and peers: "session_peers (ex_parties stA) = ps" "session_peers (ex_parties stB) = ps"
      "session_peers (rp_parties rp) = ps"
    and a: "a < length ps" "ps ! a = local_peer_id (ex_parties stA)"
    and out: "po_to m = RouteBroadcast" "0 < free" "0 < freeB"
    and rp: "rp_rx rp = Some rx"
    and msg: "im_peer_id msg = ps ! a" "im_payload msg = po_body m" "im_is_broadcast msg"
  shows "exec_outgoing checks q free stA m = Inr (free - 1,
      [ToEcho \<lparr>em_sender = word_of_nat (Suc a), em_payload = po_body m, em_response = EOutgoing q\<rparr>,
       Net (RequestResponse (ex_room_id stA) (exec_context Coordination stA)
         (Multicast (remotes_iter (ex_parties stA)) (po_body m) (Some q)))]) \<and>
    distinct (remotes_iter (ex_parties stA)) \<and>
    set (remotes_iter (ex_parties stA)) = set ps - {ps ! a} \<and>
    length (remotes_iter (ex_parties stA)) = length ps - 1 \<and>
    receiver_proxy_poll h False (Some msg) rp =
      (Pending rp, [(rp_tx rp, msg\<lparr>im_peer_index := word_of_nat a\<rparr>)]) \<and>
    exec_incoming checks freeB True stB (msg\<lparr>im_peer_index := word_of_nat a\<rparr>) =
      (Inr (), [ToEcho \<lparr>em_sender = word_of_nat (Suc a), em_payload = po_body m,
          em_response = EIncoming (im_pending_response msg)\<rparr>,
        ToProtocol \<lparr>pi_from = word_of_nat (Suc a), pi_body = po_body m, pi_to = RouteBroadcast\<rparr>])"
  using assms by (rule broadcast_arrives)

theorem broadcast_echoed_consistently_witness:
  "exec_outgoing True 6 3 (sample_exec 4)
     \<lparr>po_body = [7], po_to = RouteBroadcast, po_sent = None\<rparr> =
   Inr (2, [ToEcho \<lparr>em_sender = 1, em_payload = [7], em_response = EOutgoing 6\<rparr>,
     Net (RequestResponse (RoomId ''ab'') (exec_context Coordination (sample_exec 4))
       (Multicast [9] [7] (Some 6)))])"
proof -
  let ?m = "\<lparr>po_body = [7], po_to = RouteBroadcast, po_sent = None\<rparr>"
  have s: "session_peers (ex_parties (sample_exec 4)) = [4, 9]"
    "session_peers (ex_parties (sample_exec 9)) = [4, 9]"
    "session_peers (rp_parties (sample_proxy 9)) = [4, 9]"
    by (simp_all add: sample_exec_def sample_proxy_def)
  show ?thesis
    using broadcast_echoed_consistently [OF sample_exec_wf sample_exec_wf s, of 0 ?m 3 3 1
        "sample_msg Computation 4 [7]" True 6]
    by (simp add: sample_proxy_def sample_msg_def, simp add: sample_exec_def remotes_iter_def)
qed

section \<open>The whole poll\<close>

lemma serve_cache_no_done:
  "serve_cache P st m fs = Inr (fs', eff) \<Longrightarrow> ExecDone tx r \<notin> set eff"
  by (cases m) (auto split: sum.splits fault.splits)

lemma exec_outgoing_no_done:
  "exec_outgoing checks q free st m = Inr (free', eff) \<Longrightarrow> ExecDone tx r \<notin> set eff"
  by (auto simp: exec_outgoing_def and_then_eq_Inr
      split: message_routing.splits option.splits if_splits)

lemma exec_incoming_no_done:
  "exec_incoming checks free agent_open st m = (res, eff) \<Longrightarrow> ExecDone tx r \<notin> set eff"
  by (auto simp: exec_incoming_def Let_def split: sum.splits if_splits)

text \<open>
  The result of a computation is reported once and at the right moment: a poll sends a result to
  the requester only when it returns, exactly the result of the agent, and only if there is a
  requester. A poll that does not return leaves the execution's state as it was, and an execution
  that has returned panics if it is polled again.
\<close>

theorem execution_reports_result:
  assumes "exec_poll P checks inp \<lparr>pe_state = Some st\<rparr> fs = (r, fs', eff)"
  shows "(ExecDone tx res \<in> set eff \<longleftrightarrow>
      (\<exists>out. r = Ready out) \<and> xi_agent inp = Some res \<and> ex_on_done st = Some tx) \<and>
    (\<forall>out. r = Ready out \<longrightarrow> (\<exists>res. xi_agent inp = Some res \<and>
       out = (case res of Inr _ \<Rightarrow> Inr () | Inl e \<Rightarrow> Inl (InternalError e)))) \<and>
    (\<forall>ex. r = Pending ex \<longrightarrow> ex = \<lparr>pe_state = Some st\<rparr> \<and> xi_agent inp = None) \<and>
    exec_poll P checks inp \<lparr>pe_state = None\<rparr> fs = (Panicked UnwrapFailed, fs, [])"
  using assms
  by (auto simp: exec_poll_def exec_agent_def
      dest: serve_cache_no_done exec_outgoing_no_done exec_incoming_no_done
      split: option.splits sum.splits prod.splits)

theorem execution_reports_result_witness:
  "ExecDone 5 (Inr [1]) \<in> set (snd (snd (exec_poll sample_pid True
     \<lparr>xi_cache = None, xi_outgoing = None, xi_incoming = None, xi_agent = Some (Inr [1]),
      xi_echo_free = 0, xi_agent_open = True, xi_chan = 8\<rparr>
     \<lparr>pe_state = Some (sample_exec 4)\<rparr>
     \<lparr>fs_files = Map.empty, fs_can_mkdir = (\<lambda>_. True), fs_can_write = (\<lambda>_. True)\<rparr>)))"
  using execution_reports_result [of sample_pid True
      "\<lparr>xi_cache = None, xi_outgoing = None, xi_incoming = None, xi_agent = Some (Inr [1]),
        xi_echo_free = 0, xi_agent_open = True, xi_chan = 8\<rparr>" "sample_exec 4"
      "\<lparr>fs_files = Map.empty, fs_can_mkdir = (\<lambda>_. True), fs_can_write = (\<lambda>_. True)\<rparr>"
      "Ready (Inr ())" _ "[ExecDone 5 (Inr [1])]" 5 "Inr [1]"]
  by (simp add: exec_poll_def exec_agent_def sample_exec_def)


text \<open>
  What of this the polls need: the sizes fit. It holds of every execution that is created, be its
  parties distinct or not.
\<close>

definition exec_sized :: "('pid, 'done) exec_state \<Rightarrow> bool" where
  "exec_sized st \<longleftrightarrow>
     length (session_peers (ex_parties st)) < 2 ^ 16 \<and>
     unat (ex_n st) = length (session_peers (ex_parties st)) \<and>
     unat (ex_i st) < length (session_peers (ex_parties st))"

lemma exec_wf_sized: "exec_wf st \<Longrightarrow> exec_sized st"
  by (simp add: exec_wf_def exec_sized_def Let_def)

lemma exec_sizedD:
  assumes "exec_sized st"
  shows "length (session_peers (ex_parties st)) < 65536" and "1 \<le> ex_n st"
    and "unat (ex_i st) + 1 < 2 ^ 16"
  using assms by (auto simp: exec_sized_def word_le_nat_alt)

lemma execution_new_sized:
  assumes "execution_new checks room A agent service ps cacher on_done = Inr \<lparr>pe_state = Some st\<rparr>"
    and "length (session_peers ps) < 2 ^ 16"
  shows "exec_sized st" and "ex_parties st = ps"
proof -
  from assms(1) obtain i where i: "index_of ps (local_peer_id ps) = Some i"
    and st: "ex_parties st = ps" "ex_i st = i" "ex_n st = word_of_nat (length (session_peers ps))"
    by (auto simp: execution_new_def Let_def and_then_eq_Inr peerset_size_def split: option.splits if_splits)
  from i obtain k where "position (\<lambda>x. x = local_peer_id ps) (session_peers ps) = Some k" "i = word_of_nat k"
    by (auto simp: index_of_def)
  then have "unat i < length (session_peers ps)"
    using position_SomeD assms(2) by (fastforce simp: unat_of_nat_u16)
  with st assms(2) show "exec_sized st" and "ex_parties st = ps"
    by (simp_all add: exec_sized_def unat_of_nat_u16)
qed

lemma exec_outgoing_panics:
  assumes "exec_sized st"
  shows "(\<exists>p. exec_outgoing checks q free st m = Inl p) \<longleftrightarrow>
    (case po_to m of
       PointToPoint k \<Rightarrow> k = 0 \<or> length (session_peers (ex_parties st)) < unat k
     | RouteBroadcast \<Rightarrow> free = 0)"
proof (cases "po_to m")
  case RouteBroadcast
  have "u16_sub checks (ex_n st) 1 = Inr (ex_n st - 1)" using exec_sizedD(2) [OF assms] by (rule u16_sub_ok)
  moreover have "u16_add checks (ex_i st) 1 = Inr (ex_i st + 1)"
    using exec_sizedD(3) [OF assms] by (intro u16_add_ok) simp
  ultimately show ?thesis using RouteBroadcast by (simp add: exec_outgoing_def)
next
  case (PointToPoint k)
  show ?thesis
  proof (cases "k = 0")
    case True
    have "peerset_index (ex_parties st) (- 1) = Inl IndexOutOfBounds"
      using exec_sizedD(1) [OF assms]
      by (simp add: peerset_index_def unsigned_minus_1_eq_mask mask_eq_exp_minus_1)
    with True PointToPoint show ?thesis
      by (cases checks) (auto simp: exec_outgoing_def u16_sub_def and_then_def)
  next
    case False
    then have k: "1 \<le> unat k" by (simp add: unat_eq_zero [symmetric] Suc_le_eq)
    then have "1 \<le> k" by (simp add: word_le_nat_alt)
    then have "u16_sub checks k 1 = Inr (k - 1)" and "unat (k - 1) = unat k - 1"
      by (simp_all add: u16_sub_ok unat_u16_sub)
    then show ?thesis
      using False PointToPoint k by (auto simp: exec_outgoing_def peerset_index_def)
  qed
qed

lemma exec_incoming_panics:
  assumes "exec_sized st" and "unat (im_peer_index msg) < length (session_peers (ex_parties st))"
  shows "(\<exists>p eff. exec_incoming checks free agent_open st msg = (Inl p, eff)) \<longleftrightarrow>
    (im_is_broadcast msg \<and> free = 0) \<or> \<not> agent_open"
proof -
  have "u16_add checks (im_peer_index msg) 1 = Inr (im_peer_index msg + 1)"
    using assms(2) exec_sizedD(1) [OF assms(1)] by (intro u16_add_ok) simp
  moreover have "u16_add checks (ex_i st) 1 = Inr (ex_i st + 1)"
    using exec_sizedD(3) [OF assms(1)] by (intro u16_add_ok) simp
  ultimately show ?thesis by (auto simp: exec_incoming_def Let_def)
qed

text \<open>A cache request panics when the file cannot be decoded, or not be encoded or its directory not be made.\<close>

definition cache_panics ::
  "'pid pid_ops \<Rightarrow> ('pid, 'done) exec_state \<Rightarrow> 'pid peerset_msg \<Rightarrow> file_system \<Rightarrow> bool" where
  "cache_panics P st m fs =
     (let c = ex_cacher st; f = room_file c (ex_room_id st) in
      case m of
        ReadFromCache tx \<Rightarrow>
          (case fs_files fs f of
             None \<Rightarrow> False
           | Some buf \<Rightarrow> (case peerset_from_bytes P buf (pc_local_peer_id c) of Inl _ \<Rightarrow> True | Inr _ \<Rightarrow> False))
      | WriteToCache ps tx \<Rightarrow>
          \<not> fs_can_mkdir fs (butlast f) \<or> (case peerset_to_bytes P ps of Inl _ \<Rightarrow> True | Inr _ \<Rightarrow> False))"

lemma serve_cache_panics: "(\<exists>p. serve_cache P st m fs = Inl p) \<longleftrightarrow> cache_panics P st m fs"
  by (cases m) (auto simp: cache_panics_def persistent_read_def persistent_write_def panics_def and_then_def
      Let_def split: option.splits sum.splits fault.splits if_splits)

text \<open>
  A poll panics exactly in these cases: the request to the cache does; the agent addresses a party
  that does not exist; the echo gadget's channel is full for one of the broadcasts that are sent or
  received in this poll; or the agent's channel is full or closed when a message arrives.
\<close>

definition poll_panics ::
  "'pid pid_ops \<Rightarrow> 'pid exec_input \<Rightarrow> ('pid, 'done) exec_state \<Rightarrow> file_system \<Rightarrow> bool" where
  "poll_panics P inp st fs \<longleftrightarrow>
     (case xi_cache inp of None \<Rightarrow> False | Some m \<Rightarrow> cache_panics P st m fs) \<or>
     (case xi_outgoing inp of
        None \<Rightarrow> False
      | Some m \<Rightarrow> (case po_to m of
            PointToPoint k \<Rightarrow> k = 0 \<or> length (session_peers (ex_parties st)) < unat k
          | RouteBroadcast \<Rightarrow> False)) \<or>
     xi_echo_free inp <
       (case xi_outgoing inp of None \<Rightarrow> 0 | Some m \<Rightarrow> if po_to m = RouteBroadcast then 1 else 0) +
       (case xi_incoming inp of None \<Rightarrow> 0 | Some msg \<Rightarrow> if im_is_broadcast msg then 1 else 0) \<or>
     (xi_incoming inp \<noteq> None \<and> \<not> xi_agent_open inp)"

text \<open>The index of an incoming message is one of a party, as the receiver proxy stamps it.\<close>

definition stamped :: "('pid, 'done) exec_state \<Rightarrow> 'pid exec_input \<Rightarrow> bool" where
  "stamped st inp \<longleftrightarrow>
     (case xi_incoming inp of
        None \<Rightarrow> True
      | Some msg \<Rightarrow> unat (im_peer_index msg) < length (session_peers (ex_parties st)))"

theorem execution_poll_panics_iff:
  assumes "exec_sized st" and "stamped st inp"
  shows "(\<exists>p rest. exec_poll P checks inp \<lparr>pe_state = Some st\<rparr> fs = (Panicked p, rest)) \<longleftrightarrow> poll_panics P inp st fs"
proof -
  let ?q = "xi_chan inp" and ?free = "xi_echo_free inp"
  let ?out = "case xi_outgoing inp of None \<Rightarrow> Inr (?free, [])
    | Some m \<Rightarrow> exec_outgoing checks ?q ?free st m"
  let ?cost = "case xi_outgoing inp of None \<Rightarrow> 0 | Some m \<Rightarrow> if po_to m = RouteBroadcast then 1 else (0 :: nat)"
  let ?address = "case xi_outgoing inp of None \<Rightarrow> False
    | Some m \<Rightarrow> (case po_to m of
          PointToPoint k \<Rightarrow> k = 0 \<or> length (session_peers (ex_parties st)) < unat k
        | RouteBroadcast \<Rightarrow> False)"
  have poll: "(\<exists>p rest. exec_poll P checks inp \<lparr>pe_state = Some st\<rparr> fs = (Panicked p, rest)) \<longleftrightarrow>
      (case xi_cache inp of None \<Rightarrow> False | Some m \<Rightarrow> \<exists>p. serve_cache P st m fs = Inl p) \<or>
      (case ?out of
         Inl p \<Rightarrow> True
       | Inr (free, eff2) \<Rightarrow>
           (case xi_incoming inp of None \<Rightarrow> False
            | Some msg \<Rightarrow> \<exists>p eff. exec_incoming checks free (xi_agent_open inp) st msg = (Inl p, eff)))"
    by (auto simp: exec_poll_def exec_agent_def split: option.splits sum.splits prod.splits)
  have fails: "(\<exists>p. ?out = Inl p) \<longleftrightarrow> ?address \<or> ?free < ?cost"
    using exec_outgoing_panics [OF assms(1), of checks ?q ?free]
    by (auto split: option.splits message_routing.splits)
  have free: "free = ?free - ?cost" if "?out = Inr (free, eff)" for free eff
    using that by (auto simp: exec_outgoing_def and_then_eq_Inr
        split: option.splits message_routing.splits if_splits)
  have incoming: "(\<exists>p eff. exec_incoming checks free (xi_agent_open inp) st msg = (Inl p, eff)) \<longleftrightarrow>
      (im_is_broadcast msg \<and> free = 0) \<or> \<not> xi_agent_open inp" if "xi_incoming inp = Some msg" for msg free
    using assms(2) that by (intro exec_incoming_panics [OF assms(1)]) (simp add: stamped_def)
  show ?thesis
  proof (cases ?out)
    case (Inl p)
    with fails have "?address \<or> ?free < ?cost" by blast
    with poll Inl show ?thesis unfolding poll_panics_def by (auto simp: serve_cache_panics)
  next
    case (Inr r)
    then obtain eff2 where r: "?out = Inr (?free - ?cost, eff2)" using free by (cases r) auto
    with fails have "\<not> ?address" "?cost \<le> ?free" by auto
    with poll r incoming show ?thesis
      unfolding poll_panics_def by (cases "xi_incoming inp") (auto simp: serve_cache_panics split: option.splits)
  qed
qed

theorem execution_poll_panics_iff_witness:
  "\<exists>p rest. exec_poll sample_pid True
     \<lparr>xi_cache = None, xi_outgoing = Some \<lparr>po_body = [7], po_to = PointToPoint 3, po_sent = None\<rparr>,
      xi_incoming = None, xi_agent = None, xi_echo_free = 3, xi_agent_open = True, xi_chan = 8\<rparr>
     \<lparr>pe_state = Some (sample_exec 4)\<rparr>
     \<lparr>fs_files = Map.empty, fs_can_mkdir = (\<lambda>_. True), fs_can_write = (\<lambda>_. True)\<rparr> =
     (Panicked p, rest)"
  using execution_poll_panics_iff [OF exec_wf_sized [OF sample_exec_wf [of 4]], of
      "\<lparr>xi_cache = None, xi_outgoing = Some \<lparr>po_body = [7], po_to = PointToPoint 3, po_sent = None\<rparr>,
      xi_incoming = None, xi_agent = None, xi_echo_free = 3, xi_agent_open = True, xi_chan = 8\<rparr>"
      sample_pid True
      "\<lparr>fs_files = Map.empty, fs_can_mkdir = (\<lambda>_. True), fs_can_write = (\<lambda>_. True)\<rparr>"]
  by (simp add: sample_exec_def poll_panics_def stamped_def)

end
