(* ===== verification/Oneshot.thy ===== *)
theory Oneshot
  imports Coordination
begin

text \<open>
  The oneshot channels over which a room's phase 1 receives a local request
  (\<open>futures::channel::oneshot\<close>, not part of the repository). The state of all channels is the type
  variable \<open>'o\<close>, the operations are the argument \<open>OS\<close>; \<open>oneshot_ok OS view\<close> states what their
  documentation says, in terms of what is known of a channel: whether its sender is there, has sent
  or is gone, and whether its receiver is there. \<open>list_oneshot\<close> is an implementation.
\<close>

datatype 'm tx_state = TxOpen | TxSent 'm | TxGone

type_synonym ('o, 'm) oneshot_view = "'o \<Rightarrow> chan \<Rightarrow> ('m tx_state \<times> bool) option"

record ('o, 'm) oneshot_ops =
  os_channel :: "'o \<Rightarrow> chan \<times> 'o"
  os_send :: "chan \<Rightarrow> 'm \<Rightarrow> 'o \<Rightarrow> 'o"
  os_drop_tx :: "chan \<Rightarrow> 'o \<Rightarrow> 'o"
  os_drop_rx :: "chan \<Rightarrow> 'o \<Rightarrow> 'm option \<times> 'o"
  os_is_canceled :: "chan \<Rightarrow> 'o \<Rightarrow> bool"
  os_try_recv :: "chan \<Rightarrow> 'o \<Rightarrow> (canceled + 'm option) \<times> 'o"

fun tx_msg :: "'m tx_state \<Rightarrow> 'm option" where
  "tx_msg (TxSent m) = Some m"
| "tx_msg TxOpen = None"
| "tx_msg TxGone = None"

fun tx_taken :: "'m tx_state \<Rightarrow> 'm tx_state" where
  "tx_taken TxOpen = TxOpen"
| "tx_taken (TxSent m) = TxGone"
| "tx_taken TxGone = TxGone"

fun tx_answer :: "'m tx_state \<Rightarrow> canceled + 'm option" where
  "tx_answer TxOpen = Inr None"
| "tx_answer (TxSent m) = Inr (Some m)"
| "tx_answer TxGone = Inl Canceled"

definition oneshot_ok :: "('o, 'm) oneshot_ops \<Rightarrow> ('o, 'm) oneshot_view \<Rightarrow> bool" where
  "oneshot_ok OS view \<longleftrightarrow>
     (\<forall>s. view s (fst (os_channel OS s)) = None \<and>
        view (snd (os_channel OS s)) = (view s)(fst (os_channel OS s) \<mapsto> (TxOpen, True))) \<and>
     (\<forall>s h m alive. view s h = Some (TxOpen, alive) \<longrightarrow>
        view (os_send OS h m s) = (view s)(h \<mapsto> (if alive then TxSent m else TxGone, alive))) \<and>
     (\<forall>s h alive. view s h = Some (TxOpen, alive) \<longrightarrow>
        view (os_drop_tx OS h s) = (view s)(h \<mapsto> (TxGone, alive))) \<and>
     (\<forall>s h tx. view s h = Some (tx, True) \<longrightarrow>
        fst (os_drop_rx OS h s) = tx_msg tx \<and>
        view (snd (os_drop_rx OS h s)) = (view s)(h \<mapsto> (tx_taken tx, False))) \<and>
     (\<forall>s h tx alive. view s h = Some (tx, alive) \<longrightarrow> os_is_canceled OS h s = (\<not> alive)) \<and>
     (\<forall>s h tx. view s h = Some (tx, True) \<longrightarrow>
        fst (os_try_recv OS h s) = tx_answer tx \<and>
        view (snd (os_try_recv OS h s)) = (view s)(h \<mapsto> (tx_taken tx, True)))"

lemma oneshot_okD:
  assumes "oneshot_ok OS view"
  shows "view s (fst (os_channel OS s)) = None"
    and "view (snd (os_channel OS s)) = (view s)(fst (os_channel OS s) \<mapsto> (TxOpen, True))"
    and "view s h = Some (TxOpen, alive) \<Longrightarrow>
        view (os_send OS h m s) = (view s)(h \<mapsto> (if alive then TxSent m else TxGone, alive))"
    and "view s h = Some (TxOpen, alive) \<Longrightarrow>
        view (os_drop_tx OS h s) = (view s)(h \<mapsto> (TxGone, alive))"
    and "view s h = Some (tx, True) \<Longrightarrow> fst (os_drop_rx OS h s) = tx_msg tx"
    and "view s h = Some (tx, True) \<Longrightarrow>
        view (snd (os_drop_rx OS h s)) = (view s)(h \<mapsto> (tx_taken tx, False))"
    and "view s h = Some (tx, alive) \<Longrightarrow> os_is_canceled OS h s = (\<not> alive)"
    and "view s h = Some (tx, True) \<Longrightarrow> fst (os_try_recv OS h s) = tx_answer tx"
    and "view s h = Some (tx, True) \<Longrightarrow>
        view (snd (os_try_recv OS h s)) = (view s)(h \<mapsto> (tx_taken tx, True))"
  using assms unfolding oneshot_ok_def by blast+

section \<open>An implementation\<close>

text \<open>A channel is a position in a list.\<close>

type_synonym 'm oneshot_list = "('m tx_state \<times> bool) list"

definition list_view :: "'m oneshot_list \<Rightarrow> chan \<Rightarrow> ('m tx_state \<times> bool) option" where
  "list_view s h = (if h < length s then Some (s ! h) else None)"

definition list_oneshot :: "('m oneshot_list, 'm) oneshot_ops" where
  "list_oneshot =
     \<lparr>os_channel = (\<lambda>s. (length s, s @ [(TxOpen, True)])),
      os_send = (\<lambda>h m s. s[h := (if snd (s ! h) then TxSent m else TxGone, snd (s ! h))]),
      os_drop_tx = (\<lambda>h s. s[h := (TxGone, snd (s ! h))]),
      os_drop_rx = (\<lambda>h s. (tx_msg (fst (s ! h)), s[h := (tx_taken (fst (s ! h)), False)])),
      os_is_canceled = (\<lambda>h s. \<not> snd (s ! h)),
      os_try_recv = (\<lambda>h s. (tx_answer (fst (s ! h)), s[h := (tx_taken (fst (s ! h)), True)]))\<rparr>"

lemma list_view_update: "h < length s \<Longrightarrow> list_view (s[h := x]) = (list_view s)(h \<mapsto> x)"
  by (auto simp: list_view_def nth_list_update)

lemma list_view_snoc: "list_view (s @ [x]) = (list_view s)(length s \<mapsto> x)"
  by (auto simp: list_view_def nth_append)

lemma list_oneshot_ok: "oneshot_ok list_oneshot list_view"
proof -
  have "list_view s (length s) = None" for s :: "'a oneshot_list" by (simp add: list_view_def)
  moreover have "h < length s \<and> s ! h = x" if "list_view s h = Some x" for s :: "'a oneshot_list" and h x
    using that by (simp add: list_view_def split: if_splits)
  ultimately show ?thesis
    by (auto simp: oneshot_ok_def list_oneshot_def list_view_snoc list_view_update
        dest!: spec)
qed

end
