(* ===== verification/Runtime.thy ===== *)
theory Runtime
  imports Oneshot Execution
begin

text \<open>
  The daemon that drives all rooms (\<open>node/runtime/src/runtime.rs\<close>). Its \<open>run\<close> loop selects over
  local requests, the phase-1 futures of the rooms, the running computations and the receiver
  proxies; while it answers a proposal or negotiates one it awaits that future alone. A step of the
  model is one poll of one of these, with what the channels and timers yield as its event.

  The hash map of the senders of local requests, the collections of futures and the point where the
  loop waits are the state; the oneshot channels are the state of \<open>Oneshot\<close>. Values that are dropped
  matter here: dropping a sender cancels its receiver, so every place where the code overwrites,
  consumes or forgets one is written out.
\<close>

section \<open>State\<close>

text \<open>
  A running computation is known to the loop by the receiver that its execution owns: the proxy's
  channel is closed when it ends.
\<close>

record ('pid, 'done) running =
  ru_rx :: chan
  ru_echo :: "('pid, string) wrapped"
  ru_exec :: "('pid, 'done) protocol_execution"

datatype ('pid, 'agent, 'done) awaiting =
    Selecting
  | AwaitPhase2 'agent "'pid phase2_chan"
  | AwaitNegotiation room_id u16 "('pid, 'agent, 'done) negotiation_chan"

record ('pid, 'agent, 'done, 'o) runtime =
  rt_network_service :: "'pid network_service"
  rt_cacher :: "'pid persistent_cacher"
  rt_rooms_rpc :: "room_id \<Rightarrow> chan option"
  rt_rooms_coordination :: "'pid phase1_channel list"
  rt_network_proxies :: "'pid receiver_proxy list"
  rt_protocol_executions :: "('pid, 'done) running list"
  rt_awaiting :: "('pid, 'agent, 'done) awaiting"
  rt_oneshots :: 'o

text \<open>
  What a step does besides changing the state: answers to proposals, the errors sent to a requester,
  a requester's sender dropped without an answer, messages for the network worker and messages of
  a proxy to its execution.
\<close>

datatype ('pid, 'done) rt_effect =
    RtRespond chan outgoing_response
  | RtDone 'done "string + bytes"
  | RtDropped 'done
  | RtNet "'pid network_message"
  | RtForward chan "'pid incoming_message"

text \<open>What does not change: the parameters of the model, gathered.\<close>

record ('pid, 'agent, 'done, 'o) runtime_env =
  env_pid :: "'pid pid_ops"
  env_varint :: varint_ops
  env_agent :: "'agent agent_ops"
  env_oneshot :: "('o, ('agent, 'done) local_rpc_msg) oneshot_ops"
  env_factory :: "u64 \<Rightarrow> 'agent option"
  env_checks :: bool

section \<open>Room senders\<close>

text \<open>\<open>HashMap::insert\<close> drops the sender it replaces.\<close>

definition rpc_insert ::
  "('pid, 'agent, 'done, 'o) runtime_env \<Rightarrow> room_id \<Rightarrow> chan \<Rightarrow>
   ('pid, 'agent, 'done, 'o) runtime \<Rightarrow> ('pid, 'agent, 'done, 'o) runtime" where
  "rpc_insert E room tx s =
     s\<lparr>rt_oneshots := (case rt_rooms_rpc s room of
          None \<Rightarrow> rt_oneshots s
        | Some old \<Rightarrow> os_drop_tx (env_oneshot E) old (rt_oneshots s)),
       rt_rooms_rpc := (rt_rooms_rpc s)(room \<mapsto> tx)\<rparr>"

text \<open>
  \<open>entry(room_id).and_modify(|e| *e = tx)\<close>: with no entry nothing is stored, and the closure is
  dropped together with \<open>tx\<close>.
\<close>

definition rpc_and_modify ::
  "('pid, 'agent, 'done, 'o) runtime_env \<Rightarrow> room_id \<Rightarrow> chan \<Rightarrow>
   ('pid, 'agent, 'done, 'o) runtime \<Rightarrow> ('pid, 'agent, 'done, 'o) runtime" where
  "rpc_and_modify E room tx s =
     (case rt_rooms_rpc s room of
        None \<Rightarrow> s\<lparr>rt_oneshots := os_drop_tx (env_oneshot E) tx (rt_oneshots s)\<rparr>
      | Some old \<Rightarrow> s\<lparr>rt_oneshots := os_drop_tx (env_oneshot E) old (rt_oneshots s),
          rt_rooms_rpc := (rt_rooms_rpc s)(room \<mapsto> tx)\<rparr>)"

definition push_phase1 ::
  "'pid phase1_channel \<Rightarrow> ('pid, 'agent, 'done, 'o) runtime \<Rightarrow> ('pid, 'agent, 'done, 'o) runtime" where
  "push_phase1 ch s = s\<lparr>rt_rooms_coordination := rt_rooms_coordination s @ [ch]\<rparr>"

section \<open>Start of the loop\<close>

text \<open>Lines 101 to 106.\<close>

fun runtime_init ::
  "('pid, 'agent, 'done, 'o) runtime_env \<Rightarrow> (room_id \<times> chan) list \<Rightarrow>
   ('pid, 'agent, 'done, 'o) runtime \<Rightarrow> ('pid, 'agent, 'done, 'o) runtime" where
  "runtime_init E [] s = s"
| "runtime_init E ((room_id, rx) # rooms) s =
     (case os_channel (env_oneshot E) (rt_oneshots s) of
        (h, os) \<Rightarrow>
          (case phase1_new h room_id rx (rt_network_service s) of
             (ch, tx) \<Rightarrow>
               runtime_init E rooms
                 (rpc_insert E room_id tx (push_phase1 ch (s\<lparr>rt_oneshots := os\<rparr>)))))"

definition runtime_new ::
  "'pid network_service \<Rightarrow> 'pid persistent_cacher \<Rightarrow> 'o \<Rightarrow> ('pid, 'agent, 'done, 'o) runtime" where
  "runtime_new service cacher os =
     \<lparr>rt_network_service = service, rt_cacher = cacher, rt_rooms_rpc = Map.empty,
      rt_rooms_coordination = [], rt_network_proxies = [], rt_protocol_executions = [],
      rt_awaiting = Selecting, rt_oneshots = os\<rparr>"

section \<open>A local request\<close>

text \<open>Lines 117 to 148.\<close>

definition on_computation_request ::
  "('pid, 'agent, 'done, 'o) runtime_env \<Rightarrow> room_id \<Rightarrow> u16 \<Rightarrow> u64 \<Rightarrow> bytes \<Rightarrow> 'done \<Rightarrow>
   ('pid, 'agent, 'done, 'o) runtime \<Rightarrow>
   ('pid, 'agent, 'done, 'o) runtime \<times> ('pid, 'done) rt_effect list" where
  "on_computation_request E room n proto args on_done s =
     (case rt_rooms_rpc s room of
        Some on_rpc \<Rightarrow>
          (case env_factory E proto of
             None \<Rightarrow> (s, [RtDone on_done (Inl ''unknown protocol'')])
           | Some agent \<Rightarrow>
               let s = s\<lparr>rt_rooms_rpc := (rt_rooms_rpc s)(room := None)\<rparr> in
               if os_is_canceled (env_oneshot E) on_rpc (rt_oneshots s)
               then (s\<lparr>rt_oneshots := os_drop_tx (env_oneshot E) on_rpc (rt_oneshots s)\<rparr>,
                     [RtDone on_done (Inl ''protocol is busy'')])
               else (s\<lparr>rt_oneshots := os_send (env_oneshot E) on_rpc
                        \<lparr>rpc_n = n, rpc_args = args, rpc_agent = agent, rpc_on_done = on_done\<rparr>
                        (rt_oneshots s)\<rparr>, []))
      | None \<Rightarrow> (s, [RtDone on_done (Inl ''protocol is busy'')]))"

section \<open>Phase 1\<close>

definition remove_nth :: "nat \<Rightarrow> 'a list \<Rightarrow> 'a list" where
  "remove_nth k xs = take k xs @ drop (Suc k) xs"

text \<open>
  Lines 149 to 173 and 203 to 208: the \<open>k\<close>-th phase-1 future is polled. One that is ready is dropped
  with its receiver for a local request, and with a request that lies in it unread.
\<close>

definition on_phase1_msg ::
  "('pid, 'agent, 'done, 'o) runtime_env \<Rightarrow> ('pid, 'agent, 'done) phase1_msg \<Rightarrow>
   ('pid, 'agent, 'done, 'o) runtime \<Rightarrow>
   panic + ('pid, 'agent, 'done, 'o) runtime \<times> ('pid, 'done) rt_effect list" where
  "on_phase1_msg E m s =
     (case m of
        FromRemote peer_id session protocol payload response_tx channel \<Rightarrow>
          (case env_factory E protocol of
             None \<Rightarrow>
               (case os_channel (env_oneshot E) (rt_oneshots s) of
                  (h, os) \<Rightarrow>
                    and_then (phase2_abort h channel) (\<lambda>(room, ch, tx).
                      Inr (rpc_insert E room tx (push_phase1 ch (s\<lparr>rt_oneshots := os\<rparr>)), [])))
           | Some agent \<Rightarrow>
               Inr (s\<lparr>rt_awaiting := AwaitPhase2 agent channel\<rparr>,
                 [RtRespond response_tx \<lparr>or_result = Inr [], or_sent_feedback = None\<rparr>]))
      | FromLocal room n negotiation \<Rightarrow>
          Inr (s\<lparr>rt_awaiting := AwaitNegotiation room n negotiation\<rparr>, []))"

definition on_phase1 ::
  "('pid, 'agent, 'done, 'o) runtime_env \<Rightarrow> nat \<Rightarrow> 'pid incoming_message option \<Rightarrow>
   ('pid, 'agent, 'done, 'o) runtime \<Rightarrow>
   panic + ('pid, 'agent, 'done, 'o) runtime \<times> ('pid, 'done) rt_effect list" where
  "on_phase1 E k incoming s =
     (let ch = rt_rooms_coordination s ! k;
          h = p1_on_local_rpc ch;
          (rpc, os) = (if incoming = None then os_try_recv (env_oneshot E) h (rt_oneshots s)
                       else (Inr None, rt_oneshots s))
      in case phase1_poll incoming rpc ch of
           Panicked p \<Rightarrow> Inl p
         | Pending ch' \<Rightarrow>
             Inr (s\<lparr>rt_rooms_coordination := (rt_rooms_coordination s)[k := ch'],
                   rt_oneshots := os\<rparr>, [])
         | Ready m \<Rightarrow>
             (case os_drop_rx (env_oneshot E) h os of
                (unread, os) \<Rightarrow>
                  and_then (on_phase1_msg E m
                      (s\<lparr>rt_rooms_coordination := remove_nth k (rt_rooms_coordination s),
                         rt_oneshots := os\<rparr>))
                    (\<lambda>(s', eff). Inr (s',
                       (case unread of None \<Rightarrow> [] | Some r \<Rightarrow> [RtDropped (rpc_on_done r)]) @ eff))))"

section \<open>Starting a computation\<close>

text \<open>Lines 182 to 195 and 218 to 231; \<open>n\<close> is what the echo gadget is created with.\<close>

definition start_execution ::
  "('pid, 'agent, 'done, 'o) runtime_env \<Rightarrow> nat \<Rightarrow> room_id \<Rightarrow> 'agent \<Rightarrow> 'pid peerset \<Rightarrow> chan \<Rightarrow>
   'pid receiver_proxy \<Rightarrow> 'done option \<Rightarrow> ('pid, 'agent, 'done, 'o) runtime \<Rightarrow>
   panic + ('pid, 'agent, 'done, 'o) runtime" where
  "start_execution E n room agent parties room_receiver proxy on_done s =
     and_then (execution_new (env_checks E) room (env_agent E) agent (rt_network_service s) parties
         (rt_cacher s) on_done) (\<lambda>ex.
       Inr (s\<lparr>rt_network_proxies := rt_network_proxies s @ [proxy],
          rt_protocol_executions := rt_protocol_executions s @
            [\<lparr>ru_rx = room_receiver, ru_echo = wrap_start n, ru_exec = ex\<rparr>],
          rt_awaiting := Selecting\<rparr>))"

section \<open>Phase 2\<close>

text \<open>Lines 173 to 201: one poll of the awaited future; \<open>c\<close> names the proxy's channel.\<close>

definition on_phase2 ::
  "('pid, 'agent, 'done, 'o) runtime_env \<Rightarrow> chan \<Rightarrow> 'pid incoming_message option \<Rightarrow> bool \<Rightarrow>
   'agent \<Rightarrow> 'pid phase2_chan \<Rightarrow> ('pid, 'agent, 'done, 'o) runtime \<Rightarrow>
   panic + ('pid, 'agent, 'done, 'o) runtime \<times> ('pid, 'done) rt_effect list" where
  "on_phase2 E c incoming timer agent channel s =
     (case os_channel (env_oneshot E) (rt_oneshots s) of
        (h, os) \<Rightarrow>
          (case phase2_poll (env_pid E) (env_varint E) h c incoming timer channel of
             Panicked p \<Rightarrow> Inl p
           | Pending channel' \<Rightarrow> Inr (s\<lparr>rt_awaiting := AwaitPhase2 agent channel'\<rparr>, [])
           | Ready (P2Start room_id room_receiver proxy parties init_body) \<Rightarrow>
               and_then (start_execution E (peerset_size parties) room_id agent parties room_receiver
                   proxy None s) (\<lambda>s'. Inr (s', []))
           | Ready (P2Abort room_id ch tx) \<Rightarrow>
               Inr (push_phase1 ch (rpc_and_modify E room_id tx
                 (s\<lparr>rt_oneshots := os, rt_awaiting := Selecting\<rparr>)), [])))"

section \<open>Negotiation\<close>

text \<open>
  Lines 208 to 238. A negotiation that gives up is dropped with the requester's sender.
\<close>

definition on_negotiation ::
  "('pid, 'agent, 'done, 'o) runtime_env \<Rightarrow> chan \<Rightarrow> chan \<Rightarrow> 'pid reply option \<Rightarrow> bool \<Rightarrow>
   room_id \<Rightarrow> u16 \<Rightarrow> ('pid, 'agent, 'done) negotiation_chan \<Rightarrow>
   ('pid, 'agent, 'done, 'o) runtime \<Rightarrow>
   panic + ('pid, 'agent, 'done, 'o) runtime \<times> ('pid, 'done) rt_effect list" where
  "on_negotiation E c q reply timer room n negotiation s =
     (case os_channel (env_oneshot E) (rt_oneshots s) of
        (h, os) \<Rightarrow>
          (case negotiation_poll (env_pid E) (env_varint E) (env_agent E) (env_checks E) h c q
              reply timer negotiation of
             (Panicked p, sent) \<Rightarrow> Inl p
           | (Pending negotiation', sent) \<Rightarrow>
               Inr (s\<lparr>rt_awaiting := AwaitNegotiation room n negotiation'\<rparr>, map RtNet sent)
           | (Ready (NStart agent on_done room_receiver proxy parties args), sent) \<Rightarrow>
               and_then (start_execution E (unat n) room agent parties room_receiver proxy
                   (Some on_done) s) (\<lambda>s'. Inr (s', map RtNet sent))
           | (Ready (NAbort room_id phase1 rpc_tx), sent) \<Rightarrow>
               Inr (rpc_insert E room_id rpc_tx (push_phase1 phase1
                   (s\<lparr>rt_oneshots := os, rt_awaiting := Selecting\<rparr>)),
                 map RtNet sent @
                 (case ng_state negotiation of None \<Rightarrow> [] | Some st \<Rightarrow> [RtDropped (ns_on_done st)]))))"

section \<open>Proxies\<close>

text \<open>Lines 245 to 248: the \<open>k\<close>-th proxy is polled.\<close>

definition proxy_closed :: "('pid, 'agent, 'done, 'o) runtime \<Rightarrow> 'pid receiver_proxy \<Rightarrow> bool" where
  "proxy_closed s p \<longleftrightarrow> (\<forall>r \<in> set (rt_protocol_executions s). ru_rx r \<noteq> rp_tx p)"

definition on_proxy ::
  "('pid, 'agent, 'done, 'o) runtime_env \<Rightarrow> nat \<Rightarrow> 'pid incoming_message option \<Rightarrow>
   ('pid, 'agent, 'done, 'o) runtime \<Rightarrow>
   panic + ('pid, 'agent, 'done, 'o) runtime \<times> ('pid, 'done) rt_effect list" where
  "on_proxy E k incoming s =
     (let proxy = rt_network_proxies s ! k in
      case os_channel (env_oneshot E) (rt_oneshots s) of
        (h, os) \<Rightarrow>
          (case receiver_proxy_poll h (proxy_closed s proxy) incoming proxy of
             (Panicked p, sent) \<Rightarrow> Inl p
           | (Pending proxy', sent) \<Rightarrow>
               Inr (s\<lparr>rt_network_proxies := (rt_network_proxies s)[k := proxy']\<rparr>,
                 map (\<lambda>(c, m). RtForward c m) sent)
           | (Ready (room_id, phase1, rpc_tx), sent) \<Rightarrow>
               Inr (rpc_insert E room_id rpc_tx (push_phase1 phase1
                 (s\<lparr>rt_network_proxies := remove_nth k (rt_network_proxies s),
                    rt_oneshots := os\<rparr>)), [])))"

section \<open>The loop\<close>

text \<open>
  The events of the loop. A computation's end (line 241) carries its result, which is only logged;
  its execution, with the receiver it owns, is dropped. \<open>None\<close> says that the event cannot happen:
  nothing else is polled while a future is awaited, and there is no such future.
\<close>

datatype ('pid, 'agent, 'done) rt_event =
    EvRequest room_id u16 u64 bytes 'done
  | EvPhase1 nat "'pid incoming_message option"
  | EvPhase2 chan "'pid incoming_message option" bool
  | EvNegotiation chan chan "'pid reply option" bool
  | EvExecuted nat "string rt_error + unit"
  | EvProxy nat "'pid incoming_message option"

definition runtime_step ::
  "('pid, 'agent, 'done, 'o) runtime_env \<Rightarrow> ('pid, 'agent, 'done) rt_event \<Rightarrow>
   ('pid, 'agent, 'done, 'o) runtime \<Rightarrow>
   (panic + ('pid, 'agent, 'done, 'o) runtime \<times> ('pid, 'done) rt_effect list) option" where
  "runtime_step E ev s =
     (case rt_awaiting s of
        Selecting \<Rightarrow>
          (case ev of
             EvRequest room n proto args on_done \<Rightarrow>
               Some (Inr (on_computation_request E room n proto args on_done s))
           | EvPhase1 k incoming \<Rightarrow>
               if k < length (rt_rooms_coordination s) then Some (on_phase1 E k incoming s) else None
           | EvExecuted k res \<Rightarrow>
               if k < length (rt_protocol_executions s) then
                 Some (Inr (s\<lparr>rt_protocol_executions :=
                   remove_nth k (rt_protocol_executions s)\<rparr>, []))
               else None
           | EvProxy k incoming \<Rightarrow>
               if k < length (rt_network_proxies s) then Some (on_proxy E k incoming s) else None
           | _ \<Rightarrow> None)
      | AwaitPhase2 agent channel \<Rightarrow>
          (case ev of
             EvPhase2 c incoming timer \<Rightarrow> Some (on_phase2 E c incoming timer agent channel s)
           | _ \<Rightarrow> None)
      | AwaitNegotiation room n negotiation \<Rightarrow>
          (case ev of
             EvNegotiation c q reply timer \<Rightarrow>
               Some (on_negotiation E c q reply timer room n negotiation s)
           | _ \<Rightarrow> None))"


text \<open>The states that the loop can reach for a list of rooms with their receivers.\<close>

inductive rt_reach ::
  "('pid, 'agent, 'done, 'o) runtime_env \<Rightarrow> ('pid, 'agent, 'done, 'o) runtime \<Rightarrow>
   (room_id \<times> chan) list \<Rightarrow> ('pid, 'agent, 'done, 'o) runtime \<Rightarrow> bool"
  for E s0 rooms where
  rt_init: "rt_reach E s0 rooms (runtime_init E rooms s0)"
| rt_step: "rt_reach E s0 rooms s \<Longrightarrow> runtime_step E ev s = Some (Inr (s', eff)) \<Longrightarrow>
     rt_reach E s0 rooms s'"

section \<open>Who holds a room's receiver\<close>

fun awaiting_owner :: "('pid, 'agent, 'done) awaiting \<Rightarrow> (room_id \<times> chan option) list" where
  "awaiting_owner Selecting = []"
| "awaiting_owner (AwaitPhase2 agent ch) = [(p2_id ch, p2_rx ch)]"
| "awaiting_owner (AwaitNegotiation room n ng) = [(room, ng_rx ng)]"

definition owners :: "('pid, 'agent, 'done, 'o) runtime \<Rightarrow> (room_id \<times> chan option) list" where
  "owners s =
     map (\<lambda>ch. (p1_id ch, p1_rx ch)) (rt_rooms_coordination s) @
     map (\<lambda>p. (rp_id p, rp_rx p)) (rt_network_proxies s) @ awaiting_owner (rt_awaiting s)"

text \<open>An awaited negotiation is one of its reachable states, and is about the room it was begun for.\<close>

fun awaiting_ok :: "('pid, 'agent, 'done) awaiting \<Rightarrow> bool" where
  "awaiting_ok (AwaitNegotiation room n ng) \<longleftrightarrow>
     (\<exists>rx args service agent on_done R. neg_inv room rx n args service agent on_done R ng)"
| "awaiting_ok _ \<longleftrightarrow> True"

lemma rpc_insert_frame [frame_simps, simp]:
  "rt_rooms_coordination (rpc_insert E r tx s) = rt_rooms_coordination s"
  "rt_network_proxies (rpc_insert E r tx s) = rt_network_proxies s"
  "rt_awaiting (rpc_insert E r tx s) = rt_awaiting s"
  "rt_protocol_executions (rpc_insert E r tx s) = rt_protocol_executions s"
  "rt_network_service (rpc_insert E r tx s) = rt_network_service s"
  "rt_cacher (rpc_insert E r tx s) = rt_cacher s"
  by (simp_all add: rpc_insert_def)

lemma rpc_and_modify_frame [frame_simps, simp]:
  "rt_rooms_coordination (rpc_and_modify E r tx s) = rt_rooms_coordination s"
  "rt_network_proxies (rpc_and_modify E r tx s) = rt_network_proxies s"
  "rt_awaiting (rpc_and_modify E r tx s) = rt_awaiting s"
  "rt_protocol_executions (rpc_and_modify E r tx s) = rt_protocol_executions s"
  by (simp_all add: rpc_and_modify_def split: option.splits)

lemma push_phase1_frame [frame_simps, simp]:
  "rt_rooms_coordination (push_phase1 ch s) = rt_rooms_coordination s @ [ch]"
  "rt_network_proxies (push_phase1 ch s) = rt_network_proxies s"
  "rt_awaiting (push_phase1 ch s) = rt_awaiting s"
  "rt_rooms_rpc (push_phase1 ch s) = rt_rooms_rpc s"
  "rt_oneshots (push_phase1 ch s) = rt_oneshots s"
  "rt_protocol_executions (push_phase1 ch s) = rt_protocol_executions s"
  "rt_network_service (push_phase1 ch s) = rt_network_service s"
  by (simp_all add: push_phase1_def)

lemma mset_remove_nth: "k < length xs \<Longrightarrow> mset xs = add_mset (xs ! k) (mset (remove_nth k xs))"
  unfolding remove_nth_def
  by (subst id_take_nth_drop [of k xs]) simp_all

lemma mset_map_remove_nth:
  "k < length xs \<Longrightarrow> mset (map f xs) = add_mset (f (xs ! k)) (mset (map f (remove_nth k xs)))"
  using mset_remove_nth [of k xs] by simp

lemma mset_map_update:
  "k < length xs \<Longrightarrow> f y = f (xs ! k) \<Longrightarrow> mset (map f (xs[k := y])) = mset (map f xs)"
  by (metis list_update_id map_update)

lemma owners_init:
  "rt_awaiting s = Selecting \<Longrightarrow>
   mset (owners (runtime_init E rooms s)) =
     mset (owners s) + mset (map (\<lambda>(r, rx). (r, Some rx)) rooms) \<and>
   rt_awaiting (runtime_init E rooms s) = Selecting"
proof (induction rooms arbitrary: s)
  case (Cons room rooms)
  obtain room_id rx where room: "room = (room_id, rx)" by force
  obtain h os where ch: "os_channel (env_oneshot E) (rt_oneshots s) = (h, os)" by force
  let ?p = "\<lparr>p1_id = room_id, p1_rx = Some rx, p1_on_local_rpc = h, p1_service = rt_network_service s\<rparr>"
  let ?s = "rpc_insert E room_id h (push_phase1 ?p (s\<lparr>rt_oneshots := os\<rparr>))"
  have "mset (owners ?s) = mset (owners s) + {#(room_id, Some rx)#}"
    by (simp add: owners_def Cons.prems)
  moreover have "rt_awaiting ?s = Selecting" using Cons.prems by simp
  ultimately show ?case
    using Cons.IH [of ?s] ch by (simp add: phase1_new_def room)
qed simp


lemma phase1_ReadyE:
  assumes "phase1_poll incoming rpc ch = Ready m"
  obtains (remote) rx msg where "p1_rx ch = Some rx" and "incoming = Some msg"
      and "m = FromRemote (im_peer_id msg) (session_id (im_context msg))
        (protocol_id (im_context msg)) (im_payload msg) (im_pending_response msg)
        \<lparr>p2_id = p1_id ch, p2_rx = Some rx, p2_service = p1_service ch\<rparr>"
  | (local) rx r where "p1_rx ch = Some rx" and "incoming = None" and "rpc = Inr (Some r)"
      and "m = FromLocal (p1_id ch) (rpc_n r) (negotiation_new (p1_id ch) rx (rpc_n r) (rpc_args r)
        (p1_service ch) (rpc_agent r) (rpc_on_done r))"
  using assms
  by (auto simp: phase1_poll_def split: option.splits message_type.splits sum.splits canceled.splits)

lemma on_phase1_msg_owners:
  assumes "phase1_poll incoming rpc ch = Ready m" and "on_phase1_msg E m s = Inr (s', eff)"
    and "rt_awaiting s = Selecting"
  shows "mset (owners s') = add_mset (p1_id ch, p1_rx ch) (mset (owners s)) \<and>
    awaiting_ok (rt_awaiting s')"
  using assms(1)
proof (cases rule: phase1_ReadyE)
  case (remote rx msg)
  then show ?thesis
    using assms(2,3)
    by (auto simp: on_phase1_msg_def phase2_abort_def phase1_new_def owners_def
        split: option.splits prod.splits)
next
  case (local rx r)
  have "ng_rx (negotiation_new room rx n args service agent on_done) = Some rx"
    for room rx n args service agent on_done
    by (simp add: negotiation_new_def)
  with local show ?thesis
    using assms(2,3) by (auto simp: on_phase1_msg_def owners_def intro!: exI neg_inv_init)
qed

lemma on_phase1_owners:
  assumes "on_phase1 E k incoming s = Inr (s', eff)" and "k < length (rt_rooms_coordination s)"
    and "rt_awaiting s = Selecting"
  shows "mset (owners s') = mset (owners s) \<and> awaiting_ok (rt_awaiting s')"
proof -
  let ?ch = "rt_rooms_coordination s ! k"
  obtain rpc os where rpc: "(if incoming = None
      then os_try_recv (env_oneshot E) (p1_on_local_rpc ?ch) (rt_oneshots s)
      else (Inr None, rt_oneshots s)) = (rpc, os)" by (metis surj_pair)
  show ?thesis
  proof (cases "phase1_poll incoming rpc ?ch")
    case (Panicked p)
    with assms(1) rpc show ?thesis by (simp add: on_phase1_def Let_def)
  next
    case (Pending ch')
    then have "ch' = ?ch" by (rule phase1_poll_Pending)
    with Pending assms(1) rpc show ?thesis
      by (auto simp: on_phase1_def Let_def owners_def assms(3))
  next
    case (Ready m)
    obtain unread os' where drop: "os_drop_rx (env_oneshot E) (p1_on_local_rpc ?ch) os = (unread, os')"
      by force
    let ?s = "s\<lparr>rt_rooms_coordination := remove_nth k (rt_rooms_coordination s), rt_oneshots := os'\<rparr>"
    from Ready assms(1) rpc drop obtain eff' where "on_phase1_msg E m ?s = Inr (s', eff')"
      by (auto simp: on_phase1_def Let_def and_then_eq_Inr)
    from on_phase1_msg_owners [OF Ready this] assms(3)
    have "mset (owners s') = add_mset (p1_id ?ch, p1_rx ?ch) (mset (owners ?s)) \<and>
        awaiting_ok (rt_awaiting s')" by simp
    moreover have "add_mset (p1_id ?ch, p1_rx ?ch) (mset (owners ?s)) = mset (owners s)"
      using mset_map_remove_nth [OF assms(2), of "\<lambda>ch. (p1_id ch, p1_rx ch)"]
      by (simp add: owners_def)
    ultimately show ?thesis by simp
  qed
qed

lemma start_execution_Inr:
  assumes "start_execution E n room agent parties c proxy on_done s = Inr s'"
  obtains ex where "execution_new (env_checks E) room (env_agent E) agent (rt_network_service s) parties
      (rt_cacher s) on_done = Inr ex"
    and "s' = s\<lparr>rt_network_proxies := rt_network_proxies s @ [proxy],
      rt_protocol_executions := rt_protocol_executions s @
        [\<lparr>ru_rx = c, ru_echo = wrap_start n, ru_exec = ex\<rparr>], rt_awaiting := Selecting\<rparr>"
  using assms by (auto simp: start_execution_def and_then_eq_Inr)

lemma phase2_ReadyE:
  assumes "phase2_poll P V h c incoming timer self = Ready m"
  obtains (start) rx msg start_msg where "p2_rx self = Some rx" and "incoming = Some msg"
      and "start_msg_from_bytes P V (im_payload msg) (ns_local_peer_id (p2_service self)) = Inr start_msg"
      and "m = P2Start (p2_id self) c \<lparr>rp_id = p2_id self, rp_rx = Some rx, rp_tx = c,
        rp_service = p2_service self, rp_parties = sm_parties start_msg\<rparr> (sm_parties start_msg)
        (sm_body start_msg)"
  | (abort) rx where "p2_rx self = Some rx"
      and "m = P2Abort (p2_id self) \<lparr>p1_id = p2_id self, p1_rx = Some rx, p1_on_local_rpc = h,
        p1_service = p2_service self\<rparr> h"
proof (cases "p2_rx self")
  case None
  with assms show thesis by (simp add: phase2_poll_def)
next
  case (Some rx)
  with assms that show thesis
    by (auto simp: phase2_poll_def phase2_return_simps receiver_proxy_new_Inr
        split: option.splits message_type.splits sum.splits fault.splits if_splits)
qed

lemma phase2_Pending: "phase2_poll P V h c incoming timer self = Pending self' \<Longrightarrow> self' = self"
  by (auto simp: phase2_poll_def phase2_return_def phase2_abort_def
      split: option.splits message_type.splits sum.splits fault.splits if_splits prod.splits)

lemma on_phase2_owners:
  assumes "on_phase2 E c incoming timer agent ch s = Inr (s', eff)"
    and "rt_awaiting s = AwaitPhase2 agent ch"
  shows "mset (owners s') = mset (owners s) \<and> awaiting_ok (rt_awaiting s')"
proof -
  obtain h os where os: "os_channel (env_oneshot E) (rt_oneshots s) = (h, os)" by force
  show ?thesis
  proof (cases "phase2_poll (env_pid E) (env_varint E) h c incoming timer ch")
    case (Panicked p)
    with assms(1) os show ?thesis by (simp add: on_phase2_def)
  next
    case (Pending ch')
    with assms os phase2_Pending [OF Pending] show ?thesis by (auto simp: on_phase2_def owners_def)
  next
    case (Ready m)
    then show ?thesis
    proof (cases rule: phase2_ReadyE)
      case (start rx msg sm)
      with assms(1) os Ready show ?thesis
        by (auto simp: on_phase2_def and_then_eq_Inr owners_def assms(2)
            elim!: start_execution_Inr)
    next
      case (abort rx)
      with assms(1) os Ready show ?thesis
        by (auto simp: on_phase2_def owners_def assms(2))
    qed
  qed
qed


lemma awaiting_okI:
  "neg_inv room rx n args service agent on_done R ng \<Longrightarrow> awaiting_ok (AwaitNegotiation room n ng)"
  unfolding awaiting_ok.simps by (intro exI)

lemma runtime_new_simps [simp]:
  "rt_awaiting (runtime_new service cacher os) = Selecting"
  "owners (runtime_new service cacher os) = []"
  "rt_rooms_rpc (runtime_new service cacher os) = Map.empty"
  "rt_rooms_coordination (runtime_new service cacher os) = []"
  "rt_oneshots (runtime_new service cacher os) = os"
  "rt_network_service (runtime_new service cacher os) = service"
  by (simp_all add: runtime_new_def owners_def)

lemma neg_inv_rx: "neg_inv room rx n args service agent on_done R ng \<Longrightarrow> ng_rx ng = Some rx"
  by (simp add: neg_inv_def)

lemma on_negotiation_owners:
  assumes step: "on_negotiation E c q reply timer room n ng s = Inr (s', eff)"
    and aw: "rt_awaiting s = AwaitNegotiation room n ng"
    and inv: "neg_inv room rx n args service agent on_done R ng"
  shows "mset (owners s') = mset (owners s) \<and> awaiting_ok (rt_awaiting s')"
proof -
  obtain h os where os: "os_channel (env_oneshot E) (rt_oneshots s) = (h, os)" by force
  note rx = neg_inv_rx [OF inv]
  from inv show ?thesis
  proof (rule neg_inv_poll [where P = "env_pid E" and V = "env_varint E" and A = "env_agent E"
        and checks = "env_checks E" and h = h and c = c and q = q and reply = reply
        and timer = timer], goal_cases)
    case (1 peers b)
    with step os rx show ?case
      by (auto simp: on_negotiation_def and_then_eq_Inr owners_def aw elim!: start_execution_Inr)
  next
    case (2 msgs)
    with step os rx show ?case by (auto simp: on_negotiation_def owners_def aw)
  next
    case (3 ng' msgs)
    with step os rx neg_inv_rx [OF 3(3)] awaiting_okI [OF 3(3)] show ?case
      by (auto simp: on_negotiation_def owners_def aw simp del: awaiting_ok.simps)
  next
    case 4
    with step os show ?case by (simp add: on_negotiation_def)
  qed
qed

lemma on_proxy_owners:
  assumes "on_proxy E k incoming s = Inr (s', eff)" and "k < length (rt_network_proxies s)"
    and "rt_awaiting s = Selecting"
  shows "mset (owners s') = mset (owners s) \<and> awaiting_ok (rt_awaiting s')"
proof -
  let ?p = "rt_network_proxies s ! k"
  let ?f = "\<lambda>p :: 'a receiver_proxy. (rp_id p, rp_rx p)"
  obtain h os where os: "os_channel (env_oneshot E) (rt_oneshots s) = (h, os)" by force
  obtain rx where rx: "rp_rx ?p = Some rx"
    using assms(1) os by (cases "rp_rx ?p") (auto simp: on_proxy_def receiver_proxy_poll_def Let_def)
  show ?thesis
  proof (cases "proxy_closed s ?p")
    case True
    with assms(1) os rx mset_map_remove_nth [OF assms(2), of ?f] show ?thesis
      by (auto simp: on_proxy_def receiver_proxy_poll_def phase1_new_def Let_def owners_def assms(3))
  next
    case False
    with assms(1) os rx have "rt_network_proxies s' = rt_network_proxies s"
      "rt_rooms_coordination s' = rt_rooms_coordination s" "rt_awaiting s' = rt_awaiting s"
      by (auto simp: on_proxy_def receiver_proxy_poll_def Let_def split: option.splits)
    then show ?thesis by (simp add: owners_def assms(3))
  qed
qed

lemma on_computation_request_frame [frame_simps]:
  assumes "on_computation_request E room n proto args on_done s = (s', eff)"
  shows "rt_rooms_coordination s' = rt_rooms_coordination s"
    and "rt_network_proxies s' = rt_network_proxies s" and "rt_awaiting s' = rt_awaiting s"
    and "rt_protocol_executions s' = rt_protocol_executions s"
  using assms by (auto simp: on_computation_request_def Let_def split: option.splits if_splits)

lemma runtime_step_owners:
  assumes "runtime_step E ev s = Some (Inr (s', eff))" and "awaiting_ok (rt_awaiting s)"
  shows "mset (owners s') = mset (owners s) \<and> awaiting_ok (rt_awaiting s')"
proof (cases "rt_awaiting s")
  case Selecting
  show ?thesis
  proof (cases ev)
    case (EvRequest room n proto args on_done)
    then have "on_computation_request E room n proto args on_done s = (s', eff)"
      using assms(1) Selecting by (simp add: runtime_step_def)
    from on_computation_request_frame [OF this] show ?thesis by (simp add: owners_def Selecting)
  next
    case (EvPhase1 k incoming)
    then show ?thesis
      using assms(1) Selecting on_phase1_owners [of E k incoming s s' eff]
      by (auto simp: runtime_step_def split: if_splits)
  next
    case (EvExecuted k res)
    then show ?thesis
      using assms(1) Selecting by (auto simp: runtime_step_def owners_def split: if_splits)
  next
    case (EvProxy k incoming)
    then show ?thesis
      using assms(1) Selecting on_proxy_owners [of E k incoming s s' eff]
      by (auto simp: runtime_step_def split: if_splits)
  qed (use assms(1) Selecting in \<open>simp_all add: runtime_step_def\<close>)
next
  case (AwaitPhase2 agent ch)
  then show ?thesis
    using assms(1) on_phase2_owners [of E _ _ _ agent ch s s' eff]
    by (auto simp: runtime_step_def split: rt_event.splits)
next
  case (AwaitNegotiation room n ng)
  with assms(2) obtain rx args service agent on_done R
    where inv: "neg_inv room rx n args service agent on_done R ng" by auto
  show ?thesis
    using assms(1) AwaitNegotiation on_negotiation_owners [OF _ AwaitNegotiation inv]
    by (auto simp: runtime_step_def split: rt_event.splits)
qed

lemma rt_reach_owners:
  assumes "rt_reach E (runtime_new service cacher os) rooms s"
  shows "mset (owners s) = mset (map (\<lambda>(r, rx). (r, Some rx)) rooms) \<and> awaiting_ok (rt_awaiting s)"
  using assms
proof (induction rule: rt_reach.induct)
  case rt_init
  show ?case using owners_init [OF runtime_new_simps(1), of E rooms service cacher os] by simp
next
  case (rt_step s ev s' eff)
  then show ?case using runtime_step_owners by metis
qed

section \<open>Properties\<close>

text \<open>
  C1: At every moment each room's receiver is held by exactly one future of the loop, together with
  its room's identifier: its phase 1, the proposal or negotiation that is awaited, or the receiver
  proxy of a running computation. No room is ever lost or served twice, whatever happens on the
  network, with the timers, in the computations and in the order in which the loop polls.
\<close>

theorem room_has_one_owner:
  assumes "rt_reach E (runtime_new service cacher os) rooms s"
  shows "mset (owners s) = mset (map (\<lambda>(r, rx). (r, Some rx)) rooms)"
  using rt_reach_owners [OF assms] by blast

definition sample_env :: "(byte, nat, nat, (nat, nat) local_rpc_msg oneshot_list) runtime_env" where
  "sample_env =
     \<lparr>env_pid = sample_pid, env_varint = leb_ops, env_agent = sample_agent,
      env_oneshot = list_oneshot, env_factory = (\<lambda>p. if p = 1 then Some 0 else None),
      env_checks = True\<rparr>"

abbreviation sample_runtime ::
  "(byte, nat, nat, (nat, nat) local_rpc_msg oneshot_list) runtime" where
  "sample_runtime \<equiv> runtime_new sample_service (persistent_new [''tmp''] 4) []"

abbreviation sample_rooms :: "(room_id \<times> chan) list" where
  "sample_rooms \<equiv> [(RoomId ''ab'', 1), (RoomId ''cd'', 2)]"

theorem room_has_one_owner_witness:
  "mset (owners (runtime_init sample_env sample_rooms sample_runtime)) =
     {#(RoomId ''ab'', Some 1), (RoomId ''cd'', Some 2)#}"
  using room_has_one_owner [OF rt_init [of sample_env sample_runtime sample_rooms]] by simp


text \<open>
  C21: A lost request and a dead node. A local request for an idle room is followed by a remote proposal
  that phase 1 sees first: the request is dropped without an answer, and since its sender had been
  taken out of the map, giving the proposal up later stores no new one. The new phase 1 then finds
  its request channel cancelled and panics at its next poll, which ends the loop for all rooms.
\<close>

theorem lost_request_panics:
  assumes "oneshot_ok (env_oneshot E) view" and "env_factory E proto = Some agent"
    and "message_type (im_context msg) = Coordination" and "protocol_id (im_context msg) = proto"
  shows "\<exists>s1 s2 s3.
    runtime_step E (EvRequest room n proto args on_done)
      (runtime_init E [(room, rx)] (runtime_new service cacher os)) = Some (Inr (s1, [])) \<and>
    runtime_step E (EvPhase1 0 (Some msg)) s1 = Some (Inr (s2, [RtDropped on_done,
      RtRespond (im_pending_response msg) \<lparr>or_result = Inr [], or_sent_feedback = None\<rparr>])) \<and>
    runtime_step E (EvPhase2 c None True) s2 = Some (Inr (s3, [])) \<and>
    runtime_step E (EvPhase1 0 None) s3 = Some (Inl UnwrapFailed)"
proof -
  note ok = oneshot_okD [OF assms(1)]
  let ?O = "env_oneshot E"
  let ?r = "\<lparr>rpc_n = n, rpc_args = args, rpc_agent = agent, rpc_on_done = on_done\<rparr>"
  obtain h os1 where ch1: "os_channel ?O os = (h, os1)" by force
  have v1: "view os1 h = Some (TxOpen, True)" using ok(2) [of os] ch1 by simp
  define os2 where "os2 = os_send ?O h ?r os1"
  have v2: "view os2 h = Some (TxSent ?r, True)" using ok(3) [OF v1] by (simp add: os2_def)
  obtain os3 where drop: "os_drop_rx ?O h os2 = (Some ?r, os3)"
    using ok(5) [OF v2] by (cases "os_drop_rx ?O h os2") simp
  obtain h' os4 where ch2: "os_channel ?O os3 = (h', os4)" by force
  have v4: "view os4 h' = Some (TxOpen, True)" using ok(2) [of os3] ch2 by simp
  define os5 where "os5 = os_drop_tx ?O h' os4"
  have v5: "view os5 h' = Some (TxGone, True)" using ok(4) [OF v4] by (simp add: os5_def)
  have recv: "fst (os_try_recv ?O h' os5) = Inl Canceled" using ok(8) [OF v5] by simp
  let ?ch = "\<lambda>h. \<lparr>p1_id = room, p1_rx = Some rx, p1_on_local_rpc = h, p1_service = service\<rparr>"
  let ?p2 = "\<lparr>p2_id = room, p2_rx = Some rx, p2_service = service\<rparr>"
  define s0 where "s0 = runtime_init E [(room, rx)] (runtime_new service cacher os)"
  have s0: "s0 = (runtime_new service cacher os)\<lparr>rt_rooms_rpc := [room \<mapsto> h],
      rt_rooms_coordination := [?ch h], rt_oneshots := os1\<rparr>"
    by (simp add: s0_def ch1 phase1_new_def rpc_insert_def push_phase1_def runtime_new_def)
  let ?s1 = "s0\<lparr>rt_rooms_rpc := Map.empty, rt_oneshots := os2\<rparr>"
  have step1: "runtime_step E (EvRequest room n proto args on_done) s0 = Some (Inr (?s1, []))"
    using assms(2) ok(7) [OF v1]
    by (simp add: s0 runtime_step_def on_computation_request_def Let_def os2_def runtime_new_def)
  let ?s2 = "?s1\<lparr>rt_rooms_coordination := [], rt_oneshots := os3,
      rt_awaiting := AwaitPhase2 agent ?p2\<rparr>"
  have step2: "runtime_step E (EvPhase1 0 (Some msg)) ?s1 = Some (Inr (?s2, [RtDropped on_done,
      RtRespond (im_pending_response msg) \<lparr>or_result = Inr [], or_sent_feedback = None\<rparr>]))"
    using assms(2-4) drop
    by (simp add: s0 runtime_step_def on_phase1_def phase1_poll_def on_phase1_msg_def
        remove_nth_def runtime_new_def)
  let ?s3 = "?s2\<lparr>rt_rooms_coordination := [?ch h'], rt_oneshots := os5, rt_awaiting := Selecting\<rparr>"
  have step3: "runtime_step E (EvPhase2 c None True) ?s2 = Some (Inr (?s3, []))"
    using ch2
    by (simp add: s0 runtime_step_def on_phase2_def phase2_poll_def phase2_return_simps
        rpc_and_modify_def push_phase1_def os5_def runtime_new_def)
  have step4: "runtime_step E (EvPhase1 0 None) ?s3 = Some (Inl UnwrapFailed)"
    using recv
    by (cases "os_try_recv ?O h' os5")
       (simp add: s0 runtime_step_def on_phase1_def phase1_poll_def)
  show ?thesis
    unfolding s0_def [symmetric] using step1 step2 step3 step4 by blast
qed

theorem lost_request_panics_witness:
  "\<exists>s1 s2 s3.
    runtime_step sample_env (EvRequest (RoomId ''ab'') 2 1 [5] 0)
      (runtime_init sample_env [(RoomId ''ab'', 1)] sample_runtime) = Some (Inr (s1, [])) \<and>
    runtime_step sample_env (EvPhase1 0 (Some ((sample_msg Coordination 9 [])
        \<lparr>im_context := \<lparr>message_type = Coordination, session_id = 0, protocol_id = 1\<rparr>\<rparr>))) s1 =
      Some (Inr (s2, [RtDropped 0, RtRespond 3 \<lparr>or_result = Inr [], or_sent_feedback = None\<rparr>])) \<and>
    runtime_step sample_env (EvPhase2 21 None True) s2 = Some (Inr (s3, [])) \<and>
    runtime_step sample_env (EvPhase1 0 None) s3 = Some (Inl UnwrapFailed)"
proof -
  let ?msg = "(sample_msg Coordination 9 [])
    \<lparr>im_context := \<lparr>message_type = Coordination, session_id = 0, protocol_id = 1\<rparr>\<rparr>"
  have "oneshot_ok (env_oneshot sample_env) list_view"
    by (simp add: sample_env_def list_oneshot_ok)
  from lost_request_panics [OF this, of 1 0 ?msg "RoomId ''ab''" 2 "[5]" 0 1 sample_service
      "persistent_new [''tmp''] 4" "[]" 21]
  show ?thesis by (simp add: sample_env_def sample_msg_def)
qed


section \<open>The senders of local requests\<close>

text \<open>
  What the map of senders and the phase-1 futures have to do with each other: every future's
  receiver is there; every sender in the map is unused and cancelled exactly if no future holds its
  receiver, and otherwise it is the sender of that room's future; an unused sender of a future is in
  the map.
\<close>

definition rpc_inv ::
  "('o \<Rightarrow> chan \<Rightarrow> ('m tx_state \<times> bool) option) \<Rightarrow> ('pid, 'agent, 'done, 'o) runtime \<Rightarrow> bool" where
  "rpc_inv view s \<longleftrightarrow>
     (let v = view (rt_oneshots s); cs = rt_rooms_coordination s; rpc = rt_rooms_rpc s in
      distinct (map p1_on_local_rpc cs) \<and>
      (\<forall>ch \<in> set cs. \<exists>tx. v (p1_on_local_rpc ch) = Some (tx, True)) \<and>
      (\<forall>r h. rpc r = Some h \<longrightarrow> v h = Some (TxOpen, h \<in> p1_on_local_rpc ` set cs)) \<and>
      (\<forall>r ch. ch \<in> set cs \<and> rpc r = Some (p1_on_local_rpc ch) \<longrightarrow> p1_id ch = r) \<and>
      (\<forall>r r' h. rpc r = Some h \<and> rpc r' = Some h \<longrightarrow> r = r') \<and>
      (\<forall>ch \<in> set cs. v (p1_on_local_rpc ch) = Some (TxOpen, True) \<longrightarrow>
         rpc (p1_id ch) = Some (p1_on_local_rpc ch)))"

lemma rpc_invD:
  assumes "rpc_inv view s"
  shows "distinct (map p1_on_local_rpc (rt_rooms_coordination s))"
    and "ch \<in> set (rt_rooms_coordination s) \<Longrightarrow>
      \<exists>tx. view (rt_oneshots s) (p1_on_local_rpc ch) = Some (tx, True)"
    and "rt_rooms_rpc s r = Some h \<Longrightarrow> view (rt_oneshots s) h =
      Some (TxOpen, h \<in> p1_on_local_rpc ` set (rt_rooms_coordination s))"
    and "ch \<in> set (rt_rooms_coordination s) \<Longrightarrow> rt_rooms_rpc s r = Some (p1_on_local_rpc ch) \<Longrightarrow>
      p1_id ch = r"
    and "rt_rooms_rpc s r = Some h \<Longrightarrow> rt_rooms_rpc s r' = Some h \<Longrightarrow> r = r'"
    and "ch \<in> set (rt_rooms_coordination s) \<Longrightarrow>
      view (rt_oneshots s) (p1_on_local_rpc ch) = Some (TxOpen, True) \<Longrightarrow>
      rt_rooms_rpc s (p1_id ch) = Some (p1_on_local_rpc ch)"
  using assms unfolding rpc_inv_def Let_def by blast+

lemma rpc_inv_cong:
  "rpc_inv view s \<Longrightarrow> rt_rooms_rpc s' = rt_rooms_rpc s \<Longrightarrow>
   rt_rooms_coordination s' = rt_rooms_coordination s \<Longrightarrow> rt_oneshots s' = rt_oneshots s \<Longrightarrow>
   rpc_inv view s'"
  by (simp add: rpc_inv_def)

text \<open>A room goes back to phase 1 with a fresh channel.\<close>

lemma rpc_inv_fresh:
  assumes ok: "oneshot_ok OS view" and inv: "rpc_inv view s"
    and ch: "os_channel OS (rt_oneshots s) = (h, os)" "p1_on_local_rpc ch = h"
  shows "h \<notin> p1_on_local_rpc ` set (rt_rooms_coordination s)" and "rt_rooms_rpc s r \<noteq> Some h"
    and "view os = (view (rt_oneshots s))(h \<mapsto> (TxOpen, True))"
proof -
  have none: "view (rt_oneshots s) h = None" using oneshot_okD(1) [OF ok, of "rt_oneshots s"] ch by simp
  then show "h \<notin> p1_on_local_rpc ` set (rt_rooms_coordination s)" and "rt_rooms_rpc s r \<noteq> Some h"
    using rpc_invD(2,3) [OF inv] by fastforce+
  show "view os = (view (rt_oneshots s))(h \<mapsto> (TxOpen, True))"
    using oneshot_okD(2) [OF ok, of "rt_oneshots s"] ch by simp
qed

lemma rpc_inv_reopen:
  assumes ok: "oneshot_ok (env_oneshot E) view" and inv: "rpc_inv view s"
    and ch: "os_channel (env_oneshot E) (rt_oneshots s) = (h, os)" "p1_on_local_rpc ch = h"
    and s': "rt_rooms_rpc s' = rt_rooms_rpc s" "rt_rooms_coordination s' = rt_rooms_coordination s @ [ch]"
      "rt_oneshots s' = os"
  shows "rpc_inv view (rpc_insert E (p1_id ch) h s')"
proof -
  note fresh = rpc_inv_fresh [OF ok inv ch]
  note I = rpc_invD [OF inv]
  show ?thesis
  proof (cases "rt_rooms_rpc s (p1_id ch)")
    case None
    show ?thesis
      unfolding rpc_inv_def Let_def rpc_insert_def
      using fresh I ch(2) s' None
      by (auto simp: image_iff split: if_splits) (metis option.distinct(1))
  next
    case (Some old)
    have "view os old = Some (TxOpen, old \<in> p1_on_local_rpc ` set (rt_rooms_coordination s))"
      using I(3) [OF Some] fresh Some by auto
    from oneshot_okD(4) [OF ok this] have v: "view (os_drop_tx (env_oneshot E) old os) =
      (view (rt_oneshots s))(h \<mapsto> (TxOpen, True),
        old \<mapsto> (TxGone, old \<in> p1_on_local_rpc ` set (rt_rooms_coordination s)))"
      by (simp only: fresh(3))
    show ?thesis
      unfolding rpc_inv_def Let_def rpc_insert_def
      using fresh(1,2) I ch(2) s' Some v
      by (auto simp: image_iff split: if_splits) (metis option.inject)
  qed
qed


lemma rpc_inv_and_modify:
  assumes ok: "oneshot_ok (env_oneshot E) view" and inv: "rpc_inv view s"
    and ch: "os_channel (env_oneshot E) (rt_oneshots s) = (h, os)" "p1_on_local_rpc ch = h"
    and s': "rt_rooms_rpc s' = rt_rooms_rpc s" "rt_rooms_coordination s' = rt_rooms_coordination s @ [ch]"
      "rt_oneshots s' = os"
  shows "rpc_inv view (rpc_and_modify E (p1_id ch) h s')"
proof (cases "rt_rooms_rpc s (p1_id ch)")
  case (Some old)
  have "rpc_and_modify E (p1_id ch) h s' = rpc_insert E (p1_id ch) h s'"
    by (simp add: rpc_and_modify_def rpc_insert_def s' Some)
  with rpc_inv_reopen [OF assms] show ?thesis by simp
next
  case None
  note fresh = rpc_inv_fresh [OF ok inv ch]
  note I = rpc_invD [OF inv]
  have "view os h = Some (TxOpen, True)" by (simp add: fresh(3))
  from oneshot_okD(4) [OF ok this]
  have v: "view (os_drop_tx (env_oneshot E) h os) = (view (rt_oneshots s))(h \<mapsto> (TxGone, True))"
    by (simp only: fresh(3) fun_upd_upd)
  show ?thesis
    unfolding rpc_inv_def Let_def rpc_and_modify_def
    using fresh(1,2) I ch(2) s' None v
    by (auto simp: image_iff split: if_splits)
qed

lemma rpc_inv_request:
  assumes ok: "oneshot_ok (env_oneshot E) view" and inv: "rpc_inv view s"
    and step: "on_computation_request E room n proto args on_done s = (s', eff)"
  shows "rpc_inv view s'"
proof (cases "rt_rooms_rpc s room")
  case None
  with inv step show ?thesis by (simp add: on_computation_request_def)
next
  case (Some h)
  note I = rpc_invD [OF inv]
  let ?alive = "h \<in> p1_on_local_rpc ` set (rt_rooms_coordination s)"
  have v: "view (rt_oneshots s) h = Some (TxOpen, ?alive)" by (rule I(3) [OF Some])
  note canceled = oneshot_okD(7) [OF ok v]
  show ?thesis
  proof (cases "env_factory E proto")
    case None
    with inv step Some show ?thesis by (simp add: on_computation_request_def)
  next
    case (Some agent)
    let ?r = "\<lparr>rpc_n = n, rpc_args = args, rpc_agent = agent, rpc_on_done = on_done\<rparr>"
    show ?thesis
    proof (cases ?alive)
      case True
      then have "s' = s\<lparr>rt_rooms_rpc := (rt_rooms_rpc s)(room := None),
          rt_oneshots := os_send (env_oneshot E) h ?r (rt_oneshots s)\<rparr>"
        using step Some \<open>rt_rooms_rpc s room = Some h\<close> canceled
        by (simp add: on_computation_request_def Let_def)
      then show ?thesis
        unfolding rpc_inv_def Let_def
        using oneshot_okD(3) [OF ok v, of ?r] I True \<open>rt_rooms_rpc s room = Some h\<close>
        by (auto simp: image_iff split: if_splits)
    next
      case False
      then have "s' = s\<lparr>rt_rooms_rpc := (rt_rooms_rpc s)(room := None),
          rt_oneshots := os_drop_tx (env_oneshot E) h (rt_oneshots s)\<rparr>"
        using step Some \<open>rt_rooms_rpc s room = Some h\<close> canceled
        by (simp add: on_computation_request_def Let_def)
      then show ?thesis
        unfolding rpc_inv_def Let_def
        using oneshot_okD(4) [OF ok v] I False \<open>rt_rooms_rpc s room = Some h\<close>
        by (auto simp: image_iff split: if_splits)
    qed
  qed
qed


lemma remove_nth_keys:
  assumes "distinct (map f xs)" and "k < length xs"
  shows "distinct (map f (remove_nth k xs))"
    and "f ` set (remove_nth k xs) = f ` set xs - {f (xs ! k)}"
    and "set (remove_nth k xs) \<subseteq> set xs"
    and "x \<in> set (remove_nth k xs) \<Longrightarrow> f x \<noteq> f (xs ! k)"
proof -
  have m: "mset xs = mset (xs ! k # remove_nth k xs)" using mset_remove_nth [OF assms(2)] by simp
  then have "mset (map f xs) = mset (map f (xs ! k # remove_nth k xs))" by simp
  with assms(1) have d: "distinct (map f (xs ! k # remove_nth k xs))"
    by (metis mset_eq_imp_distinct_iff)
  then show "distinct (map f (remove_nth k xs))" by simp
  have s: "set xs = insert (xs ! k) (set (remove_nth k xs))"
    using mset_eq_setD [OF m] by simp
  then show "set (remove_nth k xs) \<subseteq> set xs" by blast
  from d have notin: "f (xs ! k) \<notin> f ` set (remove_nth k xs)" by simp
  with s show "f ` set (remove_nth k xs) = f ` set xs - {f (xs ! k)}" by auto
  show "x \<in> set (remove_nth k xs) \<Longrightarrow> f x \<noteq> f (xs ! k)" using notin by (metis image_eqI)
qed

text \<open>The future at position \<open>k\<close> is dropped with its receiver.\<close>

lemma rpc_inv_drop:
  assumes inv: "rpc_inv view s" and k: "k < length (rt_rooms_coordination s)"
    and v: "view os = (view (rt_oneshots s))(p1_on_local_rpc (rt_rooms_coordination s ! k) \<mapsto> (tx, False))"
    and tx: "view (rt_oneshots s) (p1_on_local_rpc (rt_rooms_coordination s ! k)) = Some (TxOpen, True)
      \<Longrightarrow> tx = TxOpen"
    and s': "rt_rooms_rpc s' = rt_rooms_rpc s" "rt_oneshots s' = os"
      "rt_rooms_coordination s' = remove_nth k (rt_rooms_coordination s)"
  shows "rpc_inv view s'"
proof -
  note I = rpc_invD [OF inv]
  note keys = remove_nth_keys [OF I(1) k]
  let ?h = "p1_on_local_rpc (rt_rooms_coordination s ! k)"
  have mem: "rt_rooms_coordination s ! k \<in> set (rt_rooms_coordination s)" using k by simp
  have "tx = TxOpen" if "rt_rooms_rpc s r = Some ?h" for r
    using I(3) [OF that] mem tx by auto
  then show ?thesis
    unfolding rpc_inv_def Let_def s' v
    using keys I(2-6) by (auto simp: subset_iff)
qed

lemma rpc_inv_phase1:
  assumes ok: "oneshot_ok (env_oneshot E) view" and inv: "rpc_inv view s"
    and step: "on_phase1 E k incoming s = Inr (s', eff)" and k: "k < length (rt_rooms_coordination s)"
  shows "rpc_inv view s'"
proof -
  note I = rpc_invD [OF inv]
  let ?ch = "rt_rooms_coordination s ! k"
  let ?h = "p1_on_local_rpc ?ch"
  have mem: "?ch \<in> set (rt_rooms_coordination s)" using k by simp
  from I(2) [OF this] obtain tx where v: "view (rt_oneshots s) ?h = Some (tx, True)" by blast
  obtain rpc os where rpc: "(if incoming = None
      then os_try_recv (env_oneshot E) ?h (rt_oneshots s)
      else (Inr None, rt_oneshots s)) = (rpc, os)" by (metis surj_pair)
  obtain tx' where vos: "view os = (view (rt_oneshots s))(?h \<mapsto> (tx', True))"
    and tx': "tx = TxOpen \<Longrightarrow> tx' = TxOpen" and same: "rpc = Inr None \<Longrightarrow> tx' = tx"
  proof (cases "incoming = None")
    case True
    then have "rpc = tx_answer tx" "view os = (view (rt_oneshots s))(?h \<mapsto> (tx_taken tx, True))"
      using rpc oneshot_okD(8,9) [OF ok v] by simp_all
    then show thesis by (intro that [of "tx_taken tx"]) (cases tx; simp)+
  next
    case False
    then show thesis using rpc v by (intro that [of tx]) auto
  qed
  show ?thesis
  proof (cases "phase1_poll incoming rpc ?ch")
    case (Panicked p)
    with step rpc show ?thesis by (simp add: on_phase1_def Let_def)
  next
    case (Pending ch')
    then have "ch' = ?ch" "rpc = Inr None"
      by (auto simp: phase1_poll_def
          split: option.splits message_type.splits sum.splits canceled.splits)
    with step rpc Pending have s': "s' = s\<lparr>rt_oneshots := os\<rparr>"
      by (simp add: on_phase1_def Let_def)
    have "view os = view (rt_oneshots s)" using vos v same [OF \<open>rpc = Inr None\<close>] by auto
    with inv show ?thesis by (simp add: s' rpc_inv_def)
  next
    case (Ready m)
    have vh: "view os ?h = Some (tx', True)" by (simp add: vos)
    obtain unread os' where drop: "os_drop_rx (env_oneshot E) ?h os = (unread, os')" by force
    have vos': "view os' = (view (rt_oneshots s))(?h \<mapsto> (tx_taken tx', False))"
      using oneshot_okD(6) [OF ok vh] drop by (simp only: vos fun_upd_upd snd_conv)
    let ?s = "s\<lparr>rt_rooms_coordination := remove_nth k (rt_rooms_coordination s), rt_oneshots := os'\<rparr>"
    have inv': "rpc_inv view ?s"
      by (rule rpc_inv_drop [OF inv k vos']) (use v tx' in simp_all)
    from Ready step rpc drop obtain eff' where msg: "on_phase1_msg E m ?s = Inr (s', eff')"
      by (auto simp: on_phase1_def Let_def and_then_eq_Inr)
    from Ready show ?thesis
    proof (cases rule: phase1_ReadyE)
      case (remote rx im)
      show ?thesis
      proof (cases "env_factory E (protocol_id (im_context im))")
        case None
        obtain h os2 where os2: "os_channel (env_oneshot E) os' = (h, os2)" by force
        let ?new = "\<lparr>p1_id = p1_id ?ch, p1_rx = Some rx, p1_on_local_rpc = h,
          p1_service = p1_service ?ch\<rparr>"
        have "s' = rpc_insert E (p1_id ?new) h (push_phase1 ?new (?s\<lparr>rt_oneshots := os2\<rparr>))"
          using msg remote None os2 by (simp add: on_phase1_msg_def phase2_abort_def phase1_new_def)
        moreover have "rpc_inv view
            (rpc_insert E (p1_id ?new) h (push_phase1 ?new (?s\<lparr>rt_oneshots := os2\<rparr>)))"
          by (rule rpc_inv_reopen [OF ok inv', where os = os2]) (simp_all add: os2)
        ultimately show ?thesis by simp
      next
        case (Some agent)
        then show ?thesis
          using msg remote by (auto simp: on_phase1_msg_def intro: rpc_inv_cong [OF inv'])
      qed
    next
      case (local rx r)
      then show ?thesis
        using msg by (auto simp: on_phase1_msg_def intro: rpc_inv_cong [OF inv'])
    qed
  qed
qed


lemma rpc_inv_step:
  assumes ok: "oneshot_ok (env_oneshot E) view" and inv: "rpc_inv view s"
    and aw: "awaiting_ok (rt_awaiting s)" and step: "runtime_step E ev s = Some (Inr (s', eff))"
  shows "rpc_inv view s'"
proof (cases "rt_awaiting s")
  case Selecting
  show ?thesis
  proof (cases ev)
    case (EvRequest room n proto args on_done)
    then have "on_computation_request E room n proto args on_done s = (s', eff)"
      using step Selecting by (simp add: runtime_step_def)
    then show ?thesis by (rule rpc_inv_request [OF ok inv])
  next
    case (EvPhase1 k incoming)
    then have "on_phase1 E k incoming s = Inr (s', eff)" and "k < length (rt_rooms_coordination s)"
      using step Selecting by (auto simp: runtime_step_def split: if_splits)
    then show ?thesis by (rule rpc_inv_phase1 [OF ok inv])
  next
    case (EvExecuted k res)
    then show ?thesis
      using step Selecting
      by (auto simp: runtime_step_def split: if_splits intro: rpc_inv_cong [OF inv])
  next
    case (EvProxy k incoming)
    then have proxy: "on_proxy E k incoming s = Inr (s', eff)"
      using step Selecting by (auto simp: runtime_step_def split: if_splits)
    let ?p = "rt_network_proxies s ! k"
    obtain h os where os: "os_channel (env_oneshot E) (rt_oneshots s) = (h, os)" by force
    obtain rx where rx: "rp_rx ?p = Some rx"
      using proxy os by (cases "rp_rx ?p") (auto simp: on_proxy_def receiver_proxy_poll_def Let_def)
    show ?thesis
    proof (cases "proxy_closed s ?p")
      case True
      let ?new = "\<lparr>p1_id = rp_id ?p, p1_rx = Some rx, p1_on_local_rpc = h,
        p1_service = rp_service ?p\<rparr>"
      let ?s = "push_phase1 ?new (s\<lparr>rt_network_proxies := remove_nth k (rt_network_proxies s),
        rt_oneshots := os\<rparr>)"
      have "s' = rpc_insert E (p1_id ?new) h ?s"
        using proxy True os rx
        by (simp add: on_proxy_def receiver_proxy_poll_def phase1_new_def Let_def)
      moreover have "rpc_inv view (rpc_insert E (p1_id ?new) h ?s)"
        by (rule rpc_inv_reopen [OF ok inv os]) simp_all
      ultimately show ?thesis by simp
    next
      case False
      then show ?thesis
        using proxy os rx
        by (auto simp: on_proxy_def receiver_proxy_poll_def Let_def split: option.splits
            intro: rpc_inv_cong [OF inv])
    qed
  qed (use step Selecting in \<open>simp_all add: runtime_step_def\<close>)
next
  case (AwaitPhase2 agent ch)
  then obtain c incoming timer where p2: "on_phase2 E c incoming timer agent ch s = Inr (s', eff)"
    using step by (auto simp: runtime_step_def split: rt_event.splits)
  obtain h os where os: "os_channel (env_oneshot E) (rt_oneshots s) = (h, os)" by force
  show ?thesis
  proof (cases "phase2_poll (env_pid E) (env_varint E) h c incoming timer ch")
    case (Panicked p)
    with p2 os show ?thesis by (simp add: on_phase2_def)
  next
    case (Pending ch')
    with p2 os show ?thesis by (auto simp: on_phase2_def intro: rpc_inv_cong [OF inv])
  next
    case (Ready m)
    then show ?thesis
    proof (cases rule: phase2_ReadyE)
      case (start rx msg sm)
      with p2 os Ready show ?thesis
        by (auto simp: on_phase2_def and_then_eq_Inr elim!: start_execution_Inr
            intro: rpc_inv_cong [OF inv])
    next
      case (abort rx)
      let ?new = "\<lparr>p1_id = p2_id ch, p1_rx = Some rx, p1_on_local_rpc = h,
        p1_service = p2_service ch\<rparr>"
      let ?s = "push_phase1 ?new (s\<lparr>rt_oneshots := os, rt_awaiting := Selecting\<rparr>)"
      have "s' = rpc_and_modify E (p1_id ?new) h ?s"
        using p2 os Ready abort
        by (auto simp add: on_phase2_def push_phase1_def rpc_and_modify_def split: option.splits)
      moreover have "rpc_inv view (rpc_and_modify E (p1_id ?new) h ?s)"
        by (rule rpc_inv_and_modify [OF ok inv os]) simp_all
      ultimately show ?thesis by simp
    qed
  qed
next
  case (AwaitNegotiation room n ng)
  then obtain c q reply timer where neg: "on_negotiation E c q reply timer room n ng s = Inr (s', eff)"
    using step by (auto simp: runtime_step_def split: rt_event.splits)
  from AwaitNegotiation aw obtain rx args service agent on_done R
    where ninv: "neg_inv room rx n args service agent on_done R ng" by auto
  obtain h os where os: "os_channel (env_oneshot E) (rt_oneshots s) = (h, os)" by force
  from ninv show ?thesis
  proof (rule neg_inv_poll [where P = "env_pid E" and V = "env_varint E" and A = "env_agent E"
        and checks = "env_checks E" and h = h and c = c and q = q and reply = reply
        and timer = timer], goal_cases)
    case (1 peers b)
    with neg os show ?case
      by (auto simp: on_negotiation_def and_then_eq_Inr elim!: start_execution_Inr
          intro: rpc_inv_cong [OF inv])
  next
    case (2 msgs)
    let ?new = "\<lparr>p1_id = room, p1_rx = Some rx, p1_on_local_rpc = h, p1_service = service\<rparr>"
    let ?s = "push_phase1 ?new (s\<lparr>rt_oneshots := os, rt_awaiting := Selecting\<rparr>)"
    have "s' = rpc_insert E (p1_id ?new) h ?s" using neg os 2 by (simp add: on_negotiation_def)
    moreover have "rpc_inv view (rpc_insert E (p1_id ?new) h ?s)"
      by (rule rpc_inv_reopen [OF ok inv os]) simp_all
    ultimately show ?case by simp
  next
    case (3 ng' msgs)
    with neg os show ?case by (auto simp: on_negotiation_def intro: rpc_inv_cong [OF inv])
  next
    case 4
    with neg os show ?case by (simp add: on_negotiation_def)
  qed
qed

lemma rpc_inv_init:
  assumes ok: "oneshot_ok (env_oneshot E) view"
  shows "rpc_inv view s \<Longrightarrow> rpc_inv view (runtime_init E rooms s)"
proof (induction rooms arbitrary: s)
  case (Cons room rooms)
  obtain r rx where room: "room = (r, rx)" by force
  obtain h os where os: "os_channel (env_oneshot E) (rt_oneshots s) = (h, os)" by force
  let ?new = "\<lparr>p1_id = r, p1_rx = Some rx, p1_on_local_rpc = h, p1_service = rt_network_service s\<rparr>"
  have "rpc_inv view (rpc_insert E (p1_id ?new) h (push_phase1 ?new (s\<lparr>rt_oneshots := os\<rparr>)))"
    by (rule rpc_inv_reopen [OF ok Cons.prems os]) simp_all
  from Cons.IH [OF this] show ?case by (simp add: room os phase1_new_def)
qed simp

lemma rt_reach_rpc_inv:
  assumes ok: "oneshot_ok (env_oneshot E) view"
    and "rt_reach E (runtime_new service cacher os) rooms s"
  shows "rpc_inv view s"
  using assms(2)
proof (induction rule: rt_reach.induct)
  case rt_init
  have "rpc_inv view (runtime_new service cacher os)" by (simp add: rpc_inv_def)
  then show ?case by (rule rpc_inv_init [OF ok])
next
  case (rt_step s ev s' eff)
  then show ?case using rpc_inv_step [OF ok] rt_reach_owners by metis
qed


text \<open>
  C16: A local request that the loop takes up is decided at once, and the right way: it is answered
  with ``unknown protocol'' if the factory does not know the protocol and the room still has a
  sender, handed to the room's phase 1 if the protocol is known, the room is in phase 1 and no
  request is waiting there already, and answered with ``protocol is busy'' otherwise.
\<close>

theorem request_decided:
  assumes "oneshot_ok (env_oneshot E) view"
    and "rt_reach E (runtime_new service cacher os) rooms s" and "rt_awaiting s = Selecting"
  shows "\<exists>s' eff. runtime_step E (EvRequest room n proto args on_done) s = Some (Inr (s', eff)) \<and>
    (if env_factory E proto = None \<and> rt_rooms_rpc s room \<noteq> None
     then s' = s \<and> eff = [RtDone on_done (Inl ''unknown protocol'')]
     else if env_factory E proto \<noteq> None \<and> (\<exists>ch \<in> set (rt_rooms_coordination s). p1_id ch = room \<and>
         view (rt_oneshots s) (p1_on_local_rpc ch) = Some (TxOpen, True))
     then eff = [] \<and> rt_rooms_rpc s' room = None \<and>
       (\<exists>ch \<in> set (rt_rooms_coordination s'). p1_id ch = room \<and>
         (\<exists>agent. env_factory E proto = Some agent \<and>
          view (rt_oneshots s') (p1_on_local_rpc ch) = Some (TxSent \<lparr>rpc_n = n, rpc_args = args,
            rpc_agent = agent, rpc_on_done = on_done\<rparr>, True)))
     else eff = [RtDone on_done (Inl ''protocol is busy'')] \<and> rt_rooms_rpc s' room = None \<and>
       rt_rooms_coordination s' = rt_rooms_coordination s)"
proof -
  have inv: "rpc_inv view s" using rt_reach_rpc_inv [OF assms(1,2)] .
  note I = rpc_invD [OF inv]
  have step: "runtime_step E (EvRequest room n proto args on_done) s =
      Some (Inr (on_computation_request E room n proto args on_done s))"
    using assms(3) by (simp add: runtime_step_def)
  show ?thesis
  proof (cases "rt_rooms_rpc s room")
    case None
    then have "\<not> (\<exists>ch \<in> set (rt_rooms_coordination s). p1_id ch = room \<and>
         view (rt_oneshots s) (p1_on_local_rpc ch) = Some (TxOpen, True))"
      using I(6) by auto
    with None step show ?thesis by (simp add: on_computation_request_def)
  next
    case (Some h)
    note room = Some
    let ?alive = "h \<in> p1_on_local_rpc ` set (rt_rooms_coordination s)"
    have v: "view (rt_oneshots s) h = Some (TxOpen, ?alive)" by (rule I(3) [OF Some])
    note canceled = oneshot_okD(7) [OF assms(1) v]
    show ?thesis
    proof (cases "env_factory E proto")
      case None
      with room step show ?thesis by (simp add: on_computation_request_def)
    next
      case (Some agent)
      show ?thesis
      proof (cases ?alive)
        case True
        then obtain ch where ch: "ch \<in> set (rt_rooms_coordination s)" "p1_on_local_rpc ch = h" by blast
        then have "p1_id ch = room" using I(4) room by blast
        moreover have "view (rt_oneshots s) (p1_on_local_rpc ch) = Some (TxOpen, True)"
          using v True ch by simp
        ultimately show ?thesis
          using step room Some canceled True ch oneshot_okD(3) [OF assms(1) v]
          by (auto simp: on_computation_request_def Let_def)
      next
        case False
        have "\<not> (\<exists>ch \<in> set (rt_rooms_coordination s). p1_id ch = room \<and>
            view (rt_oneshots s) (p1_on_local_rpc ch) = Some (TxOpen, True))"
          using I(6) room False by (metis image_eqI option.inject)
        with step room Some canceled False show ?thesis
          by (simp add: on_computation_request_def Let_def)
      qed
    qed
  qed
qed

theorem request_decided_witness:
  "\<exists>s'. runtime_step sample_env (EvRequest (RoomId ''ef'') 2 1 [5] 0)
     (runtime_init sample_env sample_rooms sample_runtime) =
     Some (Inr (s', [RtDone 0 (Inl ''protocol is busy'')]))"
proof -
  let ?s = "runtime_init sample_env sample_rooms sample_runtime"
  have ok: "oneshot_ok (env_oneshot sample_env) list_view"
    by (simp add: sample_env_def list_oneshot_ok)
  have rooms: "rt_awaiting ?s = Selecting"
    "\<forall>ch \<in> set (rt_rooms_coordination ?s). p1_id ch \<noteq> RoomId ''ef''"
    "rt_rooms_rpc ?s (RoomId ''ef'') = None"
    by (simp_all add: sample_env_def list_oneshot_def phase1_new_def rpc_insert_def push_phase1_def
        runtime_new_def)
  from rooms(2) have "\<not> (\<exists>ch \<in> set (rt_rooms_coordination ?s). p1_id ch = RoomId ''ef'' \<and>
      list_view (rt_oneshots ?s) (p1_on_local_rpc ch) = Some (TxOpen, True))" by auto
  with request_decided [OF ok rt_init rooms(1), of "RoomId ''ef''" 2 1 "[5]" 0] rooms(3)
  show ?thesis by auto
qed


section \<open>Panics\<close>

lemma execution_new_ok:
  assumes "local_peer_id ps \<in> set (session_peers ps)" and "2 \<le> length (session_peers ps)"
    and "length (session_peers ps) < 65536"
  shows "\<exists>ex. execution_new checks room A agent service ps cacher on_done = Inr ex"
proof -
  obtain i where i: "index_of ps (local_peer_id ps) = Some i"
    using assms(1) index_of_None [of ps "local_peer_id ps"] by (metis option.exhaust)
  let ?n = "word_of_nat (length (session_peers ps)) :: u16"
  have n: "unat ?n = length (session_peers ps)" using assms(3) by (rule unat_of_nat_u16)
  then have "1 \<le> ?n" using assms(2) by (simp add: word_le_nat_alt)
  moreover have "?n - 1 \<noteq> 0" using u16_pred_zero [OF n] assms(2) by simp
  ultimately show ?thesis
    by (simp add: execution_new_def Let_def i peerset_size_def u16_sub_ok)
qed

lemma panics_eq_Inr: "panics r = Inr x \<longleftrightarrow> r = Inr x"
  by (cases r) simp_all

lemma peerset_from_bytes_local: "peerset_from_bytes P b local = Inr ps \<Longrightarrow> local_peer_id ps = local"
  by (auto simp: peerset_from_bytes_def split: sum.splits)

lemma start_msg_local:
  "start_msg_from_bytes P V b local = Inr sm \<Longrightarrow> local_peer_id (sm_parties sm) = local"
  by (auto simp: start_msg_from_bytes_def and_then_eq_Inr panics_eq_Inr
      dest: peerset_from_bytes_local)

lemma rt_reach_receivers:
  assumes "rt_reach E (runtime_new service cacher os) rooms s" and "(r, x) \<in> set (owners s)"
  shows "x \<noteq> None"
proof -
  have "set (owners s) = set (map (\<lambda>(r, rx). (r, Some rx)) rooms)"
    using rt_reach_owners [OF assms(1)] by (metis mset_eq_setD)
  with assms(2) show ?thesis by auto
qed

text \<open>
  What an awaited start message must be for phase 2 not to panic: one of the coordination phase, and
  either not decodable (which aborts) or with at least two parties, the local peer among them.
\<close>

definition start_acceptable ::
  "'pid pid_ops \<Rightarrow> varint_ops \<Rightarrow> 'pid \<Rightarrow> 'pid incoming_message \<Rightarrow> bool" where
  "start_acceptable P V local msg \<longleftrightarrow>
     message_type (im_context msg) = Coordination \<and>
     (case start_msg_from_bytes P V (im_payload msg) local of
        Inl (Panic _) \<Rightarrow> False
      | Inl (Err _) \<Rightarrow> True
      | Inr sm \<Rightarrow> local \<in> set (session_peers (sm_parties sm)) \<and>
          2 \<le> length (session_peers (sm_parties sm)) \<and> length (session_peers (sm_parties sm)) < 2 ^ 16)"

definition panic_cause ::
  "('pid, 'agent, 'done, 'o) runtime_env \<Rightarrow>
   ('o \<Rightarrow> chan \<Rightarrow> (('agent, 'done) local_rpc_msg tx_state \<times> bool) option) \<Rightarrow>
   ('pid, 'agent, 'done) rt_event \<Rightarrow> ('pid, 'agent, 'done, 'o) runtime \<Rightarrow> bool" where
  "panic_cause E view ev s \<longleftrightarrow>
     (case ev of
        EvPhase1 k (Some msg) \<Rightarrow> message_type (im_context msg) = Computation
      | EvPhase1 k None \<Rightarrow> view (rt_oneshots s)
          (p1_on_local_rpc (rt_rooms_coordination s ! k)) = Some (TxGone, True)
      | EvPhase2 c (Some msg) timer \<Rightarrow>
          (\<exists>agent ch. rt_awaiting s = AwaitPhase2 agent ch \<and>
            \<not> start_acceptable (env_pid E) (env_varint E) (ns_local_peer_id (p2_service ch)) msg)
      | EvNegotiation c q reply timer \<Rightarrow>
          (\<exists>room n ng. rt_awaiting s = AwaitNegotiation room n ng \<and> unat n \<le> 1)
      | EvProxy k (Some msg) \<Rightarrow>
          im_peer_id msg \<notin> set (session_peers (rp_parties (rt_network_proxies s ! k)))
      | _ \<Rightarrow> False)"

lemma on_phase1_panics:
  assumes ok: "oneshot_ok (env_oneshot E) view" and inv: "rpc_inv view s"
    and k: "k < length (rt_rooms_coordination s)" and rx: "p1_rx (rt_rooms_coordination s ! k) \<noteq> None"
    and step: "on_phase1 E k incoming s = Inl p"
  shows "case incoming of Some msg \<Rightarrow> message_type (im_context msg) = Computation
    | None \<Rightarrow> view (rt_oneshots s) (p1_on_local_rpc (rt_rooms_coordination s ! k)) = Some (TxGone, True)"
proof -
  let ?ch = "rt_rooms_coordination s ! k"
  let ?h = "p1_on_local_rpc ?ch"
  from rpc_invD(2) [OF inv, of ?ch] k obtain tx where v: "view (rt_oneshots s) ?h = Some (tx, True)"
    by auto
  obtain rpc os where rpc: "(if incoming = None
      then os_try_recv (env_oneshot E) ?h (rt_oneshots s)
      else (Inr None, rt_oneshots s)) = (rpc, os)" by (metis surj_pair)
  have msg_ok: "\<exists>r. on_phase1_msg E m s' = Inr r" if "phase1_poll incoming rpc ?ch = Ready m" for m s'
    using that
  proof (cases rule: phase1_ReadyE)
    case (remote rx im)
    then show ?thesis
      by (cases "os_channel (env_oneshot E) (rt_oneshots s')")
         (auto simp: on_phase1_msg_def phase2_abort_def phase1_new_def split: option.splits)
  qed (simp add: on_phase1_msg_def)
  show ?thesis
  proof (cases "phase1_poll incoming rpc ?ch")
    case (Panicked p)
    show ?thesis
    proof (cases incoming)
      case None
      then have "rpc = Inl Canceled"
        using Panicked rx
        by (auto simp: phase1_poll_def split: sum.splits option.splits canceled.splits)
      moreover have "rpc = tx_answer tx" using rpc None oneshot_okD(8) [OF ok v] by simp
      ultimately show ?thesis using v None by (cases tx) simp_all
    next
      case (Some msg)
      with Panicked rx show ?thesis
        by (auto simp: phase1_poll_def split: message_type.splits)
    qed
  next
    case (Pending ch')
    with step rpc show ?thesis by (simp add: on_phase1_def Let_def)
  next
    case (Ready m)
    obtain unread os' where drop: "os_drop_rx (env_oneshot E) ?h os = (unread, os')" by force
    obtain r where "on_phase1_msg E m (s\<lparr>rt_rooms_coordination :=
        remove_nth k (rt_rooms_coordination s), rt_oneshots := os'\<rparr>) = Inr r"
      using msg_ok [OF Ready] by blast
    with step rpc Ready drop show ?thesis
      by (cases r) (simp add: on_phase1_def Let_def)
  qed
qed


lemma start_execution_ok:
  assumes "local_peer_id ps \<in> set (session_peers ps)" and "2 \<le> length (session_peers ps)"
    and "length (session_peers ps) < 65536"
  shows "start_execution E n room agent ps c proxy on_done s \<noteq> Inl p"
  using execution_new_ok [OF assms, of "env_checks E" room "env_agent E" agent
      "rt_network_service s" "rt_cacher s" on_done]
  by (auto simp: start_execution_def)

lemma on_phase2_panics:
  assumes rx: "p2_rx ch \<noteq> None" and step: "on_phase2 E c incoming timer agent ch s = Inl p"
  shows "\<exists>msg. incoming = Some msg \<and>
    \<not> start_acceptable (env_pid E) (env_varint E) (ns_local_peer_id (p2_service ch)) msg"
proof -
  obtain h os where os: "os_channel (env_oneshot E) (rt_oneshots s) = (h, os)" by force
  from rx obtain x where x: "p2_rx ch = Some x" by blast
  show ?thesis
  proof (cases incoming)
    case None
    with step os x show ?thesis
      by (auto simp: on_phase2_def phase2_poll_def phase2_return_simps split: if_splits)
  next
    case (Some msg)
    have False if acc: "start_acceptable (env_pid E) (env_varint E)
        (ns_local_peer_id (p2_service ch)) msg"
    proof (cases "start_msg_from_bytes (env_pid E) (env_varint E) (im_payload msg)
        (ns_local_peer_id (p2_service ch))")
      case (Inl e)
      with acc step os x Some show False
        by (cases e) (auto simp: start_acceptable_def on_phase2_def phase2_poll_def
            phase2_return_simps)
    next
      case (Inr sm)
      then have "local_peer_id (sm_parties sm) = ns_local_peer_id (p2_service ch)"
        by (rule start_msg_local)
      with acc Inr have parties: "local_peer_id (sm_parties sm) \<in> set (session_peers (sm_parties sm))"
        "2 \<le> length (session_peers (sm_parties sm))" "length (session_peers (sm_parties sm)) < 65536"
        by (simp_all add: start_acceptable_def)
      moreover have "session_peers (sm_parties sm) \<noteq> []" using parties(1) by auto
      ultimately show False
        using acc step os x Some Inr
        by (auto simp: start_acceptable_def on_phase2_def phase2_poll_def receiver_proxy_new_def
            peerset_size_def and_then_eq_Inl start_execution_ok [OF parties])
    qed
    with Some show ?thesis by blast
  qed
qed

lemma on_negotiation_panics:
  assumes inv: "neg_inv room rx n args service agent on_done R ng"
    and step: "on_negotiation E c q reply timer room n ng s = Inl p"
  shows "unat n \<le> 1"
proof (rule ccontr)
  assume "\<not> unat n \<le> 1"
  then have n: "2 \<le> unat n" by simp
  obtain h os where os: "os_channel (env_oneshot E) (rt_oneshots s) = (h, os)" by force
  from inv show False
  proof (rule neg_inv_poll [where P = "env_pid E" and V = "env_varint E" and A = "env_agent E"
        and checks = "env_checks E" and h = h and c = c and q = q and reply = reply
        and timer = timer], goal_cases)
    case (1 peers b)
    let ?ps = "peerset_new (env_pid E) peers (ns_local_peer_id service)"
    have "\<exists>ex. execution_new (env_checks E) room (env_agent E) agent (rt_network_service s) ?ps
        (rt_cacher s) (Some on_done) = Inr ex"
      by (rule execution_new_ok) (use 1(4,5) n unat_u16_less [of n] in simp_all)
    with 1 step os show False by (auto simp: on_negotiation_def start_execution_def)
  next
    case (2 msgs)
    with step os show False by (simp add: on_negotiation_def)
  next
    case (3 ng' msgs)
    with step os show False by (simp add: on_negotiation_def)
  next
    case 4
    with n show False by simp
  qed
qed

lemma on_proxy_panics:
  assumes "rp_rx (rt_network_proxies s ! k) \<noteq> None" and "on_proxy E k incoming s = Inl p"
  shows "\<exists>msg. incoming = Some msg \<and>
    im_peer_id msg \<notin> set (session_peers (rp_parties (rt_network_proxies s ! k)))"
proof -
  obtain h os where os: "os_channel (env_oneshot E) (rt_oneshots s) = (h, os)" by force
  have "\<exists>msg. incoming = Some msg \<and>
      index_of (rp_parties (rt_network_proxies s ! k)) (im_peer_id msg) = None"
    using assms os
    by (auto simp del: index_of_None simp: on_proxy_def receiver_proxy_poll_def phase1_new_def Let_def
        split: option.splits if_splits)
  then show ?thesis by simp
qed

text \<open>
  The handlers of the loop panic for these reasons only (what else takes the daemon down, in the computations that
  it polls and when the network worker is gone, is the subject of \<open>Daemon_Panics\<close>): a message of the
  computation phase reaches a room that is in phase 1; the request sender of a room in phase 1 has been dropped (see
  \<open>lost_request_panics\<close>); the message that phase 2 awaits is not an acceptable start message; a
  negotiation for fewer than two parties; or a message of a peer that takes no part reaches the room
  of a running computation. In particular no room's receiver is ever missing when it is needed.
\<close>

theorem runtime_panics_only:
  assumes ok: "oneshot_ok (env_oneshot E) view"
    and reach: "rt_reach E (runtime_new service cacher os) rooms s"
    and step: "runtime_step E ev s = Some (Inl p)"
  shows "panic_cause E view ev s"
proof (cases "rt_awaiting s")
  case Selecting
  show ?thesis
  proof (cases ev)
    case (EvRequest room n proto args on_done)
    with step Selecting show ?thesis by (simp add: runtime_step_def)
  next
    case (EvPhase1 k incoming)
    then have k: "k < length (rt_rooms_coordination s)" and p: "on_phase1 E k incoming s = Inl p"
      using step Selecting by (auto simp: runtime_step_def split: if_splits)
    have "(p1_id (rt_rooms_coordination s ! k), p1_rx (rt_rooms_coordination s ! k)) \<in> set (owners s)"
      using k by (auto simp: owners_def)
    from on_phase1_panics [OF ok rt_reach_rpc_inv [OF ok reach] k
        rt_reach_receivers [OF reach this] p]
    show ?thesis by (simp add: panic_cause_def EvPhase1 split: option.splits)
  next
    case (EvExecuted k res)
    with step Selecting show ?thesis by (simp add: runtime_step_def split: if_splits)
  next
    case (EvProxy k incoming)
    then have k: "k < length (rt_network_proxies s)" and p: "on_proxy E k incoming s = Inl p"
      using step Selecting by (auto simp: runtime_step_def split: if_splits)
    have "(rp_id (rt_network_proxies s ! k), rp_rx (rt_network_proxies s ! k)) \<in> set (owners s)"
      using k by (auto simp: owners_def)
    from on_proxy_panics [OF rt_reach_receivers [OF reach this] p]
    show ?thesis by (auto simp: panic_cause_def EvProxy)
  qed (use step Selecting in \<open>simp_all add: runtime_step_def\<close>)
next
  case (AwaitPhase2 agent ch)
  then obtain c incoming timer where ev: "ev = EvPhase2 c incoming timer"
    and p: "on_phase2 E c incoming timer agent ch s = Inl p"
    using step by (auto simp: runtime_step_def split: rt_event.splits)
  have "(p2_id ch, p2_rx ch) \<in> set (owners s)" by (simp add: owners_def AwaitPhase2)
  from on_phase2_panics [OF rt_reach_receivers [OF reach this] p]
  show ?thesis by (auto simp: panic_cause_def ev AwaitPhase2)
next
  case (AwaitNegotiation room n ng)
  then obtain c q reply timer where ev: "ev = EvNegotiation c q reply timer"
    and p: "on_negotiation E c q reply timer room n ng s = Inl p"
    using step by (auto simp: runtime_step_def split: rt_event.splits)
  from rt_reach_owners [OF reach] AwaitNegotiation obtain rx args service' agent on_done R
    where "neg_inv room rx n args service' agent on_done R ng" by auto
  from on_negotiation_panics [OF this p] show ?thesis
    by (simp add: panic_cause_def ev AwaitNegotiation)
qed


theorem runtime_panics_only_witness:
  "panic_cause sample_env list_view (EvPhase1 0 (Some (sample_msg Computation 9 [])))
     (runtime_init sample_env sample_rooms sample_runtime)"
proof (rule runtime_panics_only [OF _ rt_init])
  show "oneshot_ok (env_oneshot sample_env) list_view"
    by (simp add: sample_env_def list_oneshot_ok)
  show "runtime_step sample_env (EvPhase1 0 (Some (sample_msg Computation 9 [])))
      (runtime_init sample_env sample_rooms sample_runtime) = Some (Inl ExplicitPanic)"
    by (simp add: sample_env_def list_oneshot_def phase1_new_def rpc_insert_def push_phase1_def
        runtime_new_def runtime_step_def on_phase1_def phase1_poll_def sample_msg_def)
qed

end
