(* ===== verification/Config.thy ===== *)
theory Config
  imports Broadcast Room File_System
begin

text \<open>
  The configuration of the network (\<open>node/network/src/config.rs\<close> and \<open>error.rs\<close>): the parameters of
  the worker and of a room, addresses that carry a peer identifier, and the node's secret key with
  the file it is kept in.

  Multiaddresses, peer identifiers and keys belong to libp2p. A multiaddress is the list of its
  protocols, of which only \<open>/p2p\<close> matters here; the conversion between identifiers and multihashes,
  the text form of addresses, the conversion of a secret key to and from its bytes and the
  hexadecimal decoder of the crate \<open>hex\<close> are arguments of the definitions, with what they document
  named by \<open>multihash_ok\<close>, \<open>addr_text_ok\<close> and \<open>secret_key_ok\<close>. A freshly generated key is an argument.
\<close>

section \<open>Addresses with a peer identifier\<close>

datatype 'pr multi_protocol = P2p bytes | OtherProtocol 'pr

type_synonym 'pr multiaddr = "'pr multi_protocol list"

record ('pid, 'pr) addr_ops =
  to_multihash :: "'pid \<Rightarrow> bytes"
  from_multihash :: "bytes \<Rightarrow> 'pid option"
  addr_parse :: "string \<Rightarrow> string + 'pr multiaddr"
  addr_show :: "'pr multiaddr \<Rightarrow> string"

definition multihash_ok :: "('pid, 'pr) addr_ops \<Rightarrow> bool" where
  "multihash_ok A \<longleftrightarrow> (\<forall>p. from_multihash A (to_multihash A p) = Some p)"

definition addr_text_ok :: "('pid, 'pr) addr_ops \<Rightarrow> bool" where
  "addr_text_ok A \<longleftrightarrow> (\<forall>m. addr_parse A (addr_show A m) = Inr m)"

record ('pid, 'pr) multiaddr_with_peer_id =
  mwp_multiaddr :: "'pr multiaddr"
  mwp_peer_id :: 'pid

definition mwp_concat ::
  "('pid, 'pr) addr_ops \<Rightarrow> ('pid, 'pr) multiaddr_with_peer_id \<Rightarrow> 'pr multiaddr" where
  "mwp_concat A x = mwp_multiaddr x @ [P2p (to_multihash A (mwp_peer_id x))]"

text \<open>\<open>Multiaddr::pop\<close> removes the last protocol.\<close>

definition addr_pop :: "'pr multiaddr \<Rightarrow> ('pr multi_protocol \<times> 'pr multiaddr) option" where
  "addr_pop a = (if a = [] then None else Some (last a, butlast a))"

definition parse_addr ::
  "('pid, 'pr) addr_ops \<Rightarrow> 'pr multiaddr \<Rightarrow> string + 'pid \<times> 'pr multiaddr" where
  "parse_addr A a =
     (case addr_pop a of
        Some (P2p key, rest) \<Rightarrow>
          (case from_multihash A key of
             Some who \<Rightarrow> Inr (who, rest)
           | None \<Rightarrow> Inl ''invalid peer id'')
      | _ \<Rightarrow> Inl ''peer id missing'')"

definition parse_str_addr ::
  "('pid, 'pr) addr_ops \<Rightarrow> string \<Rightarrow> string + 'pid \<times> 'pr multiaddr" where
  "parse_str_addr A s = and_then (addr_parse A s) (parse_addr A)"

definition mwp_from_str ::
  "('pid, 'pr) addr_ops \<Rightarrow> string \<Rightarrow> string + ('pid, 'pr) multiaddr_with_peer_id" where
  "mwp_from_str A s =
     map_sum id (\<lambda>(p, m). \<lparr>mwp_multiaddr = m, mwp_peer_id = p\<rparr>) (parse_str_addr A s)"

definition mwp_to_string ::
  "('pid, 'pr) addr_ops \<Rightarrow> ('pid, 'pr) multiaddr_with_peer_id \<Rightarrow> string" where
  "mwp_to_string A x = addr_show A (mwp_concat A x)"

definition mwp_try_from ::
  "('pid, 'pr) addr_ops \<Rightarrow> string \<Rightarrow> string + ('pid, 'pr) multiaddr_with_peer_id" where
  "mwp_try_from A s =
     map_sum (\<lambda>e. ''parsing multiaddr_peer_id terminated with err: '' @ e) id (mwp_from_str A s)"

section \<open>Parameters of the worker and of a room\<close>

record ('pid, 'pr) room_args =
  ra_id :: room_id
  ra_max_size :: nat
  ra_boot_peers :: "('pid, 'pr) multiaddr_with_peer_id list"
  ra_inbound_queue :: "chan option"

record ('pid, 'pr) params =
  pm_listen_address :: "'pr multiaddr"
  pm_mdns :: bool
  pm_kademlia :: bool
  pm_rooms :: "('pid, 'pr) room_args list"

text \<open>\<open>tx\<close> is the channel that \<open>mpsc::channel(max_size)\<close> creates; its receiver is returned.\<close>

definition room_args_new_full ::
  "(string \<Rightarrow> string) \<Rightarrow> string \<Rightarrow> ('pid, 'pr) multiaddr_with_peer_id list \<Rightarrow> nat \<Rightarrow> chan \<Rightarrow>
   room_id \<times> ('pid, 'pr) room_args \<times> chan" where
  "room_args_new_full blake3_hex name boot_peers max_size tx =
     (let rid = room_id_from blake3_hex name in
      (rid, \<lparr>ra_id = rid, ra_max_size = max_size, ra_boot_peers = boot_peers,
             ra_inbound_queue = Some tx\<rparr>, tx))"

datatype ('pid, 'pr) net_error =
    NetIo io_kind
  | DuplicateNode "'pr multiaddr" 'pid 'pid
  | DuplicateBroadcastProtocol string

section \<open>Key files\<close>

text \<open>\<open>String::from_utf8\<close> accepts exactly the well-formed sequences of the Unicode standard.\<close>

definition utf8_cont :: "byte \<Rightarrow> bool" where
  "utf8_cont b \<longleftrightarrow> 0x80 \<le> b \<and> b \<le> 0xBF"

fun utf8_valid :: "bytes \<Rightarrow> bool" where
  "utf8_valid [] = True"
| "utf8_valid (b # bs) =
     (if b < 0x80 then utf8_valid bs
      else if 0xC2 \<le> b \<and> b \<le> 0xDF then
        (case bs of c1 # r \<Rightarrow> utf8_cont c1 \<and> utf8_valid r | _ \<Rightarrow> False)
      else if 0xE0 \<le> b \<and> b \<le> 0xEF then
        (case bs of c1 # c2 # r \<Rightarrow>
           utf8_cont c1 \<and> utf8_cont c2 \<and> (b = 0xE0 \<longrightarrow> 0xA0 \<le> c1) \<and> (b = 0xED \<longrightarrow> c1 \<le> 0x9F) \<and>
           utf8_valid r
         | _ \<Rightarrow> False)
      else if 0xF0 \<le> b \<and> b \<le> 0xF4 then
        (case bs of c1 # c2 # c3 # r \<Rightarrow>
           utf8_cont c1 \<and> utf8_cont c2 \<and> utf8_cont c3 \<and>
           (b = 0xF0 \<longrightarrow> 0x90 \<le> c1) \<and> (b = 0xF4 \<longrightarrow> c1 \<le> 0x8F) \<and> utf8_valid r
         | _ \<Rightarrow> False)
      else False)"

record ('k, 'er) secret_key_ops =
  sk_from_bytes :: "bytes \<Rightarrow> 'er + 'k"
  sk_to_bytes :: "'k \<Rightarrow> bytes"
  hex_decode :: "bytes \<Rightarrow> bytes option"

text \<open>An Ed25519 secret key is exactly its 32 bytes.\<close>

definition secret_key_ok :: "('k, 'er) secret_key_ops \<Rightarrow> bool" where
  "secret_key_ok S \<longleftrightarrow>
     (\<forall>k. length (sk_to_bytes S k) = 32 \<and> sk_from_bytes S (sk_to_bytes S k) = Inr k) \<and>
     (\<forall>b. length b \<noteq> 32 \<longrightarrow> (\<exists>e. sk_from_bytes S b = Inl e))"

datatype 'k secret = Input 'k | File path | New

datatype 'k node_key_config = Ed25519 "'k secret"

definition node_key_default :: "'k node_key_config" where
  "node_key_default = Ed25519 New"

text \<open>A key pair of the curve is determined by its secret key; other kinds are not looked into.\<close>

datatype 'k keypair = KeypairEd25519 'k | KeypairOther

definition write_secret_file ::
  "host_fs \<Rightarrow> path \<Rightarrow> bytes \<Rightarrow> host_fs \<times> (io_kind + unit)" where
  "write_secret_file fs p sk_bytes =
     (case open_create_new fs p of
        (fs', Inl e) \<Rightarrow> (fs', Inl e)
      | (fs', Inr _) \<Rightarrow> write_all_new fs' p sk_bytes)"

definition get_secret ::
  "(bytes \<Rightarrow> 'er + 'k) \<Rightarrow> 'k \<Rightarrow> ('k \<Rightarrow> bytes) \<Rightarrow> path \<Rightarrow> host_fs \<Rightarrow> host_fs \<times> (io_kind + 'k)" where
  "get_secret parse generated serialize file fs =
     (case and_then (read_file fs file) (\<lambda>b. map_sum (\<lambda>_. InvalidData) id (parse b)) of
        Inr k \<Rightarrow> (fs, Inr k)
      | Inl e \<Rightarrow>
          if e = NotFound then
            (case (case path_parent file of None \<Rightarrow> Inr () | Some d \<Rightarrow> create_dir_all fs d) of
               Inl e' \<Rightarrow> (fs, Inl e')
             | Inr _ \<Rightarrow>
                 (case write_secret_file fs file (serialize generated) of
                    (fs', Inl e') \<Rightarrow> (fs', Inl e')
                  | (fs', Inr _) \<Rightarrow> (fs', Inr generated)))
          else (fs, Inl e))"

text \<open>The closure that reads a key: 64 hexadecimal characters, or else the raw bytes.\<close>

definition parse_secret :: "('k, 'er) secret_key_ops \<Rightarrow> bytes \<Rightarrow> 'er + 'k" where
  "parse_secret S b =
     (case (if utf8_valid b \<and> length b = 64 then hex_decode S b else None) of
        Some s \<Rightarrow> sk_from_bytes S s
      | None \<Rightarrow> sk_from_bytes S b)"

fun into_keypair ::
  "('k, 'er) secret_key_ops \<Rightarrow> 'k \<Rightarrow> 'k node_key_config \<Rightarrow> host_fs \<Rightarrow>
   host_fs \<times> (io_kind + 'k keypair)" where
  "into_keypair S generated (Ed25519 New) fs = (fs, Inr (KeypairEd25519 generated))"
| "into_keypair S generated (Ed25519 (Input k)) fs = (fs, Inr (KeypairEd25519 k))"
| "into_keypair S generated (Ed25519 (File f)) fs =
     map_prod id (map_sum id KeypairEd25519)
       (get_secret (parse_secret S) generated (sk_to_bytes S) f fs)"

fun persist ::
  "('k, 'er) secret_key_ops \<Rightarrow> 'k keypair \<Rightarrow> path \<Rightarrow> host_fs \<Rightarrow> host_fs \<times> (io_kind fault + unit)" where
  "persist S (KeypairEd25519 k) p fs =
     map_prod id (map_sum Err id) (write_secret_file fs p (sk_to_bytes S k))"
| "persist S KeypairOther p fs = (fs, Inl (Panic ExplicitPanic))"

section \<open>Parsing addresses\<close>

lemma addr_pop_snoc [simp]: "addr_pop (m @ [p]) = Some (p, m)"
  by (simp add: addr_pop_def)

lemma addr_pop_cases:
  obtains "a = []" "addr_pop a = None"
  | p m where "a = m @ [p]" "addr_pop a = Some (p, m)"
  by (cases a rule: rev_cases) (auto simp: addr_pop_def)

lemma parse_addr_concat [codec_simps]:
  "multihash_ok A \<Longrightarrow> parse_addr A (mwp_concat A x) = Inr (mwp_peer_id x, mwp_multiaddr x)"
  by (simp add: parse_addr_def mwp_concat_def multihash_ok_def)

lemma parse_addr_snoc:
  "parse_addr A (m @ [p]) =
     (case p of P2p h \<Rightarrow> (case from_multihash A h of Some who \<Rightarrow> Inr (who, m) | None \<Rightarrow> Inl ''invalid peer id'')
      | OtherProtocol _ \<Rightarrow> Inl ''peer id missing'')"
  by (simp add: parse_addr_def split: multi_protocol.splits option.splits)

lemma parse_addr_Nil: "parse_addr A [] = Inl ''peer id missing''"
  by (simp add: parse_addr_def addr_pop_def)

text \<open>
  C34: The two text forms of a node's address. An address with its peer identifier, written as a
  string (the \<open>Display\<close> and \<open>Into<String>\<close> of the configuration file), is read back unchanged by
  \<open>FromStr\<close> and \<open>TryFrom<String>\<close>. Conversely parsing succeeds exactly on addresses that end in
  \<open>/p2p\<close> with a valid identifier, takes only that last protocol off, and its two error messages
  tell a missing from an invalid identifier.
\<close>

theorem node_address_roundtrip:
  assumes "multihash_ok A" and "addr_text_ok A"
  shows "mwp_from_str A (mwp_to_string A x) = Inr x \<and>
    mwp_try_from A (mwp_to_string A x) = Inr x \<and>
    (parse_addr A a = Inr (who, m) \<longleftrightarrow> (\<exists>h. a = m @ [P2p h] \<and> from_multihash A h = Some who)) \<and>
    (parse_addr A a = Inl ''invalid peer id'' \<longleftrightarrow>
       (\<exists>m' h. a = m' @ [P2p h] \<and> from_multihash A h = None))"
proof (intro conjI)
  show parsed: "mwp_from_str A (mwp_to_string A x) = Inr x"
    using assms
    by (simp add: mwp_from_str_def mwp_to_string_def parse_str_addr_def addr_text_ok_def codec_simps)
  then show "mwp_try_from A (mwp_to_string A x) = Inr x" by (simp add: mwp_try_from_def)
  show "parse_addr A a = Inr (who, m) \<longleftrightarrow> (\<exists>h. a = m @ [P2p h] \<and> from_multihash A h = Some who)"
    by (cases a rule: rev_cases)
      (auto simp: parse_addr_Nil parse_addr_snoc split: multi_protocol.splits option.splits)
  show "parse_addr A a = Inl ''invalid peer id'' \<longleftrightarrow>
      (\<exists>m' h. a = m' @ [P2p h] \<and> from_multihash A h = None)"
    by (cases a rule: rev_cases)
      (auto simp: parse_addr_Nil parse_addr_snoc split: multi_protocol.splits option.splits)
qed

text \<open>
  A sample of the libp2p operations. The text form of an address has a letter \<open>o\<close> for another
  protocol and, for \<open>/p2p\<close>, every byte in unary followed by \<open>b\<close> and a final \<open>P\<close>.
\<close>

fun sample_show_protocol :: "unit multi_protocol \<Rightarrow> string" where
  "sample_show_protocol (OtherProtocol u) = ''o''"
| "sample_show_protocol (P2p h) =
     concat (map (\<lambda>b. replicate (unat b) CHR ''n'' @ ''b'') h) @ ''P''"

fun sample_parse :: "string \<Rightarrow> unit multiaddr" where
  "sample_parse [] = []"
| "sample_parse (c # cs) =
     (if c = CHR ''o'' then OtherProtocol () # sample_parse cs
      else if c = CHR ''P'' then P2p [] # sample_parse cs
      else case sample_parse cs of
          P2p h # a \<Rightarrow> P2p (if c = CHR ''b'' then 0 # h else case h of [] \<Rightarrow> [] | b # bs \<Rightarrow> (b + 1) # bs) # a
        | a \<Rightarrow> a)"

definition sample_addr :: "(byte, unit) addr_ops" where
  "sample_addr =
     \<lparr>to_multihash = (\<lambda>p. [p]), from_multihash = (\<lambda>b. case b of [p] \<Rightarrow> Some p | _ \<Rightarrow> None),
      addr_parse = (\<lambda>s. Inr (sample_parse s)),
      addr_show = (\<lambda>m. concat (map sample_show_protocol m))\<rparr>"

lemma sample_parse_unary:
  "sample_parse rest = P2p (b # h) # a \<Longrightarrow>
     sample_parse (replicate k CHR ''n'' @ rest) = P2p ((b + of_nat k) # h) # a"
  by (induction k) (auto simp: algebra_simps)

lemma sample_parse_bytes:
  "sample_parse rest = P2p h' # a \<Longrightarrow>
     sample_parse (concat (map (\<lambda>b. replicate (unat b) CHR ''n'' @ ''b'') h) @ rest) = P2p (h @ h') # a"
  by (induction h) (simp_all add: sample_parse_unary)

lemma sample_parse_show: "sample_parse (concat (map sample_show_protocol m)) = m"
proof (induction m)
  case Nil
  then show ?case by simp
next
  case (Cons p m)
  then show ?case
    by (cases p) (simp_all add: sample_parse_bytes [of _ "[]"])
qed

lemma sample_addr_ok: "multihash_ok sample_addr" "addr_text_ok sample_addr"
  by (simp_all add: multihash_ok_def addr_text_ok_def sample_addr_def sample_parse_show)

theorem node_address_roundtrip_witness:
  "mwp_from_str sample_addr
     (mwp_to_string sample_addr \<lparr>mwp_multiaddr = [OtherProtocol ()], mwp_peer_id = 3\<rparr>) =
   Inr \<lparr>mwp_multiaddr = [OtherProtocol ()], mwp_peer_id = 3\<rparr> \<and>
   parse_addr sample_addr [OtherProtocol (), P2p [7, 7]] = Inl ''invalid peer id''"
proof -
  have "from_multihash sample_addr [7, 7] = None" by (simp add: sample_addr_def)
  then show ?thesis
    using node_address_roundtrip [OF sample_addr_ok,
        of "\<lparr>mwp_multiaddr = [OtherProtocol ()], mwp_peer_id = 3\<rparr>" "[OtherProtocol (), P2p [7, 7]]"]
    by auto
qed

section \<open>Key files\<close>

text \<open>
  What is documented of files: \<open>NotFound\<close> is only reported for a file that is not there, and a file
  that the process was able to create, with the access rights 0600, it is able to read.
\<close>

definition host_ok :: "host_fs \<Rightarrow> bool" where
  "host_ok fs \<longleftrightarrow>
     (\<forall>p. fs_read_error fs p \<noteq> Some NotFound \<and> (fs_can_write fs p \<longrightarrow> fs_read_error fs p = None))"

lemma read_file_NotFound: "host_ok fs \<Longrightarrow> read_file fs p = Inl NotFound \<Longrightarrow> fs_files fs p = None"
  by (auto simp: read_file_def host_ok_def split: option.splits)

text \<open>A write touches no file that was there, and at most the one it names.\<close>

lemma write_secret_file_frame:
  assumes "write_secret_file fs p b = (fs', r)"
  shows "fs_files fs \<subseteq>\<^sub>m fs_files fs'" and "q \<noteq> p \<Longrightarrow> fs_files fs' q = fs_files fs q"
    and "fs_read_error fs' = fs_read_error fs"
  using assms
  by (auto simp: write_secret_file_def open_create_new_def write_all_new_def map_le_def
      split: if_splits unit.splits)

lemma write_secret_file_InrD:
  assumes "write_secret_file fs p b = (fs', Inr ())"
  shows "fs_files fs' p = Some b" and "fs_files fs p = None" and "fs_can_write fs p"
  using assms
  by (auto simp: write_secret_file_def open_create_new_def write_all_new_def
      split: if_splits unit.splits)

lemma get_secret_cases:
  assumes "get_secret parse gen ser f fs = (fs', r)"
  obtains (read) k b where "read_file fs f = Inr b" "parse b = Inr k" "r = Inr k" "fs' = fs"
  | (failed) e where "r = Inl e" "fs' = fs"
  | (unwritten) e where "read_file fs f = Inl NotFound" "write_secret_file fs f (ser gen) = (fs', Inl e)" "r = Inl e"
  | (created) "read_file fs f = Inl NotFound" "write_secret_file fs f (ser gen) = (fs', Inr ())" "r = Inr gen"
proof (cases "and_then (read_file fs f) (\<lambda>b. map_sum (\<lambda>_. InvalidData) id (parse b))")
  case (Inr k)
  then obtain b where "read_file fs f = Inr b" "parse b = Inr k"
    by (cases "read_file fs f") (auto simp: map_sum_def split: sum.splits)
  with Inr assms show ?thesis by (intro read [of b k]) (auto simp: get_secret_def)
next
  case (Inl e)
  show ?thesis
  proof (cases "e = NotFound")
    case False
    with Inl assms show ?thesis by (intro failed [of e]) (auto simp: get_secret_def)
  next
    case True
    with Inl have nf: "read_file fs f = Inl NotFound"
      by (cases "read_file fs f") (auto simp: map_sum_def split: sum.splits)
    obtain fs1 w where w: "write_secret_file fs f (ser gen) = (fs1, w)" by force
    show ?thesis
    proof (cases "case path_parent f of None \<Rightarrow> Inr () | Some d \<Rightarrow> create_dir_all fs d")
      case (Inl e')
      with assms show ?thesis by (intro failed [of e']) (simp_all add: get_secret_def nf)
    next
      case (Inr u)
      with w assms have *: "(fs', r) = (fs1, case w of Inl e \<Rightarrow> Inl e | Inr _ \<Rightarrow> Inr gen)"
        by (cases w) (simp_all add: get_secret_def nf)
      show ?thesis
      proof (cases w)
        case (Inl e')
        with * w nf show ?thesis by (intro unwritten [of e']) auto
      next
        case (Inr u')
        with * w nf show ?thesis by (intro created) auto
      qed
    qed
  qed
qed

lemma get_secret_frame:
  assumes "get_secret parse gen ser f fs = (fs', r)"
  shows "fs_files fs \<subseteq>\<^sub>m fs_files fs' \<and> (\<forall>q. q \<noteq> f \<longrightarrow> fs_files fs' q = fs_files fs q)"
  using assms
  by (cases rule: get_secret_cases) (auto dest: write_secret_file_frame)

lemma parse_secret_32: "length b = 32 \<Longrightarrow> parse_secret S b = sk_from_bytes S b"
  by (simp add: parse_secret_def)

lemma get_secret_stable:
  assumes "secret_key_ok S" and "host_ok fs"
    and "get_secret (parse_secret S) g (sk_to_bytes S) f fs = (fs', Inr k)"
  shows "get_secret (parse_secret S) g' (sk_to_bytes S) f fs' = (fs', Inr k)"
  using assms(3)
proof (cases rule: get_secret_cases)
  case (read k' b)
  then show ?thesis by (simp add: get_secret_def)
next
  case created
  from write_secret_file_InrD [OF created(2)] write_secret_file_frame(3) [OF created(2)] assms(2)
  have "read_file fs' f = Inr (sk_to_bytes S g)"
    by (simp add: read_file_def host_ok_def)
  with created(3) assms(1) show ?thesis
    by (simp add: get_secret_def parse_secret_32 secret_key_ok_def)
qed simp_all

text \<open>
  C22: A node with a key file keeps its identity. When a start obtains a key from the file, or creates
  the file with a newly generated key, every later start obtains the same key from it, whatever it
  would itself have generated, and leaves the file system as it is.
\<close>

theorem node_key_stable:
  assumes "secret_key_ok S" and "host_ok fs"
    and "into_keypair S g (Ed25519 (File f)) fs = (fs', Inr kp)"
  shows "into_keypair S g' (Ed25519 (File f)) fs' = (fs', Inr kp)"
proof -
  obtain r where "get_secret (parse_secret S) g (sk_to_bytes S) f fs = (fs', r)"
    and "map_sum id KeypairEd25519 r = Inr kp"
    using assms(3)
    by (cases "get_secret (parse_secret S) g (sk_to_bytes S) f fs") auto
  then obtain k where "get_secret (parse_secret S) g (sk_to_bytes S) f fs = (fs', Inr k)"
    and kp: "kp = KeypairEd25519 k" by (cases r) auto
  from get_secret_stable [OF assms(1,2) this(1), of g'] show ?thesis by (simp add: kp)
qed

text \<open>A sample of keys: a key is a byte, filled up with zeros to 32 bytes.\<close>

definition sample_secret_key :: "(byte, unit) secret_key_ops" where
  "sample_secret_key =
     \<lparr>sk_from_bytes = (\<lambda>b. if length b = 32 then Inr (hd b) else Inl ()),
      sk_to_bytes = (\<lambda>k. k # replicate 31 0), hex_decode = (\<lambda>_. None)\<rparr>"

lemma sample_secret_key_ok: "secret_key_ok sample_secret_key"
  by (simp add: secret_key_ok_def sample_secret_key_def)

lemma empty_host_ok: "host_ok empty_host"
  by (simp add: host_ok_def empty_host_def)

text \<open>The creation of a key file, complete or cut short.\<close>

lemma get_secret_new:
  assumes "host_ok fs" and "fs_files fs f = None" and "fs_can_write fs f"
    and "path_parent f = Some d" and "fs_can_mkdir fs d" and "fs_files fs d = None"
  shows "get_secret parse g ser f fs =
    (fs\<lparr>fs_files := (fs_files fs)(f \<mapsto> take (fs_space fs f) (ser g))\<rparr>,
     if length (ser g) \<le> fs_space fs f then Inr g else Inl OtherIo)"
proof -
  have "read_file fs f = Inl NotFound" using assms(1-3) by (simp add: read_file_def host_ok_def)
  then show ?thesis
    using assms(2-6)
    by (simp add: get_secret_def create_dir_all_def write_secret_file_def open_create_new_def
        write_all_new_def)
qed

theorem node_key_stable_witness:
  "\<exists>fs'. into_keypair sample_secret_key 5 (Ed25519 (File [''data'', ''secret.key''])) empty_host =
       (fs', Inr (KeypairEd25519 5)) \<and>
     into_keypair sample_secret_key 9 (Ed25519 (File [''data'', ''secret.key''])) fs' =
       (fs', Inr (KeypairEd25519 5))"
proof -
  let ?f = "[''data'', ''secret.key'']"
  have "fs_files empty_host ?f = None" "fs_can_write empty_host ?f" "path_parent ?f = Some [''data'']"
    "fs_can_mkdir empty_host [''data'']" "fs_files empty_host [''data''] = None" "fs_space empty_host ?f = 4096"
    by (simp_all add: empty_host_def path_parent_def)
  moreover have "length (sk_to_bytes sample_secret_key 5) \<le> 4096"
    by (simp add: sample_secret_key_def)
  ultimately obtain fs' where
    "into_keypair sample_secret_key 5 (Ed25519 (File ?f)) empty_host = (fs', Inr (KeypairEd25519 5))"
    using get_secret_new [OF empty_host_ok, of ?f "[''data'']" "parse_secret sample_secret_key" 5
        "sk_to_bytes sample_secret_key"] by simp
  from this node_key_stable [OF sample_secret_key_ok empty_host_ok this] show ?thesis by blast
qed

text \<open>
  No operation on keys overwrites a file. Whatever the configuration, the key and the outcome,
  obtaining a key pair and persisting one leave every existing file as it was; a key file is
  created at most, and persisting to a path that is taken is an error.
\<close>

theorem key_files_never_overwritten:
  "fs_files fs \<subseteq>\<^sub>m fs_files (fst (into_keypair S g cfg fs)) \<and>
   fs_files fs \<subseteq>\<^sub>m fs_files (fst (persist S kp p fs)) \<and>
   (fs_files fs p = Some b \<longrightarrow> persist S (KeypairEd25519 k) p fs = (fs, Inl (Err AlreadyExists)))"
proof (intro conjI impI)
  show "fs_files fs \<subseteq>\<^sub>m fs_files (fst (into_keypair S g cfg fs))"
  proof (cases "(S, g, cfg, fs)" rule: into_keypair.cases)
    case (3 S' g' f fs')
    obtain fs1 r where "get_secret (parse_secret S) g (sk_to_bytes S) f fs = (fs1, r)" by force
    with get_secret_frame [OF this] 3 show ?thesis by simp
  qed auto
  show "fs_files fs \<subseteq>\<^sub>m fs_files (fst (persist S kp p fs))"
  proof (cases kp)
    case (KeypairEd25519 k)
    obtain fs1 r where "write_secret_file fs p (sk_to_bytes S k) = (fs1, r)" by force
    with write_secret_file_frame(1) [OF this] KeypairEd25519 show ?thesis by simp
  qed simp
  show "fs_files fs p = Some b \<Longrightarrow> persist S (KeypairEd25519 k) p fs = (fs, Inl (Err AlreadyExists))"
    by (simp add: write_secret_file_def open_create_new_def)
qed

theorem key_files_never_overwritten_witness:
  "persist sample_secret_key (KeypairEd25519 5) [''k''] (empty_host\<lparr>fs_files := [[''k''] \<mapsto> [1]]\<rparr>) =
     (empty_host\<lparr>fs_files := [[''k''] \<mapsto> [1]]\<rparr>, Inl (Err AlreadyExists))"
  using key_files_never_overwritten
    [of "empty_host\<lparr>fs_files := [[''k''] \<mapsto> [1]]\<rparr>" sample_secret_key 0 "Ed25519 New" "KeypairEd25519 5"
      "[''k'']" "[1]" 5]
  by simp

text \<open>
  C39: An interrupted creation of the key file locks the node out. When the file is created but the
  disk cannot take all 32 bytes, the start fails and leaves the incomplete file; from then on every
  start fails with \<open>InvalidData\<close>, also when space has become available, until the file is removed.
\<close>

theorem interrupted_key_file_is_fatal:
  assumes "secret_key_ok S" and "host_ok fs"
    and "fs_files fs f = None" and "fs_can_write fs f" and "fs_space fs f < 32"
    and "path_parent f = Some d" and "fs_can_mkdir fs d" and "fs_files fs d = None"
  shows "\<exists>fs'. into_keypair S g (Ed25519 (File f)) fs = (fs', Inl OtherIo) \<and>
    (\<forall>fs'' g'. fs_files fs'' f = fs_files fs' f \<and> fs_read_error fs'' f = None \<longrightarrow>
       into_keypair S g' (Ed25519 (File f)) fs'' = (fs'', Inl InvalidData))"
proof -
  let ?b = "take (fs_space fs f) (sk_to_bytes S g)"
  let ?fs = "fs\<lparr>fs_files := (fs_files fs)(f \<mapsto> ?b)\<rparr>"
  have len: "length (sk_to_bytes S g) = 32" using assms(1) by (simp add: secret_key_ok_def)
  have "into_keypair S g (Ed25519 (File f)) fs = (?fs, Inl OtherIo)"
    using get_secret_new [OF assms(2,3,4,6-8), of "parse_secret S" g "sk_to_bytes S"] assms(5) len
    by simp
  moreover have "into_keypair S g' (Ed25519 (File f)) fs'' = (fs'', Inl InvalidData)"
    if "fs_files fs'' f = fs_files ?fs f" "fs_read_error fs'' f = None" for fs'' g'
  proof -
    have short: "length ?b < 32" using assms(5) len by simp
    then obtain e where "sk_from_bytes S ?b = Inl e"
      using assms(1) by (metis secret_key_ok_def less_irrefl)
    moreover have "parse_secret S ?b = sk_from_bytes S ?b" using short by (simp add: parse_secret_def)
    ultimately show ?thesis using that by (simp add: get_secret_def read_file_def)
  qed
  ultimately show ?thesis by blast
qed

theorem interrupted_key_file_is_fatal_witness:
  "\<exists>fs'. into_keypair sample_secret_key 5 (Ed25519 (File [''secret.key'']))
      (empty_host\<lparr>fs_space := \<lambda>_. 10\<rparr>) = (fs', Inl OtherIo) \<and>
     into_keypair sample_secret_key 9 (Ed25519 (File [''secret.key''])) (fs'\<lparr>fs_space := \<lambda>_. 4096\<rparr>) =
       (fs'\<lparr>fs_space := \<lambda>_. 4096\<rparr>, Inl InvalidData)"
proof -
  let ?fs = "empty_host\<lparr>fs_space := \<lambda>_. 10\<rparr>" and ?f = "[''secret.key'']"
  have h: "host_ok ?fs" "fs_files ?fs ?f = None" "fs_can_write ?fs ?f" "fs_space ?fs ?f < 32"
    "path_parent ?f = Some []" "fs_can_mkdir ?fs []" "fs_files ?fs [] = None"
    by (simp_all add: host_ok_def empty_host_def path_parent_def)
  from interrupted_key_file_is_fatal [OF sample_secret_key_ok h, of 5] obtain fs' where
    fs': "into_keypair sample_secret_key 5 (Ed25519 (File ?f)) ?fs = (fs', Inl OtherIo)"
    and later: "\<And>fs'' g'. fs_files fs'' ?f = fs_files fs' ?f \<Longrightarrow> fs_read_error fs'' ?f = None \<Longrightarrow>
      into_keypair sample_secret_key g' (Ed25519 (File ?f)) fs'' = (fs'', Inl InvalidData)"
    by blast
  have "fs_read_error fs' = (\<lambda>_. None)"
    using fs' get_secret_new [OF h(1-3,5-7), of "parse_secret sample_secret_key" 5
        "sk_to_bytes sample_secret_key"] by (auto simp: empty_host_def)
  with later [of "fs'\<lparr>fs_space := \<lambda>_. 4096\<rparr>" 9] fs' show ?thesis by auto
qed

end
