(* ===== verification/Event_Queue.thy ===== *)
theory Event_Queue
  imports Prelude
begin

text \<open>
  Two libp2p behaviours of the repository, the discovery and the composed network behaviour, keep
  a \<open>VecDeque\<close> of events that callbacks push to and that \<open>poll\<close> pops from. This theory has their
  common contract: the runs of a labelled step relation, and the locale \<open>event_queue\<close> of steps
  that conserve the queue, extended by \<open>polled_queue\<close> for a \<open>poll\<close> that pops before it does
  anything else. \<open>Discovery\<close> and \<open>Behaviour\<close> interpret both.
\<close>

section \<open>Runs\<close>

inductive run :: "('s \<Rightarrow> 'l \<Rightarrow> 's \<Rightarrow> bool) \<Rightarrow> 's \<Rightarrow> 'l list \<Rightarrow> 's \<Rightarrow> bool"
  for step where
  run_done: "run step s [] s"
| run_step: "step s l s' \<Longrightarrow> run step s' ls t \<Longrightarrow> run step s (l # ls) t"

inductive_simps run_Nil_iff [simp]: "run step s [] t"
inductive_simps run_Cons_iff: "run step s (l # ls) t"

lemma run_append: "run step s (ls @ ms) t \<longleftrightarrow> (\<exists>u. run step s ls u \<and> run step u ms t)"
  by (induction ls arbitrary: s) (auto simp: run_Cons_iff)

lemma run_snocI: "run step s ls u \<Longrightarrow> step u l t \<Longrightarrow> run step s (ls @ [l]) t"
  by (auto simp: run_append run_Cons_iff)

lemma run_invariant:
  assumes "run step s ls t" and "I s" and "\<And>s l s'. l \<in> set ls \<Longrightarrow> step s l s' \<Longrightarrow> I s \<Longrightarrow> I s'"
  shows "I t"
  using assms
proof (induction rule: run.induct)
  case (run_done s)
  then show ?case by simp
next
  case (run_step s l s' ls t)
  show ?case
    by (rule run_step.IH) (use run_step in \<open>auto intro: list.set_intros\<close>)
qed

text \<open>A quantity to which every step adds what its label says is the sum over the run.\<close>

lemma run_sum:
  fixes f :: "'s \<Rightarrow> 'a :: monoid_add"
  assumes "run step s ls t" and "\<And>s l s'. step s l s' \<Longrightarrow> f s' = f s + d l"
  shows "f t = f s + sum_list (map d ls)"
  using assms(1)
  by (induction rule: run.induct) (auto simp: assms(2) add.assoc)

section \<open>A queue of events\<close>

locale event_queue =
  fixes step :: "'s \<Rightarrow> 'l \<Rightarrow> 's \<Rightarrow> bool"
    and pending :: "'s \<Rightarrow> 'e list"
    and raised :: "'l \<Rightarrow> 'e list"
    and emitted :: "'l \<Rightarrow> 'e list"
  assumes conserve: "step s l s' \<Longrightarrow> emitted l @ pending s' = pending s @ raised l"
begin

text \<open>The events handed out, followed by those still queued, are the events raised, in order.\<close>

lemma fifo:
  "run step s ls t \<Longrightarrow>
     concat (map emitted ls) @ pending t = pending s @ concat (map raised ls)"
proof (induction rule: run.induct)
  case (run_done s)
  then show ?case by simp
next
  case (run_step s l s' ls t)
  from conserve [OF run_step.hyps(1)]
  have "emitted l @ pending s' @ concat (map raised ls) =
      pending s @ raised l @ concat (map raised ls)"
    by (metis append.assoc)
  with run_step.IH show ?case by simp
qed

lemma exactly_once:
  assumes "run step s ls t" and "pending s = []" and "pending t = []"
  shows "concat (map emitted ls) = concat (map raised ls)"
  using fifo [OF assms(1)] assms(2,3) by simp

lemma emitted_prefix:
  assumes "run step s ls t" and "pending s = []"
  shows "\<exists>rest. concat (map raised ls) = concat (map emitted ls) @ rest"
  using fifo [OF assms(1)] assms(2) by (metis append_Nil)

end

locale polled_queue = event_queue +
  fixes polled :: "'e \<Rightarrow> 'l"
  assumes poll_pops: "pending s = e # es \<Longrightarrow> step s (polled e) s' \<Longrightarrow> pending s' = es"
    and poll_enabled: "pending s = e # es \<Longrightarrow> \<exists>s'. step s (polled e) s'"
    and poll_emits: "emitted (polled e) = [e]"
begin

text \<open>Polling as often as there are queued events hands out exactly them, whatever their number.\<close>

lemma drains: "\<exists>t. run step s (map polled (pending s)) t \<and> pending t = []"
proof (induction "pending s" arbitrary: s)
  case Nil
  then have "run step s (map polled (pending s)) s \<and> pending s = []" by simp
  then show ?case ..
next
  case (Cons e es)
  obtain s1 where s1: "step s (polled e) s1"
    using poll_enabled [OF Cons.hyps(2) [symmetric]] by blast
  have "pending s1 = es" using poll_pops [OF Cons.hyps(2) [symmetric] s1] .
  with Cons.hyps(1) [of s1] obtain t where "run step s1 (map polled es) t" "pending t = []" by auto
  with s1 Cons.hyps(2) [symmetric] show ?case by (auto simp: run_Cons_iff)
qed

end

end
