(* ===== verification/Discovery.thy ===== *)
theory Discovery
  imports Config Event_Queue
begin

text \<open>
  The discovery of peers (\<open>node/network/src/discovery.rs\<close>): which peers the node knows and with which
  addresses, the number of its connections, and the polling of Kademlia and mDNS.

  Kademlia and mDNS belong to libp2p: their states are the type variables \<open>'kad\<close> and \<open>'mdns\<close>, their
  operations the arguments \<open>K\<close> and \<open>M\<close>; what arrives from the network is part of their states. A
  \<open>Toggle\<close> is an option: a disabled behaviour ignores notifications, has no addresses and is never
  ready. \<open>'x\<close> stands for the fields of an action that are passed on unchanged (the handler, the
  condition of a dial, the event for a handler, the score, the connection). The hash set of peers is
  a set and the hash map of addresses a HOL map. \<open>checks\<close> says whether arithmetic overflow panics.
\<close>

section \<open>Data\<close>

datatype 'pid discovery_out = Connected 'pid | Disconnected 'pid

text \<open>Here the handlers, events and other fields of an action are all passed on unchanged.\<close>

type_synonym ('out, 'pid, 'addr, 'x) nb_action = "('out, 'pid, 'addr, 'x, 'x, 'x) swarm_action"

datatype ('pid, 'addr) mdns_event =
    Discovered "('pid \<times> 'addr) list"
  | Expired "('pid \<times> 'addr) list"

record ('kad, 'pid, 'addr, 'kev, 'x, 'hev) kad_ops =
  k_new :: "'pid \<Rightarrow> 'kad"
  k_add_address :: "'kad \<Rightarrow> 'pid \<Rightarrow> 'addr \<Rightarrow> 'kad"
  k_bootstrap :: "'kad \<Rightarrow> 'kad \<times> (string + nat)"
  k_addresses_of_peer :: "'kad \<Rightarrow> 'pid \<Rightarrow> 'kad \<times> 'addr list"
  k_notify :: "'kad \<Rightarrow> 'pid swarm_event \<Rightarrow> 'kad"
  k_inject_event :: "'kad \<Rightarrow> 'pid \<Rightarrow> 'hev \<Rightarrow> 'kad"
  k_poll :: "'kad \<Rightarrow> 'kad \<times> ('kev, 'pid, 'addr, 'x) nb_action option"

record ('mdns, 'pid, 'addr, 'x) mdns_ops =
  m_start :: "'mdns option"
  m_addresses_of_peer :: "'mdns \<Rightarrow> 'pid \<Rightarrow> 'mdns \<times> 'addr list"
  m_poll :: "'mdns \<Rightarrow> 'mdns \<times> (('pid, 'addr) mdns_event, 'pid, 'addr, 'x) nb_action option"

record ('kad, 'mdns, 'pid, 'addr) discovery =
  d_user_defined :: "('pid \<times> 'addr) list"
  d_kademlia :: "'kad option"
  d_mdns :: "'mdns option"
  d_pending_events :: "'pid discovery_out list"
  d_num_connections :: u64
  d_peers :: "'pid set"
  d_peer_addresses :: "'pid \<Rightarrow> 'addr list option"

section \<open>Operations\<close>

definition add_addresses ::
  "('kad, 'pid, 'addr, 'kev, 'x, 'hev) kad_ops \<Rightarrow> ('pid \<times> 'addr) list \<Rightarrow> 'kad \<Rightarrow> 'kad" where
  "add_addresses K list k = foldl (\<lambda>k (p, a). k_add_address K k p a) k list"

text \<open>
  \<open>new\<close>: the addresses of all rooms' boot peers; with Kademlia they become known peers and Kademlia
  bootstraps (a failure is only logged); mDNS must start.
\<close>

definition boot_addresses :: "('pid, 'pr) params \<Rightarrow> ('pid \<times> 'pr multiaddr) list" where
  "boot_addresses pm =
     map (\<lambda>mwp. (mwp_peer_id mwp, mwp_multiaddr mwp)) (concat (map ra_boot_peers (pm_rooms pm)))"

definition discovery_new ::
  "('kad, 'pid, 'pr multiaddr, 'kev, 'x, 'hev) kad_ops \<Rightarrow>
   ('mdns, 'pid, 'pr multiaddr, 'x) mdns_ops \<Rightarrow> 'pid \<Rightarrow> ('pid, 'pr) params \<Rightarrow>
   panic + ('kad, 'mdns, 'pid, 'pr multiaddr) discovery" where
  "discovery_new K M local pm =
     (let user_defined = boot_addresses pm;
          kad = (if pm_kademlia pm
                 then Some (fst (k_bootstrap K (add_addresses K user_defined (k_new K local))))
                 else None);
          peers = (if pm_kademlia pm then set (map fst user_defined) else {})
      in if pm_mdns pm \<and> m_start M = None then Inl ExpectFailed
         else Inr \<lparr>d_user_defined = user_defined, d_kademlia = kad,
                d_mdns = (if pm_mdns pm then m_start M else None), d_pending_events = [],
                d_num_connections = 0, d_peers = peers, d_peer_addresses = Map.empty\<rparr>)"

definition discovery_bootstrap ::
  "('kad, 'pid, 'addr, 'kev, 'x, 'hev) kad_ops \<Rightarrow> ('kad, 'mdns, 'pid, 'addr) discovery \<Rightarrow>
   ('kad, 'mdns, 'pid, 'addr) discovery \<times> (string + nat)" where
  "discovery_bootstrap K d =
     (case d_kademlia d of
        Some kad \<Rightarrow>
          let (kad', r) = k_bootstrap K kad in (d\<lparr>d_kademlia := Some kad'\<rparr>, r)
      | None \<Rightarrow> (d, Inl ''Kademlia is not activated''))"

definition addresses_of_peer ::
  "('kad, 'pid, 'addr, 'kev, 'x, 'hev) kad_ops \<Rightarrow> ('mdns, 'pid, 'addr, 'x) mdns_ops \<Rightarrow> 'pid \<Rightarrow>
   ('kad, 'mdns, 'pid, 'addr) discovery \<Rightarrow> ('kad, 'mdns, 'pid, 'addr) discovery \<times> 'addr list" where
  "addresses_of_peer K M p d =
     (let user = map snd (filter (\<lambda>(q, a). q = p) (d_user_defined d));
          (kad, from_kad) = (case d_kademlia d of None \<Rightarrow> (None, [])
             | Some k \<Rightarrow> map_prod Some id (k_addresses_of_peer K k p));
          (mdns, from_mdns) = (case d_mdns d of None \<Rightarrow> (None, [])
             | Some m \<Rightarrow> map_prod Some id (m_addresses_of_peer M m p))
      in (d\<lparr>d_kademlia := kad, d_mdns := mdns\<rparr>, user @ from_kad @ from_mdns))"

definition notify_kademlia ::
  "('kad, 'pid, 'addr, 'kev, 'x, 'hev) kad_ops \<Rightarrow> 'pid swarm_event \<Rightarrow>
   ('kad, 'mdns, 'pid, 'addr) discovery \<Rightarrow> ('kad, 'mdns, 'pid, 'addr) discovery" where
  "notify_kademlia K ev d =
     d\<lparr>d_kademlia := map_option (\<lambda>k. k_notify K k ev) (d_kademlia d)\<rparr>"

definition inject_connected ::
  "('kad, 'pid, 'addr, 'kev, 'x, 'hev) kad_ops \<Rightarrow> ('mdns, 'pid, 'addr, 'x) mdns_ops \<Rightarrow> 'pid \<Rightarrow>
   ('kad, 'mdns, 'pid, 'addr) discovery \<Rightarrow> ('kad, 'mdns, 'pid, 'addr) discovery" where
  "inject_connected K M p d =
     (let (d1, multiaddr) = addresses_of_peer K M p d in
      notify_kademlia K (SwConnected p)
        (d1\<lparr>d_peer_addresses := (d_peer_addresses d1)(p \<mapsto> multiaddr),
            d_peers := insert p (d_peers d1),
            d_pending_events := d_pending_events d1 @ [Connected p]\<rparr>))"

definition inject_disconnected ::
  "('kad, 'pid, 'addr, 'kev, 'x, 'hev) kad_ops \<Rightarrow> 'pid \<Rightarrow>
   ('kad, 'mdns, 'pid, 'addr) discovery \<Rightarrow> ('kad, 'mdns, 'pid, 'addr) discovery" where
  "inject_disconnected K p d =
     notify_kademlia K (SwDisconnected p)
       (d\<lparr>d_pending_events := d_pending_events d @ [Disconnected p]\<rparr>)"

definition inject_connection_established ::
  "('kad, 'pid, 'addr, 'kev, 'x, 'hev) kad_ops \<Rightarrow> bool \<Rightarrow> 'pid \<Rightarrow>
   ('kad, 'mdns, 'pid, 'addr) discovery \<Rightarrow> panic + ('kad, 'mdns, 'pid, 'addr) discovery" where
  "inject_connection_established K checks p d =
     (if checks \<and> d_num_connections d = - 1 then Inl ArithOverflow
      else Inr (notify_kademlia K (SwConnectionEstablished p)
             (d\<lparr>d_num_connections := d_num_connections d + 1\<rparr>)))"

definition inject_connection_closed ::
  "('kad, 'pid, 'addr, 'kev, 'x, 'hev) kad_ops \<Rightarrow> bool \<Rightarrow> 'pid \<Rightarrow>
   ('kad, 'mdns, 'pid, 'addr) discovery \<Rightarrow> panic + ('kad, 'mdns, 'pid, 'addr) discovery" where
  "inject_connection_closed K checks p d =
     (if checks \<and> d_num_connections d = 0 then Inl ArithOverflow
      else Inr (notify_kademlia K (SwConnectionClosed p)
             (d\<lparr>d_num_connections := d_num_connections d - 1\<rparr>)))"

text \<open>
  The callbacks of the swarm. Those that the behaviour does not implement have the empty default
  body: a new listener and an expired external address are not passed on to Kademlia.
\<close>

fun discovery_notify ::
  "('kad, 'pid, 'addr, 'kev, 'x, 'hev) kad_ops \<Rightarrow> ('mdns, 'pid, 'addr, 'x) mdns_ops \<Rightarrow> bool \<Rightarrow>
   'pid swarm_event \<Rightarrow> ('kad, 'mdns, 'pid, 'addr) discovery \<Rightarrow>
   panic + ('kad, 'mdns, 'pid, 'addr) discovery" where
  "discovery_notify K M checks (SwConnected p) d = Inr (inject_connected K M p d)"
| "discovery_notify K M checks (SwDisconnected p) d = Inr (inject_disconnected K p d)"
| "discovery_notify K M checks (SwConnectionEstablished p) d =
     inject_connection_established K checks p d"
| "discovery_notify K M checks (SwConnectionClosed p) d = inject_connection_closed K checks p d"
| "discovery_notify K M checks (SwDialFailure p) d = Inr (notify_kademlia K (SwDialFailure p) d)"
| "discovery_notify K M checks SwNewListenAddr d = Inr (notify_kademlia K SwNewListenAddr d)"
| "discovery_notify K M checks SwExpiredListenAddr d = Inr (notify_kademlia K SwExpiredListenAddr d)"
| "discovery_notify K M checks SwListenerError d = Inr (notify_kademlia K SwListenerError d)"
| "discovery_notify K M checks SwListenerClosed d = Inr (notify_kademlia K SwListenerClosed d)"
| "discovery_notify K M checks SwNewExternalAddr d = Inr (notify_kademlia K SwNewExternalAddr d)"
| "discovery_notify K M checks SwNewListener d = Inr d"
| "discovery_notify K M checks SwExpiredExternalAddr d = Inr d"

definition discovery_inject_event ::
  "('kad, 'pid, 'addr, 'kev, 'x, 'hev) kad_ops \<Rightarrow> 'pid \<Rightarrow> 'hev \<Rightarrow>
   ('kad, 'mdns, 'pid, 'addr) discovery \<Rightarrow> ('kad, 'mdns, 'pid, 'addr) discovery" where
  "discovery_inject_event K p ev d =
     (case d_kademlia d of
        Some kad \<Rightarrow> d\<lparr>d_kademlia := Some (k_inject_event K kad p ev)\<rparr>
      | None \<Rightarrow> d)"

section \<open>Polling\<close>

text \<open>
  The two \<open>while let\<close> loops. Each ends when its behaviour is not ready or has an action to hand on;
  a behaviour that is ready for ever makes the loop run for ever, which is the value \<open>None\<close>.
  Every event of Kademlia is only logged.
\<close>

partial_function (option) kad_loop ::
  "('kad, 'pid, 'addr, 'kev, 'x, 'hev) kad_ops \<Rightarrow> 'kad \<Rightarrow>
   ('kad \<times> ('pid discovery_out, 'pid, 'addr, 'x) nb_action option) option" where
  "kad_loop K k =
     (case k_poll K k of
        (k', None) \<Rightarrow> Some (k', None)
      | (k', Some ev) \<Rightarrow>
          (case ev of
             GenerateEvent _ \<Rightarrow> kad_loop K k'
           | DialAddress a x \<Rightarrow> Some (k', Some (DialAddress a x))
           | DialPeer p c x \<Rightarrow> Some (k', Some (DialPeer p c x))
           | NotifyHandler p c x \<Rightarrow> Some (k', Some (NotifyHandler p c x))
           | ReportObservedAddr a x \<Rightarrow> Some (k', Some (ReportObservedAddr a x))
           | CloseConnection p x \<Rightarrow> Some (k', Some (CloseConnection p x))))"

text \<open>Peers that mDNS has discovered are added to Kademlia, if that is enabled.\<close>

partial_function (option) mdns_loop ::
  "('kad, 'pid, 'addr, 'kev, 'x, 'hev) kad_ops \<Rightarrow> ('mdns, 'pid, 'addr, 'x) mdns_ops \<Rightarrow>
   'kad option \<Rightarrow> 'mdns \<Rightarrow>
   ('kad option \<times> 'mdns \<times> ('pid discovery_out, 'pid, 'addr, 'x) nb_action option) option" where
  "mdns_loop K M kad m =
     (case m_poll M m of
        (m', None) \<Rightarrow> Some (kad, m', None)
      | (m', Some ev) \<Rightarrow>
          (case ev of
             GenerateEvent e \<Rightarrow>
               mdns_loop K M (case e of Discovered list \<Rightarrow> map_option (add_addresses K list) kad
                 | Expired _ \<Rightarrow> kad) m'
           | DialAddress a x \<Rightarrow> mdns_loop K M kad m'
           | DialPeer p c x \<Rightarrow> mdns_loop K M kad m'
           | NotifyHandler p c x \<Rightarrow> mdns_loop K M kad m'
           | ReportObservedAddr a x \<Rightarrow> Some (kad, m', Some (ReportObservedAddr a x))
           | CloseConnection p x \<Rightarrow> Some (kad, m', Some (CloseConnection p x))))"

definition poll_kademlia ::
  "('kad, 'pid, 'addr, 'kev, 'x, 'hev) kad_ops \<Rightarrow> 'kad option \<Rightarrow>
   ('kad option \<times> ('pid discovery_out, 'pid, 'addr, 'x) nb_action option) option" where
  "poll_kademlia K kad =
     (case kad of None \<Rightarrow> Some (None, None)
      | Some k \<Rightarrow> map_option (\<lambda>(k', a). (Some k', a)) (kad_loop K k))"

definition poll_mdns ::
  "('kad, 'pid, 'addr, 'kev, 'x, 'hev) kad_ops \<Rightarrow> ('mdns, 'pid, 'addr, 'x) mdns_ops \<Rightarrow>
   'kad option \<Rightarrow> 'mdns option \<Rightarrow>
   ('kad option \<times> 'mdns option \<times> ('pid discovery_out, 'pid, 'addr, 'x) nb_action option) option" where
  "poll_mdns K M kad mdns =
     (case mdns of None \<Rightarrow> Some (kad, None, None)
      | Some m \<Rightarrow> map_option (\<lambda>(k, m', a). (k, Some m', a)) (mdns_loop K M kad m))"

definition pop_pending ::
  "('kad, 'mdns, 'pid, 'addr) discovery \<Rightarrow>
   (('kad, 'mdns, 'pid, 'addr) discovery \<times> 'pid discovery_out) option" where
  "pop_pending d =
     (case d_pending_events d of
        [] \<Rightarrow> None
      | ev # evs \<Rightarrow> Some (d\<lparr>d_pending_events := evs\<rparr>, ev))"

definition discovery_poll ::
  "('kad, 'pid, 'addr, 'kev, 'x, 'hev) kad_ops \<Rightarrow> ('mdns, 'pid, 'addr, 'x) mdns_ops \<Rightarrow>
   ('kad, 'mdns, 'pid, 'addr) discovery \<Rightarrow>
   (('kad, 'mdns, 'pid, 'addr) discovery \<times>
      ('pid discovery_out, 'pid, 'addr, 'x) nb_action option) option" where
  "discovery_poll K M d =
     (case pop_pending d of
        Some (d', ev) \<Rightarrow> Some (d', Some (GenerateEvent ev))
      | None \<Rightarrow>
          Option.bind (poll_kademlia K (d_kademlia d)) (\<lambda>(kad, a).
            let d1 = d\<lparr>d_kademlia := kad\<rparr> in
            if a \<noteq> None then Some (d1, a)
            else Option.bind (poll_mdns K M kad (d_mdns d)) (\<lambda>(kad', mdns', a').
              let d2 = d1\<lparr>d_kademlia := kad', d_mdns := mdns'\<rparr> in
              if a' \<noteq> None then Some (d2, a')
              else case pop_pending d2 of
                Some (d', ev) \<Rightarrow> Some (d', Some (GenerateEvent ev))
              | None \<Rightarrow> Some (d2, None))))"

section \<open>What a poll leaves alone\<close>

lemma kad_loop_no_event:
  assumes "kad_loop K k = Some r"
  shows "snd r \<noteq> Some (GenerateEvent e)"
proof (rule kad_loop.raw_induct [where P = "\<lambda>K k r. snd r \<noteq> Some (GenerateEvent e)", OF _ assms])
  fix loop K k r
  assume "\<And>K k r. loop K k = Some r \<Longrightarrow> snd r \<noteq> Some (GenerateEvent e)"
    and "(case k_poll K k of
        (k', None) \<Rightarrow> Some (k', None)
      | (k', Some ev) \<Rightarrow>
          (case ev of
             GenerateEvent _ \<Rightarrow> loop K k'
           | DialAddress a x \<Rightarrow> Some (k', Some (DialAddress a x))
           | DialPeer p c x \<Rightarrow> Some (k', Some (DialPeer p c x))
           | NotifyHandler p c x \<Rightarrow> Some (k', Some (NotifyHandler p c x))
           | ReportObservedAddr a x \<Rightarrow> Some (k', Some (ReportObservedAddr a x))
           | CloseConnection p x \<Rightarrow> Some (k', Some (CloseConnection p x)))) = Some r"
  then show "snd r \<noteq> Some (GenerateEvent e)"
    by (auto split: prod.splits option.splits swarm_action.splits)
qed

lemma mdns_loop_no_event:
  assumes "mdns_loop K M kad m = Some r"
  shows "snd (snd r) \<noteq> Some (GenerateEvent e)"
proof (rule mdns_loop.raw_induct
    [where P = "\<lambda>K M kad m r. snd (snd r) \<noteq> Some (GenerateEvent e)", OF _ assms])
  fix loop K M kad m r
  assume "\<And>K M kad m r. loop K M kad m = Some r \<Longrightarrow> snd (snd r) \<noteq> Some (GenerateEvent e)"
    and "(case m_poll M m of
        (m', None) \<Rightarrow> Some (kad, m', None)
      | (m', Some ev) \<Rightarrow>
          (case ev of
             GenerateEvent ev' \<Rightarrow>
               loop K M (case ev' of Discovered list \<Rightarrow> map_option (add_addresses K list) kad
                 | Expired _ \<Rightarrow> kad) m'
           | DialAddress a x \<Rightarrow> loop K M kad m'
           | DialPeer p c x \<Rightarrow> loop K M kad m'
           | NotifyHandler p c x \<Rightarrow> loop K M kad m'
           | ReportObservedAddr a x \<Rightarrow> Some (kad, m', Some (ReportObservedAddr a x))
           | CloseConnection p x \<Rightarrow> Some (kad, m', Some (CloseConnection p x)))) = Some r"
  then show "snd (snd r) \<noteq> Some (GenerateEvent e)"
    by (auto split: prod.splits option.splits swarm_action.splits)
qed

lemma pop_pending_Some:
  "pop_pending d = Some (d', ev) \<longleftrightarrow>
     (\<exists>evs. d_pending_events d = ev # evs \<and> d' = d\<lparr>d_pending_events := evs\<rparr>)"
  by (auto simp: pop_pending_def split: list.splits)

lemma pop_pending_None: "pop_pending d = None \<longleftrightarrow> d_pending_events d = []"
  by (auto simp: pop_pending_def split: list.splits)

text \<open>
  A poll either hands out the first queued event and changes nothing else, or, with an empty queue,
  passes an action of Kademlia or mDNS on or is not ready, and changes only these two.
\<close>

lemma discovery_poll_cases:
  assumes "discovery_poll K M d = Some (d', a)"
  obtains (event) ev evs where "d_pending_events d = ev # evs"
    "d' = d\<lparr>d_pending_events := evs\<rparr>" "a = Some (GenerateEvent ev)"
  | (other) kad mdns where "d_pending_events d = []"
    "d' = d\<lparr>d_kademlia := kad, d_mdns := mdns\<rparr>" "\<And>e. a \<noteq> Some (GenerateEvent e)"
proof (cases "pop_pending d")
  case (Some r)
  obtain d1 ev where r: "r = (d1, ev)" by force
  with Some obtain evs where "d_pending_events d = ev # evs" "d1 = d\<lparr>d_pending_events := evs\<rparr>"
    by (auto simp: pop_pending_Some)
  moreover have "d' = d1" "a = Some (GenerateEvent ev)"
    using assms Some r by (auto simp: discovery_poll_def)
  ultimately show ?thesis using event by blast
next
  case None
  then have empty: "d_pending_events d = []" by (simp add: pop_pending_None)
  from assms None obtain kad b where kad: "poll_kademlia K (d_kademlia d) = Some (kad, b)"
    by (auto simp: discovery_poll_def split: bind_splits)
  have b: "b \<noteq> Some (GenerateEvent e)" for e
    using kad by (auto simp: poll_kademlia_def dest!: kad_loop_no_event [of _ _ _ e] split: option.splits)
  show ?thesis
  proof (cases "b = None")
    case False
    with assms None kad b empty show ?thesis
      by (intro other [where kad = kad and mdns = "d_mdns d"]) (auto simp: discovery_poll_def)
  next
    case True
    with assms None kad obtain kad' mdns c where
      mdns: "poll_mdns K M kad (d_mdns d) = Some (kad', mdns, c)"
      by (auto simp: discovery_poll_def split: bind_splits)
    have c: "c \<noteq> Some (GenerateEvent e)" for e
      using mdns by (auto simp: poll_mdns_def dest!: mdns_loop_no_event [of _ _ _ _ _ e] split: option.splits)
    have "pop_pending (d\<lparr>d_kademlia := kad', d_mdns := mdns\<rparr>) = None"
      by (simp add: pop_pending_None empty)
    with assms None kad True mdns c empty show ?thesis
      by (intro other [where kad = kad' and mdns = mdns]) (auto simp: discovery_poll_def Let_def split: if_splits)
  qed
qed

section \<open>Runs\<close>

text \<open>
  The calls that the swarm makes, as steps: a callback, an event of a connection handler, a
  bootstrap, a poll that returns, and, between calls, a change of what Kademlia and mDNS will see.
\<close>

datatype ('pid, 'hev, 'addr, 'x) discovery_label =
    LNotify "'pid swarm_event"
  | LHandler 'pid 'hev
  | LBootstrap
  | LPoll "('pid discovery_out, 'pid, 'addr, 'x) nb_action option"
  | LEnvironment

inductive discovery_step ::
  "('kad, 'pid, 'addr, 'kev, 'x, 'hev) kad_ops \<Rightarrow> ('mdns, 'pid, 'addr, 'x) mdns_ops \<Rightarrow> bool \<Rightarrow>
   ('kad, 'mdns, 'pid, 'addr) discovery \<Rightarrow> ('pid, 'hev, 'addr, 'x) discovery_label \<Rightarrow>
   ('kad, 'mdns, 'pid, 'addr) discovery \<Rightarrow> bool"
  for K M checks where
  notify: "discovery_notify K M checks ev d = Inr d' \<Longrightarrow> discovery_step K M checks d (LNotify ev) d'"
| handler: "discovery_step K M checks d (LHandler p ev) (discovery_inject_event K p ev d)"
| bootstrap: "discovery_step K M checks d LBootstrap (fst (discovery_bootstrap K d))"
| poll: "discovery_poll K M d = Some (d', a) \<Longrightarrow> discovery_step K M checks d (LPoll a) d'"
| environment: "discovery_step K M checks d LEnvironment
    (d\<lparr>d_kademlia := map_option f (d_kademlia d), d_mdns := map_option g (d_mdns d)\<rparr>)"

inductive_cases notifyE: "discovery_step K M checks d (LNotify ev) d'"
inductive_cases pollE: "discovery_step K M checks d (LPoll a) d'"

inductive_simps discovery_step_poll: "discovery_step K M checks d (LPoll a) d'"

fun discovery_raised :: "('pid, 'hev, 'addr, 'x) discovery_label \<Rightarrow> 'pid discovery_out list" where
  "discovery_raised (LNotify (SwConnected p)) = [Connected p]"
| "discovery_raised (LNotify (SwDisconnected p)) = [Disconnected p]"
| "discovery_raised _ = []"

fun discovery_emitted :: "('pid, 'hev, 'addr, 'x) discovery_label \<Rightarrow> 'pid discovery_out list" where
  "discovery_emitted (LPoll (Some (GenerateEvent ev))) = [ev]"
| "discovery_emitted _ = []"

fun connected_peers :: "('pid, 'hev, 'addr, 'x) discovery_label \<Rightarrow> 'pid set" where
  "connected_peers (LNotify (SwConnected p)) = {p}"
| "connected_peers _ = {}"

text \<open>By how much a step changes the number of connections.\<close>

fun connection_delta :: "('pid, 'hev, 'addr, 'x) discovery_label \<Rightarrow> int" where
  "connection_delta (LNotify (SwConnectionEstablished p)) = 1"
| "connection_delta (LNotify (SwConnectionClosed p)) = - 1"
| "connection_delta _ = 0"

lemma addresses_of_peer_frame [frame_simps]:
  assumes "addresses_of_peer K M p d = (d', as)"
  shows "d_pending_events d' = d_pending_events d" and "d_peers d' = d_peers d"
    and "d_num_connections d' = d_num_connections d" and "d_peer_addresses d' = d_peer_addresses d"
    and "d_user_defined d' = d_user_defined d"
  using assms by (auto simp: addresses_of_peer_def Let_def split: prod.splits)

lemma inject_connected_simps [simp]:
  "d_pending_events (inject_connected K M p d) = d_pending_events d @ [Connected p]"
  "d_peers (inject_connected K M p d) = insert p (d_peers d)"
  "d_num_connections (inject_connected K M p d) = d_num_connections d"
  "d_user_defined (inject_connected K M p d) = d_user_defined d"
  by (auto simp: inject_connected_def notify_kademlia_def frame_simps split: prod.splits)

lemma discovery_notify_Inr:
  assumes "discovery_notify K M checks ev d = Inr d'"
  shows "d_pending_events d' = d_pending_events d @ discovery_raised (LNotify ev)"
    and "d_peers d' = d_peers d \<union> connected_peers (LNotify ev)"
    and "d_num_connections d' = d_num_connections d + of_int (connection_delta (LNotify ev))"
    and "d_user_defined d' = d_user_defined d"
  using assms
  by (cases ev; auto simp: inject_disconnected_def inject_connection_established_def
      inject_connection_closed_def notify_kademlia_def split: if_splits)+

lemma discovery_step_effects:
  assumes "discovery_step K M checks d l d'"
  shows "discovery_emitted l @ d_pending_events d' = d_pending_events d @ discovery_raised l \<and>
    d_peers d' = d_peers d \<union> connected_peers l \<and>
    d_num_connections d' = d_num_connections d + of_int (connection_delta l) \<and>
    d_user_defined d' = d_user_defined d"
  using assms
proof (cases rule: discovery_step.cases)
  case (notify ev)
  with discovery_notify_Inr [OF notify(2)] show ?thesis by simp
next
  case (poll a)
  from poll(2) show ?thesis
  proof (cases rule: discovery_poll_cases)
    case (event ev evs)
    with poll(1) show ?thesis by simp
  next
    case (other kad mdns)
    have "discovery_emitted (LPoll a) = []"
      using other(3) by (cases a; cases "the a") auto
    with other poll(1) show ?thesis by simp
  qed
qed (auto simp: discovery_inject_event_def discovery_bootstrap_def split: option.splits prod.splits)

lemma discovery_step_effect:
  assumes "discovery_step K M checks d l d'"
  shows "discovery_emitted l @ d_pending_events d' = d_pending_events d @ discovery_raised l"
    and "d_peers d' = d_peers d \<union> connected_peers l"
    and "d_num_connections d' = d_num_connections d + of_int (connection_delta l)"
  using discovery_step_effects [OF assms] by blast+

text \<open>With overflow checks the counter is exact: no step takes it below zero or past the limit.\<close>

lemma uint_succ_u64:
  fixes x :: u64
  assumes "x \<noteq> - 1"
  shows "uint (x + 1) = uint x + 1"
proof -
  have "1 + x \<noteq> 0" using assms by (metis add.commute add_eq_0_iff)
  from unatSuc [OF this] show ?thesis by (simp add: uint_nat add.commute del: of_nat_unat)
qed

lemma uint_pred_u64:
  fixes x :: u64
  assumes "x \<noteq> 0"
  shows "uint (x - 1) = uint x - 1"
proof -
  have "0 < unat x" using assms by (simp add: unat_gt_0)
  with unat_minus_one [OF assms] show ?thesis by (simp add: uint_nat of_nat_diff Suc_leI del: of_nat_unat)
qed

lemma discovery_notify_exact:
  assumes "discovery_notify K M True ev d = Inr d'"
  shows "int (unat (d_num_connections d')) =
    int (unat (d_num_connections d)) + connection_delta (LNotify ev)"
  using assms
  by (cases ev) (auto simp: inject_disconnected_def inject_connection_established_def
      inject_connection_closed_def notify_kademlia_def uint_succ_u64 uint_pred_u64 split: if_splits)

lemma discovery_step_exact:
  assumes "discovery_step K M True d l d'"
  shows "int (unat (d_num_connections d')) = int (unat (d_num_connections d)) + connection_delta l"
  using assms
proof (cases rule: discovery_step.cases)
  case (notify ev)
  with discovery_notify_exact show ?thesis by blast
next
  case (poll a)
  from poll(2) poll(1) show ?thesis by (cases rule: discovery_poll_cases) simp_all
qed (auto simp: discovery_inject_event_def discovery_bootstrap_def split: option.splits prod.splits)

lemma discovery_poll_enabled:
  "d_pending_events d = e # es \<Longrightarrow>
     \<exists>d'. discovery_step K M checks d (LPoll (Some (GenerateEvent e))) d'"
  by (rule exI, rule discovery_step.poll [where d' = "d\<lparr>d_pending_events := es\<rparr>"])
    (simp add: discovery_poll_def pop_pending_def)

lemma discovery_poll_pops:
  "d_pending_events d = e # es \<Longrightarrow>
     discovery_step K M checks d (LPoll (Some (GenerateEvent e))) d' \<Longrightarrow> d_pending_events d' = es"
  by (drule discovery_step_effect(1)) simp

interpretation discovery_queue: polled_queue "discovery_step K M checks" d_pending_events
    discovery_raised discovery_emitted "\<lambda>e. LPoll (Some (GenerateEvent e))" for K M checks
  by unfold_locales
    (blast intro: discovery_step_effect(1) discovery_poll_enabled discovery_poll_pops
      discovery_emitted.simps(1))+

section \<open>When a poll returns\<close>

text \<open>A loop that polls comes to rest when finitely many swallowed results precede one that ends it.\<close>

inductive loop_rests :: "('a \<Rightarrow> bool) \<Rightarrow> ('s \<Rightarrow> 's \<times> 'a option) \<Rightarrow> 's \<Rightarrow> bool"
  for swallows step_poll where
  stops: "\<not> (\<exists>a. snd (step_poll s) = Some a \<and> swallows a) \<Longrightarrow> loop_rests swallows step_poll s"
| again: "step_poll s = (s', Some a) \<Longrightarrow> swallows a \<Longrightarrow> loop_rests swallows step_poll s' \<Longrightarrow>
    loop_rests swallows step_poll s"

inductive_cases loop_restsE: "loop_rests swallows step_poll s"

fun kad_swallows :: "('out, 'pid, 'addr, 'x) nb_action \<Rightarrow> bool" where
  "kad_swallows (GenerateEvent e) = True"
| "kad_swallows _ = False"

fun mdns_swallows :: "('out, 'pid, 'addr, 'x) nb_action \<Rightarrow> bool" where
  "mdns_swallows (ReportObservedAddr a x) = False"
| "mdns_swallows (CloseConnection p x) = False"
| "mdns_swallows _ = True"

lemma kad_loop_returns: "kad_loop K k \<noteq> None \<longleftrightarrow> loop_rests kad_swallows (k_poll K) k"
proof
  assume "loop_rests kad_swallows (k_poll K) k"
  then show "kad_loop K k \<noteq> None"
  proof induction
    case (stops k)
    then show ?case
      by (subst kad_loop.simps) (auto split: prod.splits option.splits swarm_action.splits)
  next
    case (again k k' a)
    then show ?case
      by (subst kad_loop.simps) (auto elim: kad_swallows.elims)
  qed
next
  assume "kad_loop K k \<noteq> None"
  then obtain r where "kad_loop K k = Some r" by blast
  then show "loop_rests kad_swallows (k_poll K) k"
  proof (rule kad_loop.raw_induct [where P = "\<lambda>K k r. loop_rests kad_swallows (k_poll K) k", rotated])
    fix loop K k r
    assume IH: "\<And>K k r. loop K k = Some r \<Longrightarrow> loop_rests kad_swallows (k_poll K) k"
      and body: "(case k_poll K k of
        (k', None) \<Rightarrow> Some (k', None)
      | (k', Some ev) \<Rightarrow>
          (case ev of
             GenerateEvent _ \<Rightarrow> loop K k'
           | DialAddress a x \<Rightarrow> Some (k', Some (DialAddress a x))
           | DialPeer p c x \<Rightarrow> Some (k', Some (DialPeer p c x))
           | NotifyHandler p c x \<Rightarrow> Some (k', Some (NotifyHandler p c x))
           | ReportObservedAddr a x \<Rightarrow> Some (k', Some (ReportObservedAddr a x))
           | CloseConnection p x \<Rightarrow> Some (k', Some (CloseConnection p x)))) = Some r"
    obtain k' a where p: "k_poll K k = (k', a)" by force
    show "loop_rests kad_swallows (k_poll K) k"
    proof (cases "\<exists>e. a = Some (GenerateEvent e)")
      case True
      with body p IH [of K k' r] show ?thesis by (auto intro: loop_rests.again)
    next
      case False
      then have "\<not> (\<exists>b. a = Some b \<and> kad_swallows b)" by (auto elim: kad_swallows.elims)
      with p show ?thesis by (simp add: loop_rests.stops)
    qed
  qed
qed

lemma mdns_loop_returns: "mdns_loop K M kad m \<noteq> None \<longleftrightarrow> loop_rests mdns_swallows (m_poll M) m"
proof
  assume "loop_rests mdns_swallows (m_poll M) m"
  then show "mdns_loop K M kad m \<noteq> None"
  proof (induction arbitrary: kad)
    case (stops m)
    then show ?case
      by (subst mdns_loop.simps) (auto split: prod.splits option.splits swarm_action.splits)
  next
    case (again m m' a)
    then show ?case
      by (subst mdns_loop.simps) (cases a; simp)
  qed
next
  assume "mdns_loop K M kad m \<noteq> None"
  then obtain r where "mdns_loop K M kad m = Some r" by blast
  then show "loop_rests mdns_swallows (m_poll M) m"
  proof (rule mdns_loop.raw_induct
      [where P = "\<lambda>K M kad m r. loop_rests mdns_swallows (m_poll M) m", rotated])
    fix loop K M kad m r
    assume IH: "\<And>K M kad m r. loop K M kad m = Some r \<Longrightarrow> loop_rests mdns_swallows (m_poll M) m"
      and body: "(case m_poll M m of
        (m', None) \<Rightarrow> Some (kad, m', None)
      | (m', Some ev) \<Rightarrow>
          (case ev of
             GenerateEvent ev' \<Rightarrow>
               loop K M (case ev' of Discovered list \<Rightarrow> map_option (add_addresses K list) kad
                 | Expired _ \<Rightarrow> kad) m'
           | DialAddress a x \<Rightarrow> loop K M kad m'
           | DialPeer p c x \<Rightarrow> loop K M kad m'
           | NotifyHandler p c x \<Rightarrow> loop K M kad m'
           | ReportObservedAddr a x \<Rightarrow> Some (kad, m', Some (ReportObservedAddr a x))
           | CloseConnection p x \<Rightarrow> Some (kad, m', Some (CloseConnection p x)))) = Some r"
    obtain m' a where p: "m_poll M m = (m', a)" by force
    show "loop_rests mdns_swallows (m_poll M) m"
    proof (cases "\<exists>b. a = Some b \<and> mdns_swallows b")
      case True
      then obtain b where b: "a = Some b" "mdns_swallows b" by blast
      then have "\<exists>kad'. loop K M kad' m' = Some r" using body p by (cases b) auto
      with IH have "loop_rests mdns_swallows (m_poll M) m'" by blast
      with p b show ?thesis by (auto intro: loop_rests.again)
    next
      case False
      with p show ?thesis by (simp add: loop_rests.stops)
    qed
  qed
qed

section \<open>Properties\<close>

text \<open>A sample of Kademlia and mDNS: each has a number of events left, then it is not ready.\<close>

definition sample_kad :: "(nat, nat, unit multiaddr, unit, unit, unit) kad_ops" where
  "sample_kad = \<lparr>k_new = (\<lambda>_. 0), k_add_address = (\<lambda>k _ _. Suc k),
     k_bootstrap = (\<lambda>k. (k, Inr 0)), k_addresses_of_peer = (\<lambda>k _. (k, [])), k_notify = (\<lambda>k _. k),
     k_inject_event = (\<lambda>k _ _. k),
     k_poll = (\<lambda>k. case k of 0 \<Rightarrow> (0, None) | Suc n \<Rightarrow> (n, Some (GenerateEvent ())))\<rparr>"

definition sample_mdns :: "(nat, nat, unit multiaddr, unit) mdns_ops" where
  "sample_mdns = \<lparr>m_start = Some 1, m_addresses_of_peer = (\<lambda>m _. (m, [])),
     m_poll = (\<lambda>m. case m of 0 \<Rightarrow> (0, None)
       | Suc n \<Rightarrow> (n, Some (GenerateEvent (Discovered [(7, [])]))))\<rparr>"

definition sample_params :: "(nat, unit) params" where
  "sample_params = \<lparr>pm_listen_address = [], pm_mdns = True, pm_kademlia = True,
     pm_rooms = [\<lparr>ra_id = RoomId ''ab'', ra_max_size = 2,
       ra_boot_peers = [\<lparr>mwp_multiaddr = [], mwp_peer_id = 4\<rparr>], ra_inbound_queue = None\<rparr>]\<rparr>"

definition sample_discovery :: "(nat, nat, nat, unit multiaddr) discovery" where
  "sample_discovery = \<lparr>d_user_defined = [(4, [])], d_kademlia = Some 1, d_mdns = Some 1,
     d_pending_events = [], d_num_connections = 0, d_peers = {4}, d_peer_addresses = Map.empty\<rparr>"

lemma sample_discovery_new: "discovery_new sample_kad sample_mdns 9 sample_params = Inr sample_discovery"
  by (simp add: discovery_new_def boot_addresses_def add_addresses_def sample_kad_def sample_mdns_def
      sample_params_def sample_discovery_def Let_def)

lemma discovery_new_Inr:
  assumes "discovery_new K M local pm = Inr d"
  shows "d_pending_events d = []" and "d_num_connections d = 0"
    and "d_peers d = (if pm_kademlia pm then set (map fst (boot_addresses pm)) else {})"
  using assms by (clarsimp simp: discovery_new_def Let_def split: if_splits)+

text \<open>The peers that a run has seen connect.\<close>

lemma run_peers:
  "run (discovery_step K M checks) d ls d' \<Longrightarrow>
     d_peers d' = d_peers d \<union> (\<Union>l \<in> set ls. connected_peers l)"
  by (induction rule: run.induct) (auto dest: discovery_step_effect(2))

lemma emitted_polls:
  "concat (map discovery_emitted (map LPoll (map (\<lambda>e. Some (GenerateEvent e)) es))) = es"
  by (induction es) simp_all

lemma connected_peers_iff: "p \<in> connected_peers l \<longleftrightarrow> l = LNotify (SwConnected p)"
  by (cases l rule: connected_peers.cases) auto

text \<open>
  C23: Which peers a node knows. Whatever calls, events and polls have happened since its creation,
  the set of known peers, to which every broadcast goes, is exactly the boot peers (if Kademlia is
  enabled) together with every peer that was ever connected. In particular nothing, a disconnection
  included, ever takes a peer out, and what mDNS or Kademlia discover does not put one in.
\<close>

theorem discovery_known_peers:
  assumes "discovery_new K M local pm = Inr d0"
    and "run (discovery_step K M checks) d0 ls d"
  shows "d_peers d = (if pm_kademlia pm then set (map fst (boot_addresses pm)) else {}) \<union>
    {p. LNotify (SwConnected p) \<in> set ls}"
  using run_peers [OF assms(2)] discovery_new_Inr(3) [OF assms(1)]
  by (auto simp: connected_peers_iff)

lemma sample_connect_disconnect:
  "\<exists>d. run (discovery_step sample_kad sample_mdns True) sample_discovery
      [LNotify (SwConnectionEstablished 5), LNotify (SwConnected 5), LNotify (SwConnectionClosed 5),
       LNotify (SwDisconnected 5)] d"
  by (auto simp: run_Cons_iff discovery_step.simps [of _ _ _ _ "LNotify _"]
      inject_connection_established_def inject_connection_closed_def notify_kademlia_def
      inject_connected_def addresses_of_peer_def sample_discovery_def split: prod.splits)

theorem discovery_known_peers_witness:
  "\<exists>d. run (discovery_step sample_kad sample_mdns True) sample_discovery
      [LNotify (SwConnectionEstablished 5), LNotify (SwConnected 5), LNotify (SwConnectionClosed 5),
       LNotify (SwDisconnected 5)] d \<and> d_peers d = {4, 5}"
proof -
  obtain d where d: "run (discovery_step sample_kad sample_mdns True) sample_discovery
      [LNotify (SwConnectionEstablished 5), LNotify (SwConnected 5), LNotify (SwConnectionClosed 5),
       LNotify (SwDisconnected 5)] d"
    using sample_connect_disconnect by blast
  from discovery_known_peers [OF sample_discovery_new d] have "d_peers d = {4, 5}"
    by (auto simp: sample_params_def boot_addresses_def)
  with d show ?thesis by blast
qed

text \<open>
  Every connection event reaches the swarm. After any history since the creation of the
  behaviour, what the polls have handed out is an initial part of the events raised, in the order in
  which they were raised and each once; and from there as many further polls as events are queued
  hand out all the remaining ones, whatever Kademlia and mDNS have to say meanwhile.
\<close>

theorem discovery_events_delivered:
  assumes "discovery_new K M local pm = Inr d0"
    and "run (discovery_step K M checks) d0 ls d"
  shows "concat (map discovery_emitted ls) @ d_pending_events d = concat (map discovery_raised ls) \<and>
    (\<exists>polls d'. length polls = length (d_pending_events d) \<and>
       run (discovery_step K M checks) d (map LPoll polls) d' \<and>
       concat (map discovery_emitted (ls @ map LPoll polls)) = concat (map discovery_raised ls))"
proof -
  have fifo: "concat (map discovery_emitted ls) @ d_pending_events d = concat (map discovery_raised ls)"
    using discovery_queue.fifo [OF assms(2)] discovery_new_Inr(1) [OF assms(1)] by simp
  let ?polls = "map (\<lambda>e. Some (GenerateEvent e)) (d_pending_events d)"
  obtain d' where "run (discovery_step K M checks) d (map LPoll ?polls) d'"
    using discovery_queue.drains [of K M checks d] by (auto simp: comp_def)
  moreover have "concat (map discovery_emitted (ls @ map LPoll ?polls)) = concat (map discovery_raised ls)"
    using fifo by (simp only: map_append concat_append emitted_polls)
  ultimately show ?thesis
    using fifo by (intro conjI exI [of _ ?polls] exI [of _ d']) (simp_all only: length_map)
qed

theorem discovery_events_delivered_witness:
  "\<exists>d ls d'. run (discovery_step sample_kad sample_mdns True) sample_discovery
      [LNotify (SwConnectionEstablished 5), LNotify (SwConnected 5), LNotify (SwConnectionClosed 5),
       LNotify (SwDisconnected 5)] d \<and>
     run (discovery_step sample_kad sample_mdns True) d ls d' \<and>
     concat (map discovery_emitted ls) = [Connected 5, Disconnected 5]"
proof -
  obtain d where d: "run (discovery_step sample_kad sample_mdns True) sample_discovery
      [LNotify (SwConnectionEstablished 5), LNotify (SwConnected 5), LNotify (SwConnectionClosed 5),
       LNotify (SwDisconnected 5)] d"
    using sample_connect_disconnect by blast
  from discovery_events_delivered [OF sample_discovery_new d] d show ?thesis
    by (elim conjE exE, intro exI conjI) (assumption, assumption, simp)
qed

text \<open>
  The connection counter. Modulo \<open>2^64\<close> it is the number of connections established minus the
  number closed. With overflow checks it is exactly that number: no callback that has returned took
  it below zero or past the limit.
\<close>

theorem discovery_counts_connections:
  assumes "discovery_new K M local pm = Inr d0"
    and "run (discovery_step K M checks) d0 ls d"
  shows "d_num_connections d = of_int (sum_list (map connection_delta ls)) \<and>
    (checks \<longrightarrow> uint (d_num_connections d) = sum_list (map connection_delta ls))"
proof (intro conjI impI)
  have "d_num_connections d =
      d_num_connections d0 + sum_list (map (\<lambda>l. of_int (connection_delta l)) ls)"
    by (rule run_sum [OF assms(2)]) (rule discovery_step_effect(3))
  moreover have "sum_list (map (\<lambda>l. of_int (connection_delta l) :: u64) ls) =
      of_int (sum_list (map connection_delta ls))"
    by (induction ls) simp_all
  ultimately show "d_num_connections d = of_int (sum_list (map connection_delta ls))"
    using discovery_new_Inr(2) [OF assms(1)] by simp
  assume checks
  with assms(2) have "run (discovery_step K M True) d0 ls d" by simp
  then have "uint (d_num_connections d) =
      uint (d_num_connections d0) + sum_list (map connection_delta ls)"
    by (rule run_sum) (use discovery_step_exact in \<open>simp only: of_nat_unat\<close>)
  then show "uint (d_num_connections d) = sum_list (map connection_delta ls)"
    using discovery_new_Inr(2) [OF assms(1)] by simp
qed

theorem discovery_counts_connections_witness:
  "\<exists>d. run (discovery_step sample_kad sample_mdns True) sample_discovery
      [LNotify (SwConnectionEstablished 5), LNotify (SwConnected 5), LNotify (SwConnectionClosed 5),
       LNotify (SwDisconnected 5)] d \<and> uint (d_num_connections d) = 0"
proof -
  obtain d where d: "run (discovery_step sample_kad sample_mdns True) sample_discovery
      [LNotify (SwConnectionEstablished 5), LNotify (SwConnected 5), LNotify (SwConnectionClosed 5),
       LNotify (SwDisconnected 5)] d"
    using sample_connect_disconnect by blast
  from discovery_counts_connections [OF sample_discovery_new d] d show ?thesis by auto
qed

text \<open>
  C35: When a poll returns. It returns at once when an event is queued. Otherwise it returns exactly
  when Kademlia, if enabled, comes to rest (after finitely many events, which are swallowed, it is
  not ready or has an action to hand on) and, unless Kademlia had an action, mDNS, if enabled, comes
  to rest as well; else the loops never end.
\<close>

theorem discovery_poll_returns:
  "(\<exists>r. discovery_poll K M d = Some r) \<longleftrightarrow>
     d_pending_events d \<noteq> [] \<or>
     (\<forall>k. d_kademlia d = Some k \<longrightarrow> loop_rests kad_swallows (k_poll K) k) \<and>
     ((\<exists>k k' a. d_kademlia d = Some k \<and> kad_loop K k = Some (k', Some a)) \<or>
      (\<forall>m. d_mdns d = Some m \<longrightarrow> loop_rests mdns_swallows (m_poll M) m))"
proof (cases "d_pending_events d = []")
  case False
  then show ?thesis by (auto simp: discovery_poll_def pop_pending_def split: list.splits)
next
  case True
  have pop: "pop_pending (d\<lparr>d_kademlia := k, d_mdns := m\<rparr>) = None" for k m
    by (simp add: pop_pending_None True)
  have mdns: "poll_mdns K M kad (d_mdns d) \<noteq> None \<longleftrightarrow>
      (\<forall>m. d_mdns d = Some m \<longrightarrow> loop_rests mdns_swallows (m_poll M) m)" for kad
    by (cases "d_mdns d")
      (use mdns_loop_returns [of K M kad] in \<open>auto simp: poll_mdns_def\<close>)
  show ?thesis
  proof (cases "poll_kademlia K (d_kademlia d)")
    case None
    then obtain k where "d_kademlia d = Some k" "kad_loop K k = None"
      by (auto simp: poll_kademlia_def split: option.splits)
    with None True kad_loop_returns [of K k] show ?thesis
      by (simp add: discovery_poll_def pop_pending_def)
  next
    case (Some r)
    obtain kad a where r: "r = (kad, a)" by force
    have rests: "\<forall>k. d_kademlia d = Some k \<longrightarrow> loop_rests kad_swallows (k_poll K) k"
      using Some by (auto simp: poll_kademlia_def simp flip: kad_loop_returns)
    have acts: "a \<noteq> None \<longleftrightarrow> (\<exists>k k' b. d_kademlia d = Some k \<and> kad_loop K k = Some (k', Some b))"
      using Some r by (auto simp: poll_kademlia_def split: option.splits)
    show ?thesis
    proof (cases a)
      case None
      have "(\<exists>r. discovery_poll K M d = Some r) \<longleftrightarrow> poll_mdns K M kad (d_mdns d) \<noteq> None"
        using Some r None True pop
        by (cases "poll_mdns K M kad (d_mdns d)") (auto simp: discovery_poll_def pop_pending_def Let_def)
      with mdns rests acts None True show ?thesis by blast
    next
      case (Some b)
      with \<open>poll_kademlia K (d_kademlia d) = Some r\<close> r True
      have "\<exists>r. discovery_poll K M d = Some r"
        by (simp add: discovery_poll_def pop_pending_def)
      with rests acts Some show ?thesis by blast
    qed
  qed
qed

lemma sample_kad_rests: "loop_rests kad_swallows (k_poll sample_kad) k"
  by (induction k) (auto intro: loop_rests.intros simp: sample_kad_def)

lemma sample_mdns_rests: "loop_rests mdns_swallows (m_poll sample_mdns) m"
  by (induction m) (auto intro: loop_rests.intros simp: sample_mdns_def)

theorem discovery_poll_returns_witness:
  "\<exists>r. discovery_poll sample_kad sample_mdns sample_discovery = Some r"
  using discovery_poll_returns [of sample_kad sample_mdns sample_discovery]
    sample_kad_rests sample_mdns_rests by simp

end
