(* ===== verification/Multiplexer.thy ===== *)
theory Multiplexer
  imports Discovery
begin

text \<open>
  The poll of the request multiplexer as a whole (\<open>Broadcast::poll\<close> and the connection handlers in
  \<open>node/network/src/broadcast.rs\<close>): first the responses that have become ready are handed over, then
  every protocol is polled until one has an event or an action for the swarm. \<open>Broadcast\<close> has what is
  done with one response and with one event.

  The contract of libp2p's request-response behaviour is stated over what is known of it from outside
  (\<open>rr_obs\<close>): the outbound requests that have no outcome yet, the inbound requests that were reported
  and have none, and whether inbound requests are accepted. Under that contract the tables of the
  multiplexer mirror its behaviours, no poll panics, and none of the warnings about unexpected
  identifiers is reached.
\<close>

section \<open>Connection handlers\<close>

record ('rr, 'pid, 'addr, 'h, 'iev, 'x) rr_poll_ops =
  rr_new_handler :: "'rr \<Rightarrow> 'rr \<times> 'h"
  rr_poll :: "'rr \<Rightarrow> 'rr \<times> ('pid rr_event, 'pid, 'addr, 'h, 'iev, 'x) swarm_action option"

text \<open>
  A \<open>MultiHandler\<close> is the map from protocol names to handlers; making one from a map cannot fail, as
  the \<open>expect\<close> says.
\<close>

type_synonym 'h multi_handler = "string \<Rightarrow> 'h option"

definition broadcast_new_handler ::
  "('rr, 'pid, 'addr, 'h, 'iev, 'x) rr_poll_ops \<Rightarrow> ('rr, 'pid) broadcast \<Rightarrow>
   ('rr, 'pid) broadcast \<times> 'h multi_handler" where
  "broadcast_new_handler H b =
     (b\<lparr>protocols := (\<lambda>n. map_option (\<lambda>(r, q). (fst (rr_new_handler H r), q)) (protocols b n))\<rparr>,
      (\<lambda>n. map_option (\<lambda>(r, q). snd (rr_new_handler H r)) (protocols b n)))"

definition new_handler_with_replacement ::
  "('rr, 'pid, 'addr, 'h, 'iev, 'x) rr_poll_ops \<Rightarrow> string \<Rightarrow> 'h \<Rightarrow> ('rr, 'pid) broadcast \<Rightarrow>
   ('rr, 'pid) broadcast \<times> 'h multi_handler" where
  "new_handler_with_replacement H protocol handler b =
     (let (b', handlers) = broadcast_new_handler H b in
      (b', if handlers protocol \<noteq> None then handlers(protocol \<mapsto> handler) else handlers))"

definition broadcast_addresses_of_peer :: "'pid \<Rightarrow> 'addr list" where
  "broadcast_addresses_of_peer p = []"

section \<open>Polling\<close>

text \<open>\<open>ready\<close>: the pending responses that resolve during the poll, each with its outcome.\<close>

fun drain_outcomes ::
  "('rr, 'pid, 'ev) rr_ops \<Rightarrow> ('pid pending_response \<times> outgoing_response option) list \<Rightarrow>
   ('rr, 'pid) broadcast \<Rightarrow> ('rr, 'pid) broadcast" where
  "drain_outcomes R [] b = b"
| "drain_outcomes R ((pr, outcome) # ready) b = drain_outcomes R ready (on_outcome R pr outcome b)"

text \<open>
  What the environment contributes to the \<open>i\<close>-th event that a poll handles: the instant, the channel
  that is created, and the channels on which \<open>try_send\<close> succeeds.
\<close>

type_synonym poll_env = "nat \<Rightarrow> nat \<times> chan \<times> (chan \<Rightarrow> bool)"

type_synonym ('rr, 'pid, 'addr, 'h, 'iev, 'x) mux_result =
  "panic + nat \<times> ('rr, 'pid) broadcast \<times> 'pid effect list \<times>
     ('pid broadcast_out, 'pid, 'addr, 'h multi_handler, string \<times> 'iev, 'x) swarm_action option"

text \<open>The \<open>while let\<close> loop over one protocol; it runs for ever when that is ready for ever.\<close>

partial_function (option) protocol_loop ::
  "('rr, 'pid, 'addr, 'h, 'iev, 'x) rr_poll_ops \<Rightarrow> bool \<Rightarrow> poll_env \<Rightarrow> string \<Rightarrow> nat \<Rightarrow> 'pid effect list \<Rightarrow>
   ('rr, 'pid) broadcast \<Rightarrow> ('rr, 'pid, 'addr, 'h, 'iev, 'x) mux_result option" where
  "protocol_loop H dbg E name i es b =
     (case protocols b name of
        None \<Rightarrow> Some (Inr (i, b, es, None))
      | Some (p, q) \<Rightarrow>
          (case rr_poll H p of
             (p', None) \<Rightarrow> Some (Inr (i, b\<lparr>protocols := (protocols b)(name \<mapsto> (p', q))\<rparr>, es, None))
           | (p', Some ev) \<Rightarrow>
               let b = b\<lparr>protocols := (protocols b)(name \<mapsto> (p', q))\<rparr> in
               (case ev of
                  DialAddress a h \<Rightarrow>
                    let (b', hs) = new_handler_with_replacement H name h b
                    in Some (Inr (i, b', es, Some (DialAddress a hs)))
                | DialPeer peer c h \<Rightarrow>
                    let (b', hs) = new_handler_with_replacement H name h b
                    in Some (Inr (i, b', es, Some (DialPeer peer c hs)))
                | NotifyHandler peer c iev \<Rightarrow> Some (Inr (i, b, es, Some (NotifyHandler peer c (name, iev))))
                | ReportObservedAddr a x \<Rightarrow> Some (Inr (i, b, es, Some (ReportObservedAddr a x)))
                | CloseConnection peer x \<Rightarrow> Some (Inr (i, b, es, Some (CloseConnection peer x)))
                | GenerateEvent ev \<Rightarrow>
                    (case on_event dbg (fst (E i)) (fst (snd (E i))) (snd (snd (E i))) name ev b of
                       Inl pn \<Rightarrow> Some (Inl pn)
                     | Inr (b', es', None) \<Rightarrow> protocol_loop H dbg E name (Suc i) (es @ es') b'
                     | Inr (b', es', Some out) \<Rightarrow>
                         Some (Inr (Suc i, b', es @ es', Some (GenerateEvent out)))))))"

fun poll_protocols ::
  "('rr, 'pid, 'addr, 'h, 'iev, 'x) rr_poll_ops \<Rightarrow> bool \<Rightarrow> poll_env \<Rightarrow> string list \<Rightarrow> nat \<Rightarrow> 'pid effect list \<Rightarrow>
   ('rr, 'pid) broadcast \<Rightarrow> ('rr, 'pid, 'addr, 'h, 'iev, 'x) mux_result option" where
  "poll_protocols H dbg E [] i es b = Some (Inr (i, b, es, None))"
| "poll_protocols H dbg E (name # names) i es b =
     Option.bind (protocol_loop H dbg E name i es b) (\<lambda>r.
       case r of
         Inr (i', b', es', None) \<Rightarrow> poll_protocols H dbg E names i' es' b'
       | _ \<Rightarrow> Some r)"

text \<open>\<open>order\<close> is the order of iteration over the hash map of protocols.\<close>

definition broadcast_poll ::
  "('rr, 'pid, 'ev) rr_ops \<Rightarrow> ('rr, 'pid, 'addr, 'h, 'iev, 'x) rr_poll_ops \<Rightarrow> bool \<Rightarrow>
   (string set \<Rightarrow> string list) \<Rightarrow> poll_env \<Rightarrow>
   ('pid pending_response \<times> outgoing_response option) list \<Rightarrow> ('rr, 'pid) broadcast \<Rightarrow>
   ('rr, 'pid, 'addr, 'h, 'iev, 'x) mux_result option" where
  "broadcast_poll R H dbg order E ready b =
     poll_protocols H dbg E (order (dom (protocols b))) 0 [] (drain_outcomes R ready b)"

section \<open>The contract of the behaviours\<close>

record rr_obs =
  ob_open :: "request_id set"
  ob_inbound :: "request_id set"
  ob_accepts :: bool

text \<open>Whether an event may be reported, and what is known after it.\<close>

fun may_report :: "'pid rr_event \<Rightarrow> rr_obs \<Rightarrow> bool" where
  "may_report (RequestReceived peer rid m c) v \<longleftrightarrow> ob_accepts v \<and> rid \<notin> ob_inbound v"
| "may_report (ResponseReceived peer rid r) v \<longleftrightarrow> rid \<in> ob_open v"
| "may_report (OutboundFailure peer rid e) v \<longleftrightarrow> rid \<in> ob_open v"
| "may_report (InboundFailure peer rid e) v \<longleftrightarrow> True"
| "may_report (ResponseSent peer rid) v \<longleftrightarrow> rid \<in> ob_inbound v"

fun after_event :: "'pid rr_event \<Rightarrow> rr_obs \<Rightarrow> rr_obs" where
  "after_event (RequestReceived peer rid m c) v = v\<lparr>ob_inbound := insert rid (ob_inbound v)\<rparr>"
| "after_event (ResponseReceived peer rid r) v = v\<lparr>ob_open := ob_open v - {rid}\<rparr>"
| "after_event (OutboundFailure peer rid e) v = v\<lparr>ob_open := ob_open v - {rid}\<rparr>"
| "after_event (InboundFailure peer rid e) v = v\<lparr>ob_inbound := ob_inbound v - {rid}\<rparr>"
| "after_event (ResponseSent peer rid) v = v\<lparr>ob_inbound := ob_inbound v - {rid}\<rparr>"

text \<open>
  What libp2p documents: a new behaviour has no requests and accepts inbound ones only with full
  support; an outbound request gets an identifier that no open request has; it stays open until its
  one response or failure is reported; an inbound request is reported before its response is; and
  nothing else opens or closes requests.
\<close>

definition rr_contract ::
  "('rr, 'pid, 'ev) rr_ops \<Rightarrow> ('rr, 'pid, 'addr, 'h, 'iev, 'x) rr_poll_ops \<Rightarrow> ('rr \<Rightarrow> rr_obs) \<Rightarrow> bool" where
  "rr_contract R H view \<longleftrightarrow>
     (\<forall>c n s t k. ob_open (view (rr_new R c n s t k)) = {} \<and> ob_inbound (view (rr_new R c n s t k)) = {} \<and>
        (ob_accepts (view (rr_new R c n s t k)) \<longrightarrow> s = FullSupport)) \<and>
     (\<forall>s p m. snd (rr_send_request R s p m) \<notin> ob_open (view s) \<and>
        view (fst (rr_send_request R s p m)) =
          (view s)\<lparr>ob_open := insert (snd (rr_send_request R s p m)) (ob_open (view s))\<rparr>) \<and>
     (\<forall>s c r. view (fst (rr_send_response R s c r)) = view s) \<and>
     (\<forall>s ev. view (rr_notify R s ev) = view s) \<and>
     (\<forall>s p ev. view (rr_inject_event R s p ev) = view s) \<and>
     (\<forall>s. view (fst (rr_new_handler H s)) = view s) \<and>
     (\<forall>s. case snd (rr_poll H s) of
        Some (GenerateEvent ev) \<Rightarrow> may_report ev (view s) \<and> view (fst (rr_poll H s)) = after_event ev (view s)
      | _ \<Rightarrow> view (fst (rr_poll H s)) = view s)"

lemma rr_contractD:
  assumes "rr_contract R H view"
  shows "ob_open (view (rr_new R c n s t k)) = {}" "ob_inbound (view (rr_new R c n s t k)) = {}"
    and "ob_accepts (view (rr_new R c n s t k)) \<Longrightarrow> s = FullSupport"
    and "rr_send_request R p target m = (p', rid) \<Longrightarrow>
      rid \<notin> ob_open (view p) \<and> view p' = (view p)\<lparr>ob_open := insert rid (ob_open (view p))\<rparr>"
    and "rr_send_response R p ch r = (p', sent) \<Longrightarrow> view p' = view p"
    and "view (rr_notify R p sev) = view p" and "view (rr_inject_event R p peer hev) = view p"
    and "view (fst (rr_new_handler H p)) = view p"
    and "rr_poll H p = (p', Some (GenerateEvent ev)) \<Longrightarrow>
      may_report ev (view p) \<and> view p' = after_event ev (view p)"
    and "rr_poll H p = (p', a) \<Longrightarrow> \<not> (\<exists>ev. a = Some (GenerateEvent ev)) \<Longrightarrow> view p' = view p"
proof -
  note c = assms [unfolded rr_contract_def]
  show "ob_open (view (rr_new R c n s t k)) = {}" "ob_inbound (view (rr_new R c n s t k)) = {}"
    using c by blast+
  show "ob_accepts (view (rr_new R c n s t k)) \<Longrightarrow> s = FullSupport" using c by blast
  show "rr_send_request R p target m = (p', rid) \<Longrightarrow>
      rid \<notin> ob_open (view p) \<and> view p' = (view p)\<lparr>ob_open := insert rid (ob_open (view p))\<rparr>"
    using c by (metis fst_conv snd_conv)
  show "rr_send_response R p ch r = (p', sent) \<Longrightarrow> view p' = view p" using c by (metis fst_conv)
  show "view (rr_notify R p sev) = view p" "view (rr_inject_event R p peer hev) = view p"
    "view (fst (rr_new_handler H p)) = view p" using c by blast+
  have poll: "case snd (rr_poll H p) of
        Some (GenerateEvent ev) \<Rightarrow> may_report ev (view p) \<and> view (fst (rr_poll H p)) = after_event ev (view p)
      | _ \<Rightarrow> view (fst (rr_poll H p)) = view p" using c by blast
  then show "rr_poll H p = (p', Some (GenerateEvent ev)) \<Longrightarrow>
      may_report ev (view p) \<and> view p' = after_event ev (view p)" by simp
  show "rr_poll H p = (p', a) \<Longrightarrow> \<not> (\<exists>ev. a = Some (GenerateEvent ev)) \<Longrightarrow> view p' = view p"
    using poll by (auto split: option.splits swarm_action.splits)
qed

section \<open>The tables mirror the behaviours\<close>

text \<open>
  Of every registered protocol exactly the open outbound requests are outstanding and exactly the
  reported inbound requests have an arrival time; only protocols with an inbound queue accept
  requests; there are no entries of protocols that are not registered.
\<close>

definition mirrors :: "('rr \<Rightarrow> rr_obs) \<Rightarrow> ('rr, 'pid) broadcast \<Rightarrow> string \<Rightarrow> bool" where
  "mirrors view b name \<longleftrightarrow>
     (case protocols b name of
        None \<Rightarrow> (\<forall>rid. pending_requests b (name, rid) = None \<and>
          pending_responses_arrival_time b (name, rid) = None)
      | Some (p, q) \<Rightarrow>
          (\<forall>rid. (pending_requests b (name, rid) = None \<longleftrightarrow> rid \<notin> ob_open (view p)) \<and>
             (pending_responses_arrival_time b (name, rid) = None \<longleftrightarrow> rid \<notin> ob_inbound (view p))) \<and>
          (ob_accepts (view p) \<longrightarrow> q \<noteq> None))"

definition mux_inv :: "('rr \<Rightarrow> rr_obs) \<Rightarrow> ('rr, 'pid) broadcast \<Rightarrow> bool" where
  "mux_inv view b \<longleftrightarrow> finite (dom (protocols b)) \<and> (\<forall>name. mirrors view b name)"

lemma mux_inv_registered:
  assumes "mux_inv view b" and "protocols b name = Some (p, q)"
  shows "pending_requests b (name, rid) = None \<longleftrightarrow> rid \<notin> ob_open (view p)"
    and "pending_responses_arrival_time b (name, rid) = None \<longleftrightarrow> rid \<notin> ob_inbound (view p)"
    and "ob_accepts (view p) \<Longrightarrow> q \<noteq> None"
proof -
  from assms(1) have "mirrors view b name" by (simp add: mux_inv_def)
  with assms(2) show "pending_requests b (name, rid) = None \<longleftrightarrow> rid \<notin> ob_open (view p)"
    and "pending_responses_arrival_time b (name, rid) = None \<longleftrightarrow> rid \<notin> ob_inbound (view p)"
    and "ob_accepts (view p) \<Longrightarrow> q \<noteq> None" by (auto simp: mirrors_def)
qed

text \<open>
  A step on one protocol keeps the invariant if the tables change for that protocol only, and in the
  way in which what is known of its behaviour changes.
\<close>

lemma mux_inv_step:
  assumes inv: "mux_inv view b" and p: "protocols b name = Some (p, q)"
    and p': "protocols b' = (protocols b)(name \<mapsto> (p', q))"
    and other: "\<And>n rid. n \<noteq> name \<Longrightarrow> pending_requests b' (n, rid) = pending_requests b (n, rid) \<and>
      pending_responses_arrival_time b' (n, rid) = pending_responses_arrival_time b (n, rid)"
    and mine: "\<And>rid. pending_requests b' (name, rid) = None \<longleftrightarrow> rid \<notin> ob_open (view p')"
      "\<And>rid. pending_responses_arrival_time b' (name, rid) = None \<longleftrightarrow> rid \<notin> ob_inbound (view p')"
    and acc: "ob_accepts (view p') = ob_accepts (view p)"
  shows "mux_inv view b'"
  unfolding mux_inv_def
proof (intro conjI allI)
  show "finite (dom (protocols b'))" using inv by (simp add: mux_inv_def p')
next
  fix n
  show "mirrors view b' n"
  proof (cases "n = name")
    case True
    have "ob_accepts (view p) \<longrightarrow> q \<noteq> None" using mux_inv_registered(3) [OF inv p] by blast
    with True show ?thesis by (simp add: mirrors_def p' mine acc)
  next
    case False
    from inv have "mirrors view b n" by (simp add: mux_inv_def)
    with False other [OF False] show ?thesis
      by (cases "protocols b n") (auto simp: mirrors_def p')
  qed
qed

section \<open>Every operation keeps the tables true\<close>

lemma broadcast_new_entries:
  "fold_may (register_protocol R) list ps = Inr ps' \<Longrightarrow> ps' n = Some (r, q) \<Longrightarrow>
     ps n = Some (r, q) \<or> (\<exists>c t k. r = rr_new R c n (if q \<noteq> None then FullSupport else OutboundSupport) t k)"
proof (induction list arbitrary: ps)
  case Nil
  then show ?case by simp
next
  case (Cons p list)
  let ?r = "rr_new R \<lparr>max_request_size = pc_max_request_size p, max_response_size = pc_max_response_size p\<rparr>
      (pc_name p) (if pc_inbound_queue p \<noteq> None then FullSupport else OutboundSupport)
      (pc_request_timeout p) (pc_request_timeout p + 10)"
  have fresh: "ps (pc_name p) = None"
    using Cons.prems(1) register_protocol_simps(2) [of ps p _ R] by (cases "ps (pc_name p)") fastforce+
  then have reg: "register_protocol R p ps = Inr (ps(pc_name p \<mapsto> (?r, pc_inbound_queue p)))"
    by (simp add: register_protocol_def Let_def)
  with Cons.prems(1)
  have "fold_may (register_protocol R) list (ps(pc_name p \<mapsto> (?r, pc_inbound_queue p))) = Inr ps'" by simp
  from Cons.IH [OF this Cons.prems(2)]
  consider "(ps(pc_name p \<mapsto> (?r, pc_inbound_queue p))) n = Some (r, q)"
    | "\<exists>c t k. r = rr_new R c n (if q \<noteq> None then FullSupport else OutboundSupport) t k" by blast
  then show ?case
  proof cases
    case 1
    show ?thesis
    proof (cases "n = pc_name p")
      case True
      with 1 have "r = ?r" "q = pc_inbound_queue p" by (simp_all split: if_splits)
      with True show ?thesis by blast
    next
      case False
      with 1 show ?thesis by (simp split: if_splits)
    qed
  qed blast
qed

lemma mux_inv_new:
  assumes "rr_contract R H view" and "broadcast_new R cfgs = Inr b"
  shows "mux_inv view b"
proof -
  from assms(2) obtain ps where ps: "fold_may (register_protocol R) cfgs Map.empty = Inr ps"
    and b: "b = \<lparr>protocols = ps, pending_requests = Map.empty, pending_responses = [],
      pending_responses_arrival_time = Map.empty, send_feedback = Map.empty\<rparr>"
    by (auto simp: broadcast_new_def split: sum.splits)
  have "finite (dom ps)" using register_all_Inr [OF ps] by simp
  moreover have "mirrors view b n" for n
  proof (cases "ps n")
    case (Some e)
    obtain r q where e: "e = (r, q)" by force
    with broadcast_new_entries [OF ps] Some obtain c t k where
      "r = rr_new R c n (if q \<noteq> None then FullSupport else OutboundSupport) t k" by fastforce
    with rr_contractD(1-3) [OF assms(1)] have "ob_open (view r) = {}" "ob_inbound (view r) = {}"
      "ob_accepts (view r) \<longrightarrow> q \<noteq> None"
      by (simp_all, metis protocol_support.distinct(1))
    with Some e show ?thesis by (simp add: mirrors_def b)
  qed (simp add: mirrors_def b)
  ultimately show ?thesis by (simp add: mux_inv_def b)
qed

text \<open>A change of the states of the behaviours that leaves open what is known of them.\<close>

lemma mux_inv_unseen:
  assumes "mux_inv view b" and "\<And>n. protocols b' n = map_option (\<lambda>(p, q). (f n p, q)) (protocols b n)"
    and "\<And>n p. view (f n p) = view p" and "pending_requests b' = pending_requests b"
    and "pending_responses_arrival_time b' = pending_responses_arrival_time b"
  shows "mux_inv view b' \<and> dom (protocols b') = dom (protocols b)"
proof -
  have "mirrors view b' n" for n
  proof -
    from assms(1) have "mirrors view b n" by (simp add: mux_inv_def)
    then show ?thesis
      by (cases "protocols b n") (simp_all add: mirrors_def assms(2,3) assms(4,5) split_beta)
  qed
  moreover have "dom (protocols b') = dom (protocols b)" by (auto simp: domIff assms(2))
  ultimately show ?thesis using assms(1) by (simp add: mux_inv_def)
qed

lemma mux_inv_notify:
  assumes "rr_contract R H view" and "mux_inv view b"
  shows "mux_inv view (broadcast_notify R sev b) \<and>
    dom (protocols (broadcast_notify R sev b)) = dom (protocols b)"
  by (rule mux_inv_unseen [OF assms(2), where f = "\<lambda>n p. rr_notify R p sev"])
     (simp_all add: broadcast_notify_def rr_contractD(6) [OF assms(1)])

lemma mux_inv_inject:
  assumes "rr_contract R H view" and "mux_inv view b"
  shows "mux_inv view (broadcast_inject_event R peer name hev b) \<and>
    dom (protocols (broadcast_inject_event R peer name hev b)) = dom (protocols b)"
proof (rule mux_inv_unseen [OF assms(2)])
  fix n
  show "protocols (broadcast_inject_event R peer name hev b) n =
      map_option (\<lambda>(p, q). (if n = name then rr_inject_event R p peer hev else p, q)) (protocols b n)"
    by (cases "protocols b n"; cases "protocols b name") (auto simp: broadcast_inject_event_def)
qed (auto simp: broadcast_inject_event_def rr_contractD(7) [OF assms(1)] split: option.split)

lemma mux_inv_handlers:
  assumes "rr_contract R H view" and "mux_inv view b"
    and "new_handler_with_replacement H name h b = (b', hs)"
  shows "mux_inv view b' \<and> dom (protocols b') = dom (protocols b) \<and> dom hs = dom (protocols b) \<and>
    (name \<in> dom (protocols b) \<longrightarrow> hs name = Some h)"
proof -
  have "mux_inv view b' \<and> dom (protocols b') = dom (protocols b)"
    by (rule mux_inv_unseen [OF assms(2), where f = "\<lambda>n p. fst (rr_new_handler H p)"])
       (use assms(3) in \<open>auto simp: new_handler_with_replacement_def broadcast_new_handler_def
          rr_contractD(8) [OF assms(1)]\<close>)
  moreover have "dom hs = dom (protocols b)" and "name \<in> dom (protocols b) \<longrightarrow> hs name = Some h"
    using assms(3)
    by (auto simp: new_handler_with_replacement_def broadcast_new_handler_def domIff split: if_splits)
  ultimately show ?thesis by blast
qed

lemma mux_inv_outcome:
  assumes "rr_contract R H view" and "mux_inv view b"
  shows "mux_inv view (on_outcome R pr outcome b) \<and>
    dom (protocols (on_outcome R pr outcome b)) = dom (protocols b)"
proof -
  let ?b = "on_outcome R pr outcome b"
  let ?f = "\<lambda>n p. case outcome of Some resp \<Rightarrow> (case or_result resp of
      Inr payload \<Rightarrow> if n = pr_protocol pr then fst (rr_send_response R p (pr_channel pr) payload) else p
    | Inl _ \<Rightarrow> p) | None \<Rightarrow> p"
  have "view (?f n p) = view p" for n p
    using rr_contractD(5) [OF assms(1)]
    by (auto split: option.split sum.split) (metis prod.collapse)
  moreover have "pending_requests ?b = pending_requests b"
    "pending_responses_arrival_time ?b = pending_responses_arrival_time b"
    by (auto simp: on_outcome_def Let_def split: option.splits sum.splits unit.splits prod.splits)
  moreover have "protocols ?b n = map_option (\<lambda>(p, q). (?f n p, q)) (protocols b n)" for n
    by (cases outcome; cases "protocols b n"; cases "protocols b (pr_protocol pr)")
       (auto simp: on_outcome_def Let_def split: option.splits sum.splits unit.splits prod.splits)
  ultimately show ?thesis by (intro mux_inv_unseen [OF assms(2), where f = ?f]) auto
qed

lemma mux_inv_drain:
  assumes "rr_contract R H view" and "mux_inv view b"
  shows "mux_inv view (drain_outcomes R ready b) \<and>
    dom (protocols (drain_outcomes R ready b)) = dom (protocols b)"
  using assms(2)
proof (induction ready arbitrary: b)
  case (Cons e ready)
  obtain pr outcome where e: "e = (pr, outcome)" by force
  from mux_inv_outcome [OF assms(1) Cons.prems] Cons.IH e show ?case by fastforce
qed simp

lemma mux_inv_send:
  assumes "rr_contract R H view" and "mux_inv view b"
  shows "\<exists>b' es. send_wire_message R dbg now target name m pending connect b = Inr (b', es) \<and>
    mux_inv view b' \<and> dom (protocols b') = dom (protocols b)"
proof (cases "\<exists>p q. protocols b name = Some (p, q) \<and> (rr_is_connected R p target \<or> should_connect connect)")
  case False
  with assms(2) show ?thesis by (auto simp: send_wire_message_def split: option.splits)
next
  case True
  then obtain p q where pq: "protocols b name = Some (p, q)"
    "rr_is_connected R p target \<or> should_connect connect" by blast
  obtain p' rid where req: "rr_send_request R p target m = (p', rid)" by force
  note contract = rr_contractD(4) [OF assms(1) req]
  let ?b = "b\<lparr>protocols := (protocols b)(name \<mapsto> (p', q)),
     pending_requests := (pending_requests b)((name, rid) \<mapsto> (now, pending))\<rparr>"
  have "pending_requests b (name, rid) = None"
    using contract mux_inv_registered(1) [OF assms(2) pq(1)] by blast
  then have "send_wire_message R dbg now target name m pending connect b = Inr (?b, [])"
    using pq req by (auto simp: send_wire_message_def)
  moreover have "mux_inv view ?b"
    by (rule mux_inv_step [OF assms(2) pq(1), where p' = p'])
       (use contract mux_inv_registered(1,2) [OF assms(2) pq(1)] in auto)
  ultimately show ?thesis using pq(1) by force
qed

lemma mux_inv_broadcast:
  assumes "rr_contract R H view" and "mux_inv view b"
  shows "\<exists>b' es. broadcast_message R dbg now targets name ctx payload pending connect b = Inr (b', es) \<and>
    mux_inv view b' \<and> dom (protocols b') = dom (protocols b)"
  using assms(2)
proof (induction targets arbitrary: b)
  case (Cons t ts)
  from mux_inv_send [OF assms(1) Cons.prems] obtain b1 es1 where
    "send_wire_message R dbg now t name \<lparr>wm_context = ctx, wm_payload = payload,
       wm_is_broadcast = True\<rparr> pending connect b = Inr (b1, es1)"
    "mux_inv view b1" "dom (protocols b1) = dom (protocols b)" by blast
  with Cons.IH [of b1] show ?case by auto
qed auto

text \<open>One reported event: no branch panics, and an unexpected response or failure does not occur.\<close>

lemma mux_inv_event:
  assumes "rr_contract R H view" and "mux_inv view b" and "protocols b name = Some (p, q)"
    and "rr_poll H p = (p', Some (GenerateEvent ev))"
  shows "\<exists>b' es out. on_event dbg now tx accepts name ev (b\<lparr>protocols := (protocols b)(name \<mapsto> (p', q))\<rparr>) =
      Inr (b', es, out) \<and> mux_inv view b' \<and> protocols b' = (protocols b)(name \<mapsto> (p', q)) \<and>
      (out = None \<longleftrightarrow> (\<exists>peer rid m c. ev = RequestReceived peer rid m c))"
proof -
  from rr_contractD(9) [OF assms(1,4)] have may: "may_report ev (view p)"
    and view: "view p' = after_event ev (view p)" by blast+
  note reg = mux_inv_registered [OF assms(2,3)]
  let ?b = "b\<lparr>protocols := (protocols b)(name \<mapsto> (p', q))\<rparr>"
  have "\<exists>b' es out. on_event dbg now tx accepts name ev ?b = Inr (b', es, out) \<and>
      protocols b' = protocols ?b \<and> (out = None \<longleftrightarrow> (\<exists>peer rid m c. ev = RequestReceived peer rid m c)) \<and>
      (\<forall>n rid. n \<noteq> name \<longrightarrow> pending_requests b' (n, rid) = pending_requests b (n, rid) \<and>
         pending_responses_arrival_time b' (n, rid) = pending_responses_arrival_time b (n, rid)) \<and>
      (\<forall>rid. (pending_requests b' (name, rid) = None \<longleftrightarrow> rid \<notin> ob_open (view p')) \<and>
         (pending_responses_arrival_time b' (name, rid) = None \<longleftrightarrow> rid \<notin> ob_inbound (view p')))"
  proof (cases ev)
    case (RequestReceived peer rid m c)
    with may obtain qc where "q = Some qc" using reg(3) by auto
    with RequestReceived show ?thesis
      using reg(1,2) view by (auto simp: on_event.simps on_request_def Let_def)
  next
    case (ResponseReceived peer rid r)
    with may reg(1) obtain started pending where "pending_requests b (name, rid) = Some (started, pending)"
      by fastforce
    with ResponseReceived show ?thesis
      using reg(1,2) view by (auto simp: on_event.simps on_response_def Let_def)
  next
    case (OutboundFailure peer rid e)
    with may reg(1) obtain started pending where "pending_requests b (name, rid) = Some (started, pending)"
      by fastforce
    with OutboundFailure show ?thesis
      using reg(1,2) view by (auto simp: on_event.simps on_outbound_failure_def)
  next
    case (InboundFailure peer rid e)
    then show ?thesis using reg(1,2) view by (auto simp: on_event.simps on_inbound_failure_def)
  next
    case (ResponseSent peer rid)
    with may reg(2) obtain t where "pending_responses_arrival_time b (name, rid) = Some t" by fastforce
    with ResponseSent show ?thesis
      using reg(1,2) view by (auto simp: on_event.simps on_response_sent_def)
  qed
  then obtain b' es out where run: "on_event dbg now tx accepts name ev ?b = Inr (b', es, out)"
    and rest: "protocols b' = protocols ?b"
      "out = None \<longleftrightarrow> (\<exists>peer rid m c. ev = RequestReceived peer rid m c)"
      "\<forall>n rid. n \<noteq> name \<longrightarrow> pending_requests b' (n, rid) = pending_requests b (n, rid) \<and>
         pending_responses_arrival_time b' (n, rid) = pending_responses_arrival_time b (n, rid)"
      "\<forall>rid. (pending_requests b' (name, rid) = None \<longleftrightarrow> rid \<notin> ob_open (view p')) \<and>
         (pending_responses_arrival_time b' (name, rid) = None \<longleftrightarrow> rid \<notin> ob_inbound (view p'))" by blast
  have "ob_accepts (view p') = ob_accepts (view p)" using view by (cases ev) simp_all
  with rest have "mux_inv view b'"
    by (intro mux_inv_step [OF assms(2,3), where p' = p']) simp_all
  with run rest show ?thesis by simp
qed

section \<open>A poll\<close>

text \<open>The results of a behaviour after which the loop goes on.\<close>

fun is_request :: "('pid rr_event, 'pid, 'addr, 'h, 'iev, 'x) swarm_action \<Rightarrow> bool" where
  "is_request (GenerateEvent (RequestReceived peer rid m c)) = True"
| "is_request _ = False"

lemma is_request_iff: "is_request a \<longleftrightarrow> (\<exists>peer rid m c. a = GenerateEvent (RequestReceived peer rid m c))"
  by (auto elim: is_request.elims)

text \<open>The handlers that a dial is started with.\<close>

fun dial_handlers :: "('out, 'pid, 'addr, 'h, 'iev, 'x) swarm_action \<Rightarrow> 'h option" where
  "dial_handlers (DialAddress a h) = Some h"
| "dial_handlers (DialPeer p c h) = Some h"
| "dial_handlers _ = None"

text \<open>What a poll of protocols among \<open>D\<close> promises of its result.\<close>

definition polled_well ::
  "('rr \<Rightarrow> rr_obs) \<Rightarrow> string set \<Rightarrow> ('rr, 'pid, 'addr, 'h, 'iev, 'x) mux_result option \<Rightarrow> bool" where
  "polled_well view D res \<longleftrightarrow> (\<exists>i b es act. res = Some (Inr (i, b, es, act)) \<and> mux_inv view b \<and>
     dom (protocols b) = D \<and> (\<forall>a hs. act = Some a \<and> dial_handlers a = Some hs \<longrightarrow> dom hs = D))"

lemma polled_wellI:
  "mux_inv view b \<Longrightarrow> dom (protocols b) = D \<Longrightarrow>
     (\<And>a hs. act = Some a \<Longrightarrow> dial_handlers a = Some hs \<Longrightarrow> dom hs = D) \<Longrightarrow>
     polled_well view D (Some (Inr (i, b, es, act)))"
  by (auto simp: polled_well_def)

lemma protocol_loop_rests:
  assumes "rr_contract R H view" and "loop_rests is_request (rr_poll H) p"
    and "mux_inv view b" and "protocols b name = Some (p, q)"
  shows "polled_well view (dom (protocols b)) (protocol_loop H dbg E name i es b) \<and>
    (\<forall>i' b' es'. protocol_loop H dbg E name i es b = Some (Inr (i', b', es', None)) \<longrightarrow>
       (\<forall>n. n \<noteq> name \<longrightarrow> protocols b' n = protocols b n))"
  using assms(2-4)
proof (induction arbitrary: b i es)
  case (stops p)
  obtain p' act where poll: "rr_poll H p = (p', act)" by force
  let ?b = "b\<lparr>protocols := (protocols b)(name \<mapsto> (p', q))\<rparr>"
  note unfold = protocol_loop.simps [of H dbg E name i es b] stops.prems(2) poll
  have quiet: "mux_inv view ?b" if "\<not> (\<exists>ev. act = Some (GenerateEvent ev))"
    by (rule mux_inv_step [OF stops.prems, where p' = p'])
       (use rr_contractD(10) [OF assms(1) poll that] mux_inv_registered [OF stops.prems] in auto)
  have D: "dom (protocols ?b) = dom (protocols b)" using stops.prems(2) by auto
  have dials: "mux_inv view b' \<and> dom (protocols b') = dom (protocols b) \<and> dom hs = dom (protocols b)"
    if "\<not> (\<exists>ev. act = Some (GenerateEvent ev))" "new_handler_with_replacement H name h ?b = (b', hs)"
    for h b' hs
    using mux_inv_handlers [OF assms(1) quiet [OF that(1)] that(2)] D by simp
  show ?case
  proof (cases act)
    case None
    with quiet D show ?thesis by (auto simp: unfold intro!: polled_wellI)
  next
    case (Some a)
    show ?thesis
    proof (cases a)
      case (GenerateEvent ev)
      with poll Some have "rr_poll H p = (p', Some (GenerateEvent ev))" by simp
      from mux_inv_event [OF assms(1) stops.prems this, where dbg = dbg and now = "fst (E i)" and
          tx = "fst (snd (E i))" and accepts = "snd (snd (E i))"]
      obtain b' es' out where run: "on_event dbg (fst (E i)) (fst (snd (E i))) (snd (snd (E i))) name ev ?b =
          Inr (b', es', out)" "mux_inv view b'" "protocols b' = (protocols b)(name \<mapsto> (p', q))"
        "out = None \<longleftrightarrow> (\<exists>peer rid m c. ev = RequestReceived peer rid m c)" by blast
      have "\<not> is_request a" using stops.hyps poll Some by auto
      with GenerateEvent run(4) obtain out' where "out = Some out'" by (auto simp: is_request_iff)
      with run GenerateEvent Some D show ?thesis by (auto simp: unfold Let_def intro!: polled_wellI)
    next
      case (DialAddress addr h)
      obtain b' hs where "new_handler_with_replacement H name h ?b = (b', hs)" by force
      with dials [OF _ this] DialAddress Some show ?thesis
        by (simp add: unfold Let_def polled_well_def)
    next
      case (DialPeer peer c h)
      obtain b' hs where "new_handler_with_replacement H name h ?b = (b', hs)" by force
      with dials [OF _ this] DialPeer Some show ?thesis
        by (simp add: unfold Let_def polled_well_def)
    qed (use quiet D Some in \<open>auto simp: unfold Let_def intro!: polled_wellI\<close>)
  qed
next
  case (again p p' a)
  then obtain peer rid m c where a: "a = GenerateEvent (RequestReceived peer rid m c)"
    by (auto simp: is_request_iff)
  let ?b = "b\<lparr>protocols := (protocols b)(name \<mapsto> (p', q))\<rparr>"
  from again.hyps(1) a have "rr_poll H p = (p', Some (GenerateEvent (RequestReceived peer rid m c)))" by simp
  from mux_inv_event [OF assms(1) again.prems this, where dbg = dbg and now = "fst (E i)" and
      tx = "fst (snd (E i))" and accepts = "snd (snd (E i))"]
  obtain b1 es1 where run: "on_event dbg (fst (E i)) (fst (snd (E i))) (snd (snd (E i))) name
        (RequestReceived peer rid m c) ?b = Inr (b1, es1, None)" "mux_inv view b1"
      "protocols b1 = (protocols b)(name \<mapsto> (p', q))" by blast
  have "protocol_loop H dbg E name i es b = protocol_loop H dbg E name (Suc i) (es @ es1) b1"
    using again.hyps(1) again.prems(2) a run(1)
    by (simp add: protocol_loop.simps [of H dbg E name i es b] Let_def)
  moreover have p1: "protocols b1 name = Some (p', q)" and D: "dom (protocols b1) = dom (protocols b)"
    and keep: "\<And>n. n \<noteq> name \<Longrightarrow> protocols b1 n = protocols b n"
    using run(3) again.prems(2) by auto
  ultimately show ?case using again.IH [OF run(2) p1, of "Suc i" "es @ es1"]
    by (simp only: D keep) (use keep in auto)
qed

lemma poll_protocols_rests:
  assumes "rr_contract R H view" and "mux_inv view b" and "distinct names"
    and "\<And>n p q. n \<in> set names \<Longrightarrow> protocols b n = Some (p, q) \<Longrightarrow> loop_rests is_request (rr_poll H) p"
  shows "polled_well view (dom (protocols b)) (poll_protocols H dbg E names i es b)"
  using assms(2-)
proof (induction names arbitrary: i es b)
  case Nil
  then show ?case by (auto intro: polled_wellI)
next
  case (Cons name names)
  show ?case
  proof (cases "protocols b name")
    case None
    have "polled_well view (dom (protocols b)) (poll_protocols H dbg E names i es b)"
      by (rule Cons.IH [OF Cons.prems(1)]) (use Cons.prems(2,3) in auto)
    with None show ?thesis by (simp add: protocol_loop.simps [of H dbg E name i es b])
  next
    case (Some e)
    obtain p q where pq: "protocols b name = Some (p, q)" using Some by (cases e) auto
    from protocol_loop_rests [OF assms(1) Cons.prems(3) [OF _ pq] Cons.prems(1) pq, of dbg E i es]
    obtain i' b' es' act where run: "protocol_loop H dbg E name i es b = Some (Inr (i', b', es', act))"
      and well: "polled_well view (dom (protocols b)) (Some (Inr (i', b', es', act)))"
      and keep: "act = None \<longrightarrow> (\<forall>n. n \<noteq> name \<longrightarrow> protocols b' n = protocols b n)"
      by (auto simp: polled_well_def)
    show ?thesis
    proof (cases act)
      case None
      with keep Cons.prems(2,3)
      have "loop_rests is_request (rr_poll H) p" if "n \<in> set names" "protocols b' n = Some (p, q)" for n p q
        using that by (metis distinct.simps(2) list.set_intros(2))
      with None well Cons.IH [of b' i' es'] Cons.prems(2) run show ?thesis
        by (auto simp: polled_well_def)
    qed (use run well in auto)
  qed
qed

lemma broadcast_poll_well:
  assumes "rr_contract R H view" and "hash_order order" and "mux_inv view b"
    and "\<forall>n p q. protocols (drain_outcomes R ready b) n = Some (p, q) \<longrightarrow>
      loop_rests is_request (rr_poll H) p"
  shows "polled_well view (dom (protocols b)) (broadcast_poll R H dbg order E ready b)"
proof -
  have "finite (dom (protocols b))" using assms(3) by (simp add: mux_inv_def)
  with assms(2) have "distinct (order (dom (protocols b)))" by (simp add: hash_order_def)
  with poll_protocols_rests [OF assms(1), of "drain_outcomes R ready b"]
    mux_inv_drain [OF assms(1,3), of ready] assms(4)
  show ?thesis by (simp add: broadcast_poll_def)
qed

text \<open>
  C29: A poll of the multiplexer always returns, never panics and keeps its tables true. As long as
  the behaviours keep libp2p's contract and none of them reports inbound requests for ever, the poll
  returns, with and without debug assertions, whatever responses are ready and whatever is reported;
  none of the branches for unexpected identifiers or missing arrival times is taken; afterwards the
  outstanding requests are exactly the open ones, the arrival times exactly those of the reported
  inbound requests; and a dial is started with a handler for every registered protocol.
\<close>

theorem multiplexer_poll_safe:
  assumes "rr_contract R H view" and "hash_order order" and "mux_inv view b"
    and "\<forall>n p q. protocols (drain_outcomes R ready b) n = Some (p, q) \<longrightarrow>
      loop_rests is_request (rr_poll H) p"
  shows "\<exists>i b' es act. broadcast_poll R H dbg order E ready b = Some (Inr (i, b', es, act)) \<and>
    mux_inv view b' \<and> dom (protocols b') = dom (protocols b) \<and>
    (\<forall>a hs. act = Some a \<and> dial_handlers a = Some hs \<longrightarrow> dom hs = dom (protocols b))"
  using broadcast_poll_well [OF assms] by (simp add: polled_well_def)

text \<open>
  A sample behaviour: its open and its reported inbound requests, the number of inbound requests that
  are still to come, and whether it accepts them. It reports the inbound requests first, then answers
  its open ones.
\<close>

type_synonym sample_state = "request_id list \<times> request_id list \<times> nat \<times> bool"

definition sample_mux_rr :: "(sample_state, nat, unit) rr_ops" where
  "sample_mux_rr = \<lparr>rr_new = (\<lambda>c n s t k. ([], [], 0, s = FullSupport)), rr_is_connected = (\<lambda>s p. True),
     rr_send_request = (\<lambda>(op, rest) p m. ((Suc (sum_list op) # op, rest), Suc (sum_list op))),
     rr_send_response = (\<lambda>s c p. (s, True)), rr_notify = (\<lambda>s e. s), rr_inject_event = (\<lambda>s p e. s)\<rparr>"

fun sample_mux_poll ::
  "sample_state \<Rightarrow> sample_state \<times> (nat rr_event, nat, unit multiaddr, unit, unit, unit) swarm_action option" where
  "sample_mux_poll (op, inb, Suc n, True) =
     ((op, Suc (sum_list inb) # inb, n, True),
      Some (GenerateEvent (RequestReceived 1 (Suc (sum_list inb))
        \<lparr>wm_context = \<lparr>message_type = Coordination, session_id = 0, protocol_id = 0\<rparr>,
         wm_payload = [8], wm_is_broadcast = False\<rparr> 5)))"
| "sample_mux_poll (r # op, inb, n, acc) =
     ((removeAll r op, inb, n, acc), Some (GenerateEvent (ResponseReceived 2 r (Inr [7]))))"
| "sample_mux_poll ([], inb, n, acc) = (([], inb, n, acc), None)"

definition sample_mux_handlers :: "(sample_state, nat, unit multiaddr, unit, unit, unit) rr_poll_ops" where
  "sample_mux_handlers = \<lparr>rr_new_handler = (\<lambda>s. (s, ())), rr_poll = sample_mux_poll\<rparr>"

definition sample_view :: "sample_state \<Rightarrow> rr_obs" where
  "sample_view s = (case s of (op, inb, n, acc) \<Rightarrow>
     \<lparr>ob_open = set op, ob_inbound = set inb, ob_accepts = acc\<rparr>)"

lemma Suc_sum_list_fresh: "Suc (sum_list xs) \<notin> set xs"
  using member_le_sum_list [of _ xs] by fastforce

lemma sample_mux_contract: "rr_contract sample_mux_rr sample_mux_handlers sample_view"
proof -
  have polled: "case snd (sample_mux_poll s) of
        Some (GenerateEvent ev) \<Rightarrow>
          may_report ev (sample_view s) \<and> sample_view (fst (sample_mux_poll s)) = after_event ev (sample_view s)
      | _ \<Rightarrow> sample_view (fst (sample_mux_poll s)) = sample_view s" for s
    by (cases s rule: sample_mux_poll.cases) (auto simp: sample_view_def Suc_sum_list_fresh)
  have "rr_poll sample_mux_handlers = sample_mux_poll" by (simp add: sample_mux_handlers_def)
  then have "\<forall>s. case snd (rr_poll sample_mux_handlers s) of
        Some (GenerateEvent ev) \<Rightarrow> may_report ev (sample_view s) \<and>
          sample_view (fst (rr_poll sample_mux_handlers s)) = after_event ev (sample_view s)
      | _ \<Rightarrow> sample_view (fst (rr_poll sample_mux_handlers s)) = sample_view s"
    by (simp only:) (rule allI, rule polled)
  moreover have "\<forall>s :: sample_state. sample_view (fst (rr_new_handler sample_mux_handlers s)) = sample_view s"
    by (simp add: sample_mux_handlers_def)
  ultimately show ?thesis
    unfolding rr_contract_def
    by (intro conjI) (auto simp: sample_mux_rr_def sample_view_def Suc_sum_list_fresh)
qed

lemma sample_mux_rests: "loop_rests is_request (rr_poll sample_mux_handlers) (op, inb, n, acc)"
proof (induction n arbitrary: inb)
  case 0
  show ?case by (rule loop_rests.stops) (cases op; simp add: sample_mux_handlers_def)
next
  case (Suc n)
  show ?case
  proof (cases acc)
    case True
    show ?thesis
      by (rule loop_rests.again [OF _ _ Suc.IH], simp add: sample_mux_handlers_def True) simp
  next
    case False
    then show ?thesis by (intro loop_rests.stops) (cases op; simp add: sample_mux_handlers_def)
  qed
qed

definition sample_mux :: "(sample_state, nat) broadcast" where
  "sample_mux = \<lparr>protocols = [''room'' \<mapsto> (([3], [], 1, True), Some 7)],
     pending_requests = [(''room'', 3) \<mapsto> (2, Some 4)], pending_responses = [],
     pending_responses_arrival_time = Map.empty, send_feedback = Map.empty\<rparr>"

lemma sample_mux_inv: "mux_inv sample_view sample_mux"
  by (simp add: mux_inv_def mirrors_def sample_mux_def sample_view_def)

theorem multiplexer_poll_safe_witness:
  "\<exists>i b' es act. broadcast_poll sample_mux_rr sample_mux_handlers True sorted_list_of_set
      (\<lambda>i. (9, 20 + i, \<lambda>_. True)) [] sample_mux = Some (Inr (i, b', es, act)) \<and>
    mux_inv sample_view b' \<and> dom (protocols b') = {''room''}"
proof -
  have "hash_order (sorted_list_of_set :: string set \<Rightarrow> string list)" by (simp add: hash_order_def)
  moreover have "\<forall>n p q. protocols (drain_outcomes sample_mux_rr [] sample_mux) n = Some (p, q) \<longrightarrow>
      loop_rests is_request (rr_poll sample_mux_handlers) p"
    using sample_mux_rests by (auto simp: sample_mux_def)
  moreover have "dom (protocols sample_mux) = {''room''}" by (simp add: sample_mux_def)
  ultimately show ?thesis
    using multiplexer_poll_safe [OF sample_mux_contract _ sample_mux_inv, of sorted_list_of_set "[]" True
        "\<lambda>i. (9, 20 + i, \<lambda>_. True)"]
    by auto
qed

end
