(* ===== verification/Behaviour.thy ===== *)
theory Behaviour
  imports Discovery Service
begin

text \<open>
  The network behaviour of a node (\<open>node/network/src/behaviour.rs\<close>): discovery, the request
  multiplexer and the protocols ping and identify in one record, the operations that the worker
  calls on it, and what it does with the events of its parts. The code that libp2p's derive macro
  generates (the dispatch of the swarm's callbacks to the fields and the polling of the fields) is not
  in the repository and not modelled; the \<open>inject_event\<close> functions and the \<open>poll\<close> that it is told to
  call are. Ping and identify keep their states in the type variables \<open>'ping\<close> and \<open>'ident\<close>.
\<close>

section \<open>Data\<close>

definition MPC_PROTOCOL_ID :: string where
  "MPC_PROTOCOL_ID = ''/mpc/0.1.0''"

datatype 'pid behaviour_out = InboundMessageOut (bo_peer: 'pid) (bo_protocol: string)

record ('ping, 'ident, 'kad, 'mdns, 'pid, 'addr, 'rr) behaviour =
  bh_ping :: 'ping
  bh_identify :: 'ident
  bh_discovery :: "('kad, 'mdns, 'pid, 'addr) discovery"
  bh_broadcast :: "('rr, 'pid) broadcast"
  bh_events :: "'pid behaviour_out list"

text \<open>The events of identify and ping, of which everything but the kind is only logged.\<close>

datatype ('pid, 'info) identify_event =
    IdentifyReceived 'pid 'info
  | IdentifySent
  | IdentifyPushed
  | IdentifyError

datatype 'd ping_success = PingRtt 'd | Pong

datatype ping_failure = PingTimeout | PingUnsupported | PingOther string

record ('pid, 'd) ping_event =
  pe_peer :: 'pid
  pe_result :: "ping_failure + 'd ping_success"

section \<open>Operations\<close>

text \<open>
  \<open>new\<close>: the protocols are registered first, a duplicate is an error; then discovery starts, which
  may panic. \<open>identify_new\<close> makes the identify protocol from the protocol version.
\<close>

definition behaviour_new ::
  "('rr, 'pid, 'ev) rr_ops \<Rightarrow> ('kad, 'pid, 'pr multiaddr, 'kev, 'x, 'hev) kad_ops \<Rightarrow>
   ('mdns, 'pid, 'pr multiaddr, 'x) mdns_ops \<Rightarrow> (string \<Rightarrow> 'ident) \<Rightarrow> 'ping \<Rightarrow> 'pid \<Rightarrow>
   protocol_config list \<Rightarrow> ('pid, 'pr) params \<Rightarrow>
   register_error fault + ('ping, 'ident, 'kad, 'mdns, 'pid, 'pr multiaddr, 'rr) behaviour" where
  "behaviour_new R K M identify_new ping local protos pm =
     and_then (map_sum Err id (broadcast_new R protos)) (\<lambda>b.
     and_then (panics (discovery_new K M local pm)) (\<lambda>d.
       Inr \<lparr>bh_ping = ping, bh_identify = identify_new MPC_PROTOCOL_ID, bh_discovery = d,
            bh_broadcast = b, bh_events = []\<rparr>))"

definition behaviour_send_message ::
  "('rr, 'pid, 'ev) rr_ops \<Rightarrow> bool \<Rightarrow> nat \<Rightarrow> 'pid \<Rightarrow> bytes \<Rightarrow> room_id \<Rightarrow> message_context \<Rightarrow> chan \<Rightarrow>
   if_disconnected \<Rightarrow> ('ping, 'ident, 'kad, 'mdns, 'pid, 'addr, 'rr) behaviour \<Rightarrow>
   panic + ('ping, 'ident, 'kad, 'mdns, 'pid, 'addr, 'rr) behaviour \<times> 'pid effect list" where
  "behaviour_send_message R dbg now peer message room ctx pending connect bh =
     map_sum id (\<lambda>(b, es). (bh\<lparr>bh_broadcast := b\<rparr>, es))
       (broadcast_send_message R dbg now peer (as_protocol_id room) ctx message pending connect
          (bh_broadcast bh))"

definition behaviour_broadcast_message ::
  "('rr, 'pid, 'ev) rr_ops \<Rightarrow> bool \<Rightarrow> nat \<Rightarrow> 'pid list \<Rightarrow> bytes \<Rightarrow> room_id \<Rightarrow> message_context \<Rightarrow>
   chan option \<Rightarrow> if_disconnected \<Rightarrow> ('ping, 'ident, 'kad, 'mdns, 'pid, 'addr, 'rr) behaviour \<Rightarrow>
   panic + ('ping, 'ident, 'kad, 'mdns, 'pid, 'addr, 'rr) behaviour \<times> 'pid effect list" where
  "behaviour_broadcast_message R dbg now peers message room ctx pending connect bh =
     map_sum id (\<lambda>(b, es). (bh\<lparr>bh_broadcast := b\<rparr>, es))
       (broadcast_message R dbg now peers (as_protocol_id room) ctx message pending connect
          (bh_broadcast bh))"

definition behaviour_bootstrap ::
  "('kad, 'pid, 'addr, 'kev, 'x, 'hev) kad_ops \<Rightarrow>
   ('ping, 'ident, 'kad, 'mdns, 'pid, 'addr, 'rr) behaviour \<Rightarrow>
   ('ping, 'ident, 'kad, 'mdns, 'pid, 'addr, 'rr) behaviour \<times> (string + nat)" where
  "behaviour_bootstrap K bh =
     (let (d, r) = discovery_bootstrap K (bh_discovery bh) in (bh\<lparr>bh_discovery := d\<rparr>, r))"

text \<open>
  \<open>peers\<close> iterates over the hash set of known peers; the room is not looked at. \<open>order\<close> is the
  order in which a hash set is iterated over, which may be any.
\<close>

definition behaviour_peers ::
  "('pid set \<Rightarrow> 'pid list) \<Rightarrow> room_id \<Rightarrow>
   ('ping, 'ident, 'kad, 'mdns, 'pid, 'addr, 'rr) behaviour \<Rightarrow> 'pid list" where
  "behaviour_peers order room bh = order (d_peers (bh_discovery bh))"

definition behaviour_poll ::
  "('ping, 'ident, 'kad, 'mdns, 'pid, 'addr, 'rr) behaviour \<Rightarrow>
   ('ping, 'ident, 'kad, 'mdns, 'pid, 'addr, 'rr) behaviour \<times> 'pid behaviour_out option" where
  "behaviour_poll bh =
     (case bh_events bh of
        ev # evs \<Rightarrow> (bh\<lparr>bh_events := evs\<rparr>, Some ev)
      | [] \<Rightarrow> (bh, None))"

fun inject_broadcast_out ::
  "'pid broadcast_out \<Rightarrow> ('ping, 'ident, 'kad, 'mdns, 'pid, 'addr, 'rr) behaviour \<Rightarrow>
   ('ping, 'ident, 'kad, 'mdns, 'pid, 'addr, 'rr) behaviour" where
  "inject_broadcast_out (InboundMessage peer protocol result) bh =
     bh\<lparr>bh_events := bh_events bh @ [InboundMessageOut peer protocol]\<rparr>"
| "inject_broadcast_out (BroadcastFinished peer protocol duration result) bh = bh"

fun inject_discovery_out ::
  "'pid discovery_out \<Rightarrow> ('ping, 'ident, 'kad, 'mdns, 'pid, 'addr, 'rr) behaviour \<Rightarrow>
   ('ping, 'ident, 'kad, 'mdns, 'pid, 'addr, 'rr) behaviour" where
  "inject_discovery_out (Connected p) bh = bh"
| "inject_discovery_out (Disconnected p) bh = bh"

fun inject_identify_event ::
  "('pid, 'info) identify_event \<Rightarrow> ('ping, 'ident, 'kad, 'mdns, 'pid, 'addr, 'rr) behaviour \<Rightarrow>
   ('ping, 'ident, 'kad, 'mdns, 'pid, 'addr, 'rr) behaviour" where
  "inject_identify_event (IdentifyReceived p info) bh = bh"
| "inject_identify_event IdentifySent bh = bh"
| "inject_identify_event IdentifyPushed bh = bh"
| "inject_identify_event IdentifyError bh = bh"

definition inject_ping_event ::
  "('pid, 'd) ping_event \<Rightarrow> ('ping, 'ident, 'kad, 'mdns, 'pid, 'addr, 'rr) behaviour \<Rightarrow>
   ('ping, 'ident, 'kad, 'mdns, 'pid, 'addr, 'rr) behaviour" where
  "inject_ping_event ev bh =
     (case pe_result ev of
        Inr (PingRtt rtt) \<Rightarrow> bh
      | Inr Pong \<Rightarrow> bh
      | Inl PingTimeout \<Rightarrow> bh
      | Inl (PingOther e) \<Rightarrow> bh
      | Inl PingUnsupported \<Rightarrow> bh)"

lemma inject_discovery_out_silent [simp]: "inject_discovery_out ev bh = bh"
  by (cases ev) simp_all

lemma inject_identify_event_silent [simp]: "inject_identify_event ev bh = bh"
  by (cases ev) simp_all

lemma inject_ping_event_silent [simp]: "inject_ping_event ev bh = bh"
  by (simp add: inject_ping_event_def split: sum.splits ping_success.splits ping_failure.splits)

section \<open>The queue of events\<close>

text \<open>
  The calls on the behaviour, as steps: a message is sent or broadcast, a part hands its event over,
  or the behaviour is polled. The parts themselves are stepped by the generated code: \<open>BParts\<close>
  is any change of the four parts.
\<close>

datatype ('pid, 'info, 'd) behaviour_label =
    BInject "'pid broadcast_out"
  | BDiscovery "'pid discovery_out"
  | BIdentify "('pid, 'info) identify_event"
  | BPing "('pid, 'd) ping_event"
  | BPoll "'pid behaviour_out option"
  | BParts

inductive behaviour_step ::
  "('ping, 'ident, 'kad, 'mdns, 'pid, 'addr, 'rr) behaviour \<Rightarrow> ('pid, 'info, 'd) behaviour_label \<Rightarrow>
   ('ping, 'ident, 'kad, 'mdns, 'pid, 'addr, 'rr) behaviour \<Rightarrow> bool" where
  "behaviour_step bh (BInject ev) (inject_broadcast_out ev bh)"
| "behaviour_step bh (BDiscovery ev) (inject_discovery_out ev bh)"
| "behaviour_step bh (BIdentify iev) (inject_identify_event iev bh)"
| "behaviour_step bh (BPing pev) (inject_ping_event pev bh)"
| "behaviour_poll bh = (bh', r) \<Longrightarrow> behaviour_step bh (BPoll r) bh'"
| "behaviour_step bh BParts
     (bh\<lparr>bh_ping := p, bh_identify := i, bh_discovery := d, bh_broadcast := b\<rparr>)"

inductive_simps behaviour_step_poll: "behaviour_step bh (BPoll r) bh'"

fun behaviour_raised :: "('pid, 'info, 'd) behaviour_label \<Rightarrow> 'pid behaviour_out list" where
  "behaviour_raised (BInject (InboundMessage peer protocol r)) = [InboundMessageOut peer protocol]"
| "behaviour_raised _ = []"

fun behaviour_emitted :: "('pid, 'info, 'd) behaviour_label \<Rightarrow> 'pid behaviour_out list" where
  "behaviour_emitted (BPoll (Some ev)) = [ev]"
| "behaviour_emitted _ = []"

lemma behaviour_step_conserves:
  assumes "behaviour_step bh l bh'"
  shows "behaviour_emitted l @ bh_events bh' = bh_events bh @ behaviour_raised l"
  using assms
proof cases
  case (1 ev)
  then show ?thesis by (cases ev) simp_all
next
  case (5 r)
  then show ?thesis by (auto simp: behaviour_poll_def split: list.splits)
qed simp_all

interpretation behaviour_queue: polled_queue
    "behaviour_step :: ('ping, 'ident, 'kad, 'mdns, 'pid, 'addr, 'rr) behaviour \<Rightarrow>
       ('pid, 'info, 'd) behaviour_label \<Rightarrow> _"
    bh_events behaviour_raised behaviour_emitted "\<lambda>e. BPoll (Some e)"
  by unfold_locales (auto simp: behaviour_step_conserves behaviour_step_poll behaviour_poll_def)

text \<open>
  Inbound requests are reported to the worker once each and in the order in which the
  multiplexer finished them; finished broadcasts and the events of discovery, identify and ping are
  not reported. After any calls since the creation, what the polls have returned and what is still
  queued are together the reports raised.
\<close>

lemma behaviour_reports_inbound:
  assumes "behaviour_new R K M identify_new ping local ps pm = Inr bh"
    and "run behaviour_step bh ls bh'"
  shows "concat (map behaviour_emitted ls) @ bh_events bh' = concat (map behaviour_raised ls)"
proof -
  have "bh_events bh = []" using assms(1) by (auto simp: behaviour_new_def and_then_eq_Inr)
  then show ?thesis using behaviour_queue.fifo [OF assms(2)] by simp
qed

end
