(* ===== verification/Worker.thy ===== *)
theory Worker
  imports Behaviour
begin

text \<open>
  The network worker (\<open>NetworkWorker\<close> in \<open>node/network/src/service.rs\<close>): its creation from the node's
  key and parameters, and the loop that serves the messages of the handle in \<open>Service\<close>. The libp2p
  swarm that owns the behaviour is not in the repository: what it does to the behaviour between two
  events is an argument of the loop, as is the event that it reports.
\<close>

section \<open>Creation\<close>

record ('ping, 'ident, 'kad, 'mdns, 'pid, 'addr, 'rr) network_worker =
  wk_behaviour :: "('ping, 'ident, 'kad, 'mdns, 'pid, 'addr, 'rr) behaviour"
  wk_local_peer_id :: 'pid

definition room_protocol :: "('pid, 'pr) room_args \<Rightarrow> protocol_config" where
  "room_protocol rc = protocol_config_new (as_protocol_id (ra_id rc)) (ra_inbound_queue rc)"

text \<open>
  \<open>peer_id_of\<close> is the identifier of a key pair and \<open>noise_ok\<close> says whether the key exchange of the
  transport can be authenticated with it. A listen address that cannot be used is only logged.
\<close>

definition worker_new ::
  "('rr, 'pid, 'ev) rr_ops \<Rightarrow> ('kad, 'pid, 'pr multiaddr, 'kev, 'x, 'hev) kad_ops \<Rightarrow>
   ('mdns, 'pid, 'pr multiaddr, 'x) mdns_ops \<Rightarrow> ('k, 'er) secret_key_ops \<Rightarrow>
   (string \<Rightarrow> 'ident) \<Rightarrow> 'ping \<Rightarrow> ('k keypair \<Rightarrow> 'pid) \<Rightarrow> ('k keypair \<Rightarrow> bool) \<Rightarrow> 'k \<Rightarrow>
   'k node_key_config \<Rightarrow> ('pid, 'pr) params \<Rightarrow> host_fs \<Rightarrow>
   host_fs \<times> (('pid, 'pr) net_error fault +
     ('ping, 'ident, 'kad, 'mdns, 'pid, 'pr multiaddr, 'rr) network_worker \<times>
     'pid network_service)" where
  "worker_new R K M S identify_new ping peer_id_of noise_ok generated node_key pm fs =
     (case into_keypair S generated node_key fs of
        (fs', Inl e) \<Rightarrow> (fs', Inl (Err (NetIo e)))
      | (fs', Inr kp) \<Rightarrow>
          (fs',
           if \<not> noise_ok kp then Inl (Panic ExpectFailed)
           else case behaviour_new R K M identify_new ping (peer_id_of kp)
                  (map room_protocol (pm_rooms pm)) pm of
               Inr bh \<Rightarrow> Inr (\<lparr>wk_behaviour = bh, wk_local_peer_id = peer_id_of kp\<rparr>,
                             \<lparr>ns_local_peer_id = peer_id_of kp\<rparr>)
             | Inl (Err (DuplicateProtocol proto)) \<Rightarrow> Inl (Err (DuplicateBroadcastProtocol proto))
             | Inl (Panic p) \<Rightarrow> Inl (Panic p)))"

section \<open>The loop\<close>

text \<open>One message of the service; every peer that is not connected is dialled.\<close>

definition worker_dispatch ::
  "('rr, 'pid, 'ev) rr_ops \<Rightarrow> bool \<Rightarrow> ('pid set \<Rightarrow> 'pid list) \<Rightarrow> nat \<Rightarrow> 'pid network_message \<Rightarrow>
   ('ping, 'ident, 'kad, 'mdns, 'pid, 'addr, 'rr) behaviour \<Rightarrow>
   panic + ('ping, 'ident, 'kad, 'mdns, 'pid, 'addr, 'rr) behaviour \<times> 'pid effect list" where
  "worker_dispatch R dbg order now request bh =
     (case request of RequestResponse room_id context message \<Rightarrow>
        (case message of
           Broadcast payload response_sender \<Rightarrow>
             behaviour_broadcast_message R dbg now (behaviour_peers order room_id bh) payload room_id
               context response_sender TryConnect bh
         | Multicast peer_ids payload response_sender \<Rightarrow>
             behaviour_broadcast_message R dbg now peer_ids payload room_id context
               response_sender TryConnect bh
         | SendDirect peer_id payload response_sender \<Rightarrow>
             behaviour_send_message R dbg now peer_id payload room_id context response_sender
               TryConnect bh))"

text \<open>The events of the swarm are only logged.\<close>

datatype 'pid worker_event =
    SeBehaviour "'pid behaviour_out"
  | SeNewListenAddr
  | SeConnectionEstablished
  | SeConnectionClosed
  | SeOther

text \<open>
  What \<open>select!\<close> picks: the swarm has worked on the behaviour and reports an event or its end, or the
  channel of the service has a message or is closed. The swarm's work may panic, or not return.
\<close>

datatype ('bh, 'pid) worker_input =
    SwarmNext "'bh \<Rightarrow> (panic + 'bh \<times> 'pid effect list) option" "'pid worker_event option"
  | ServiceNext "'pid network_message option"

definition then_effects ::
  "'pid effect list \<Rightarrow> (panic + 'bh \<times> 'pid effect list \<times> bool) option \<Rightarrow>
   (panic + 'bh \<times> 'pid effect list \<times> bool) option" where
  "then_effects es = map_option (map_sum id (\<lambda>(bh, es', ended). (bh, es @ es', ended)))"

lemma then_effects_simps [simp]:
  "then_effects es None = None"
  "then_effects es (Some (Inl p)) = Some (Inl p)"
  "then_effects es (Some (Inr (bh, es', ended))) = Some (Inr (bh, es @ es', ended))"
  by (simp_all add: then_effects_def)

text \<open>
  The loop over a sequence of picks, each with its instant: the worker, the effects, and whether the
  loop has ended because a stream has. \<open>None\<close> says that it does not come back from the swarm.
\<close>

fun worker_loop ::
  "('rr, 'pid, 'ev) rr_ops \<Rightarrow> bool \<Rightarrow> ('pid set \<Rightarrow> 'pid list) \<Rightarrow>
   (nat \<times> (('ping, 'ident, 'kad, 'mdns, 'pid, 'addr, 'rr) behaviour, 'pid) worker_input) list \<Rightarrow>
   ('ping, 'ident, 'kad, 'mdns, 'pid, 'addr, 'rr) behaviour \<Rightarrow>
   (panic + ('ping, 'ident, 'kad, 'mdns, 'pid, 'addr, 'rr) behaviour \<times> 'pid effect list \<times> bool)
     option" where
  "worker_loop R dbg order [] bh = Some (Inr (bh, [], False))"
| "worker_loop R dbg order ((now, SwarmNext f ev) # inputs) bh =
     (case f bh of
        None \<Rightarrow> None
      | Some (Inl p) \<Rightarrow> Some (Inl p)
      | Some (Inr (bh', es)) \<Rightarrow>
          (case ev of
             Some _ \<Rightarrow> then_effects es (worker_loop R dbg order inputs bh')
           | None \<Rightarrow> Some (Inr (bh', es, True))))"
| "worker_loop R dbg order ((now, ServiceNext msg) # inputs) bh =
     (case msg of
        Some request \<Rightarrow>
          (case worker_dispatch R dbg order now request bh of
             Inl p \<Rightarrow> Some (Inl p)
           | Inr (bh', es) \<Rightarrow> then_effects es (worker_loop R dbg order inputs bh'))
      | None \<Rightarrow> Some (Inr (bh, [], True)))"

text \<open>\<open>run\<close>: a bootstrap, whose failure is only logged, and the loop.\<close>

definition worker_run ::
  "('rr, 'pid, 'ev) rr_ops \<Rightarrow> ('kad, 'pid, 'addr, 'kev, 'x, 'hev) kad_ops \<Rightarrow> bool \<Rightarrow>
   ('pid set \<Rightarrow> 'pid list) \<Rightarrow>
   (nat \<times> (('ping, 'ident, 'kad, 'mdns, 'pid, 'addr, 'rr) behaviour, 'pid) worker_input) list \<Rightarrow>
   ('ping, 'ident, 'kad, 'mdns, 'pid, 'addr, 'rr) network_worker \<Rightarrow>
   (panic + ('ping, 'ident, 'kad, 'mdns, 'pid, 'addr, 'rr) behaviour \<times> 'pid effect list \<times> bool)
     option" where
  "worker_run R K dbg order inputs w =
     worker_loop R dbg order inputs (fst (behaviour_bootstrap K (wk_behaviour w)))"

section \<open>Registered rooms\<close>

lemma room_protocol_simps [simp]:
  "pc_name (room_protocol rc) = as_protocol_id (ra_id rc)"
  "pc_inbound_queue (room_protocol rc) = ra_inbound_queue rc"
  by (simp_all add: room_protocol_def protocol_config_new_def)

lemma room_protocol_names:
  "map pc_name (map room_protocol rooms) = map as_protocol_id (map ra_id rooms)"
  by simp

lemma distinct_room_protocols:
  "distinct (map (pc_name \<circ> room_protocol) rooms) \<longleftrightarrow> distinct (map ra_id rooms)"
proof -
  have "map (pc_name \<circ> room_protocol) rooms = map as_protocol_id (map ra_id rooms)" by simp
  moreover have "inj_on as_protocol_id (set (map ra_id rooms))" by (simp add: inj_on_def)
  ultimately show ?thesis by (simp only: distinct_map) simp
qed

text \<open>A registered protocol has the inbound queue of its configuration.\<close>

lemma register_all_queue:
  "fold_may (register_protocol R) list ps = Inr ps' \<Longrightarrow> ps' n = Some v \<Longrightarrow>
     ps n = Some v \<or> (\<exists>p \<in> set list. pc_name p = n \<and> pc_inbound_queue p = snd v)"
proof (induction list arbitrary: ps)
  case Nil
  then show ?case by simp
next
  case (Cons p list)
  have fresh: "ps (pc_name p) = None"
    using Cons.prems(1) register_protocol_simps(2) [of ps p _ R] by (cases "ps (pc_name p)") fastforce+
  from register_protocol_simps(1) [of ps p R, OF this] obtain w
    where w: "register_protocol R p ps = Inr (ps(pc_name p \<mapsto> w))" "snd w = pc_inbound_queue p" by blast
  with Cons.prems(1) have "fold_may (register_protocol R) list (ps(pc_name p \<mapsto> w)) = Inr ps'"
    by simp
  from Cons.IH [OF this Cons.prems(2)] w(2) show ?case by (auto split: if_splits)
qed

lemma broadcast_new_queue:
  "broadcast_new R list = Inr b \<Longrightarrow> protocols b n = Some (p, q) \<Longrightarrow>
     \<exists>c \<in> set list. pc_name c = n \<and> pc_inbound_queue c = q"
  using register_all_queue [of R list Map.empty _ n "(p, q)"]
  by (auto simp: broadcast_new_def split: sum.splits)

section \<open>Properties\<close>

lemma behaviour_new_cases:
  obtains (created) b d where "broadcast_new R ps = Inr b" "discovery_new K M local pm = Inr d"
    "behaviour_new R K M identify_new ping local ps pm =
       Inr \<lparr>bh_ping = ping, bh_identify = identify_new MPC_PROTOCOL_ID, bh_discovery = d,
            bh_broadcast = b, bh_events = []\<rparr>"
  | (duplicate) n where "broadcast_new R ps = Inl (DuplicateProtocol n)"
    "behaviour_new R K M identify_new ping local ps pm = Inl (Err (DuplicateProtocol n))"
  | (panicked) b where "broadcast_new R ps = Inr b" "discovery_new K M local pm = Inl ExpectFailed"
    "behaviour_new R K M identify_new ping local ps pm = Inl (Panic ExpectFailed)"
proof (cases "broadcast_new R ps")
  case (Inl e)
  then show ?thesis by (cases e) (simp add: duplicate behaviour_new_def)
next
  case (Inr b)
  show ?thesis
  proof (cases "discovery_new K M local pm")
    case (Inl p)
    then have "p = ExpectFailed" by (auto simp: discovery_new_def Let_def split: if_splits)
    with Inl Inr show ?thesis by (simp add: panicked behaviour_new_def)
  next
    case (Inr d)
    with \<open>broadcast_new R ps = Inr b\<close> show ?thesis by (simp add: created behaviour_new_def)
  qed
qed

lemma discovery_new_Inl_iff:
  "discovery_new K M local pm = Inl ExpectFailed \<longleftrightarrow> pm_mdns pm \<and> m_start M = None"
  by (auto simp: discovery_new_def Let_def)

lemma worker_new_results:
  assumes "into_keypair S g cfg fs = (fs', kr)"
  shows "fst (worker_new R K M S idn ping peer_id_of noise_ok g cfg pm fs) = fs' \<and>
    (case snd (worker_new R K M S idn ping peer_id_of noise_ok g cfg pm fs) of
       Inr (w, s) \<Rightarrow> (\<exists>kp. kr = Inr kp \<and> noise_ok kp \<and> wk_local_peer_id w = peer_id_of kp) \<and>
         ns_local_peer_id s = wk_local_peer_id w \<and> distinct (map ra_id (pm_rooms pm)) \<and>
         (pm_mdns pm \<longrightarrow> m_start M \<noteq> None) \<and>
         dom (protocols (bh_broadcast (wk_behaviour w))) = as_protocol_id ` ra_id ` set (pm_rooms pm) \<and>
         (\<forall>rc \<in> set (pm_rooms pm). \<exists>p.
            protocols (bh_broadcast (wk_behaviour w)) (as_protocol_id (ra_id rc)) =
              Some (p, ra_inbound_queue rc)) \<and>
         pending_requests (bh_broadcast (wk_behaviour w)) = Map.empty
     | Inl (Err (NetIo e)) \<Rightarrow> kr = Inl e
     | Inl (Err (DuplicateBroadcastProtocol n)) \<Rightarrow>
         duplicate_in {} (map room_protocol (pm_rooms pm)) n
     | Inl (Err (DuplicateNode a p q)) \<Rightarrow> False
     | Inl (Panic pn) \<Rightarrow> pn = ExpectFailed \<and>
         ((\<exists>kp. kr = Inr kp \<and> \<not> noise_ok kp) \<or> pm_mdns pm \<and> m_start M = None))"
proof (cases kr)
  case (Inl e)
  with assms show ?thesis by (simp add: worker_new_def)
next
  case (Inr kp)
  let ?ps = "map room_protocol (pm_rooms pm)"
  show ?thesis
  proof (cases "noise_ok kp")
    case False
    with assms Inr show ?thesis by (simp add: worker_new_def)
  next
    case noise: True
    show ?thesis
    proof (cases rule: behaviour_new_cases [where R = R and K = K and M = M and ps = ?ps and
          local = "peer_id_of kp" and pm = pm and identify_new = idn and ping = ping])
      case (duplicate n)
      with broadcast_new_outcome [where R = R and list = ?ps] assms Inr noise show ?thesis
        by (simp add: worker_new_def)
    next
      case (panicked b)
      then have "pm_mdns pm \<and> m_start M = None" by (simp add: discovery_new_Inl_iff)
      with panicked assms Inr noise show ?thesis by (simp add: worker_new_def)
    next
      case (created b d)
      from broadcast_new_outcome [where R = R and list = ?ps] created(1)
      have reg: "distinct (map ra_id (pm_rooms pm))"
        "dom (protocols b) = as_protocol_id ` ra_id ` set (pm_rooms pm)"
        "pending_requests b = Map.empty"
        using distinct_room_protocols [of "pm_rooms pm"] by (auto simp: image_image)
      have "\<exists>p. protocols b (as_protocol_id (ra_id rc)) = Some (p, ra_inbound_queue rc)"
        if rc: "rc \<in> set (pm_rooms pm)" for rc
      proof -
        from reg(2) rc obtain p q where pq: "protocols b (as_protocol_id (ra_id rc)) = Some (p, q)"
          by (metis domD image_eqI old.prod.exhaust)
        from broadcast_new_queue [OF created(1) pq] obtain rc' where
          rc': "rc' \<in> set (pm_rooms pm)" "ra_id rc' = ra_id rc" "ra_inbound_queue rc' = q"
          by auto
        with reg(1) rc have "rc' = rc" by (simp add: distinct_map inj_on_def)
        with pq rc' show ?thesis by blast
      qed
      moreover have "pm_mdns pm \<longrightarrow> m_start M \<noteq> None"
        using discovery_new_Inl_iff [of K M "peer_id_of kp" pm] created(2) by simp
      ultimately show ?thesis
        using created(3) assms Inr noise reg by (simp add: worker_new_def)
    qed
  qed
qed

text \<open>
  C18: When a worker is created. With a key pair, a working key exchange, pairwise different rooms and
  mDNS starting if it is enabled, the worker exists, has registered exactly the rooms, each with the
  inbound queue of its room and no request outstanding, and shares its identity with the service.
  Otherwise the caller gets the I/O error of the key, the first duplicated room, or a panic.
\<close>

theorem worker_new_outcome:
  assumes "into_keypair S g cfg fs = (fs', kr)"
  shows "fst (worker_new R K M S idn ping peer_id_of noise_ok g cfg pm fs) = fs' \<and>
    (case snd (worker_new R K M S idn ping peer_id_of noise_ok g cfg pm fs) of
       Inr (w, s) \<Rightarrow> (\<exists>kp. kr = Inr kp \<and> noise_ok kp \<and> wk_local_peer_id w = peer_id_of kp) \<and>
         ns_local_peer_id s = wk_local_peer_id w \<and> distinct (map ra_id (pm_rooms pm)) \<and>
         (pm_mdns pm \<longrightarrow> m_start M \<noteq> None) \<and>
         dom (protocols (bh_broadcast (wk_behaviour w))) = as_protocol_id ` ra_id ` set (pm_rooms pm) \<and>
         (\<forall>rc \<in> set (pm_rooms pm). \<exists>p.
            protocols (bh_broadcast (wk_behaviour w)) (as_protocol_id (ra_id rc)) =
              Some (p, ra_inbound_queue rc)) \<and>
         pending_requests (bh_broadcast (wk_behaviour w)) = Map.empty
     | Inl (Err (NetIo e)) \<Rightarrow> kr = Inl e
     | Inl (Err (DuplicateBroadcastProtocol n)) \<Rightarrow>
         duplicate_in {} (map room_protocol (pm_rooms pm)) n
     | Inl (Err (DuplicateNode a p q)) \<Rightarrow> False
     | Inl (Panic pn) \<Rightarrow> pn = ExpectFailed \<and>
         ((\<exists>kp. kr = Inr kp \<and> \<not> noise_ok kp) \<or> pm_mdns pm \<and> m_start M = None))"
  using assms by (rule worker_new_results)

theorem worker_new_outcome_witness:
  "\<exists>w s. snd (worker_new sample_rr sample_kad sample_mdns sample_secret_key id () (\<lambda>_. 9) (\<lambda>_. True) 5
       (Ed25519 New) sample_params empty_host) = Inr (w, s) \<and> ns_local_peer_id s = 9 \<and>
     dom (protocols (bh_broadcast (wk_behaviour w))) = {''/room/ab''}"
proof -
  let ?w = "snd (worker_new sample_rr sample_kad sample_mdns sample_secret_key id () (\<lambda>_. 9) (\<lambda>_. True) 5
       (Ed25519 New) sample_params empty_host)"
  have "into_keypair sample_secret_key 5 (Ed25519 New) empty_host = (empty_host, Inr (KeypairEd25519 5))"
    by simp
  note outcome = worker_new_outcome [OF this, of sample_rr sample_kad sample_mdns id "()" "\<lambda>_. 9"
      "\<lambda>_. True" sample_params]
  show ?thesis
  proof (cases ?w)
    case (Inl e)
    have "\<not> duplicate_in {} (map room_protocol (pm_rooms sample_params)) n" for n
      by (auto simp: duplicate_in_def sample_params_def Cons_eq_append_conv)
    with outcome Inl show ?thesis
      by (auto simp: sample_mdns_def split: fault.splits net_error.splits)
  next
    case (Inr r)
    then show ?thesis
      using outcome by (cases r) (auto simp: sample_params_def as_protocol_id_def)
  qed
qed

text \<open>Dispatching in a registered room: every addressed peer is asked once, none fails at once.\<close>

lemma behaviour_broadcast_registered:
  assumes "rr_fresh R used" and "outbound_inv used (bh_broadcast bh)"
    and "protocols (bh_broadcast bh) (as_protocol_id room) = Some (p, q)"
  shows "\<exists>bh'. behaviour_broadcast_message R dbg now targets payload room ctx (Some tx) TryConnect bh =
      Inr (bh', []) \<and>
    bh' = bh\<lparr>bh_broadcast := bh_broadcast bh'\<rparr> \<and> outbound_inv used (bh_broadcast bh') \<and>
    protocols (bh_broadcast bh') = (protocols (bh_broadcast bh))(as_protocol_id room \<mapsto>
      (foldl (\<lambda>p t. fst (rr_send_request R p t
         \<lparr>wm_context = ctx, wm_payload = payload, wm_is_broadcast = True\<rparr>)) p targets, q)) \<and>
    card (dom (pending_requests (bh_broadcast bh'))) =
      card (dom (pending_requests (bh_broadcast bh))) + length targets \<and>
    pending_requests (bh_broadcast bh) \<subseteq>\<^sub>m pending_requests (bh_broadcast bh') \<and>
    (\<forall>k. pending_requests (bh_broadcast bh) k = None \<and> pending_requests (bh_broadcast bh') k \<noteq> None \<longrightarrow>
       pending_requests (bh_broadcast bh') k = Some (now, Some tx) \<and> fst k = as_protocol_id room)"
proof -
  from broadcast_message_settles [OF assms(1,2)] obtain b' es where
    run: "broadcast_message R dbg now targets (as_protocol_id room) ctx payload (Some tx) TryConnect
      (bh_broadcast bh) = Inr (b', es)"
    and rest: "outbound_inv used b'"
      "card (dom (pending_requests b')) + length es =
         card (dom (pending_requests (bh_broadcast bh))) + length targets"
      "pending_requests (bh_broadcast bh) \<subseteq>\<^sub>m pending_requests b'"
      "\<forall>k. pending_requests (bh_broadcast bh) k = None \<and> pending_requests b' k \<noteq> None \<longrightarrow>
         pending_requests b' k = Some (now, Some tx) \<and> fst k = as_protocol_id room"
    by blast
  from broadcast_message_registered [OF assms(3) _ run]
  have "es = []" and "protocols b' = (protocols (bh_broadcast bh))(as_protocol_id room \<mapsto>
      (foldl (\<lambda>p t. fst (rr_send_request R p t
         \<lparr>wm_context = ctx, wm_payload = payload, wm_is_broadcast = True\<rparr>)) p targets, q))"
    by simp_all
  with run rest show ?thesis
    by (intro exI [of _ "bh\<lparr>bh_broadcast := b'\<rparr>"]) (simp add: behaviour_broadcast_message_def)
qed

lemma finite_connected_peers [simp]: "finite (connected_peers l)"
  by (cases l rule: connected_peers.cases) simp_all

lemma run_peers_finite:
  "run (discovery_step K M checks) d ls d' \<Longrightarrow> finite (d_peers d) \<Longrightarrow> finite (d_peers d')"
  by (drule run_peers) simp

text \<open>
  C13: A broadcast reaches every peer that the node knows. In a registered room the worker answers the
  service's broadcast by asking the room's behaviour to send the message, marked as a broadcast, to
  each boot peer (if Kademlia is enabled; without it they are not known peers) and each peer ever
  connected, once and whether connected or not; it records one
  outstanding request per peer, all with the caller's reply channel; nothing fails at once and
  nothing but the multiplexer changes.
\<close>

theorem worker_broadcast_reaches_known_peers:
  assumes "rr_fresh R used" and "outbound_inv used (bh_broadcast bh)" and "hash_order order"
    and "protocols (bh_broadcast bh) (as_protocol_id room) = Some (p, q)"
    and "discovery_new K M local pm = Inr d0" and "run (discovery_step K M checks) d0 ls (bh_discovery bh)"
  shows "\<exists>bh' targets.
    worker_dispatch R dbg order now (service_broadcast room ctx payload (Some tx)) bh = Inr (bh', []) \<and>
    distinct targets \<and>
    set targets = (if pm_kademlia pm then set (map fst (boot_addresses pm)) else {}) \<union>
      {p. LNotify (SwConnected p) \<in> set ls} \<and>
    bh' = bh\<lparr>bh_broadcast := bh_broadcast bh'\<rparr> \<and>
    protocols (bh_broadcast bh') = (protocols (bh_broadcast bh))(as_protocol_id room \<mapsto>
      (foldl (\<lambda>p t. fst (rr_send_request R p t
         \<lparr>wm_context = ctx, wm_payload = payload, wm_is_broadcast = True\<rparr>)) p targets, q)) \<and>
    card (dom (pending_requests (bh_broadcast bh'))) =
      card (dom (pending_requests (bh_broadcast bh))) + card (set targets) \<and>
    (\<forall>k. pending_requests (bh_broadcast bh) k = None \<and> pending_requests (bh_broadcast bh') k \<noteq> None \<longrightarrow>
       pending_requests (bh_broadcast bh') k = Some (now, Some tx) \<and> fst k = as_protocol_id room)"
proof -
  let ?peers = "d_peers (bh_discovery bh)"
  have peers: "?peers = (if pm_kademlia pm then set (map fst (boot_addresses pm)) else {}) \<union>
      {p. LNotify (SwConnected p) \<in> set ls}"
    using run_peers [OF assms(6)] discovery_new_Inr(3) [OF assms(5)]
    by (auto simp: connected_peers_iff)
  have "finite ?peers"
    by (rule run_peers_finite [OF assms(6)]) (simp add: discovery_new_Inr(3) [OF assms(5)])
  with assms(3) have targets: "set (order ?peers) = ?peers" "distinct (order ?peers)"
    by (simp_all add: hash_order_def)
  from behaviour_broadcast_registered [OF assms(1,2,4), of dbg now "order ?peers" payload ctx tx]
  obtain bh' where bh': "behaviour_broadcast_message R dbg now (order ?peers) payload room ctx (Some tx)
      TryConnect bh = Inr (bh', [])"
    "bh' = bh\<lparr>bh_broadcast := bh_broadcast bh'\<rparr>"
    "protocols (bh_broadcast bh') = (protocols (bh_broadcast bh))(as_protocol_id room \<mapsto>
      (foldl (\<lambda>p t. fst (rr_send_request R p t
         \<lparr>wm_context = ctx, wm_payload = payload, wm_is_broadcast = True\<rparr>)) p (order ?peers), q))"
    "card (dom (pending_requests (bh_broadcast bh'))) =
      card (dom (pending_requests (bh_broadcast bh))) + card (set (order ?peers))"
    "\<forall>k. pending_requests (bh_broadcast bh) k = None \<and> pending_requests (bh_broadcast bh') k \<noteq> None \<longrightarrow>
       pending_requests (bh_broadcast bh') k = Some (now, Some tx) \<and> fst k = as_protocol_id room"
    unfolding distinct_card [OF targets(2)] by blast
  have "worker_dispatch R dbg order now (service_broadcast room ctx payload (Some tx)) bh = Inr (bh', [])"
    by (simp add: worker_dispatch_def service_broadcast_def behaviour_peers_def bh'(1))
  with bh'(2-) targets peers show ?thesis
    by (intro exI [of _ bh'] exI [of _ "order ?peers"]) (simp only: simp_thms)
qed

text \<open>A sample behaviour: the sample multiplexer with a request outstanding to no one.\<close>

definition sample_behaviour :: "(unit, string, nat, nat, nat, unit multiaddr, nat) behaviour" where
  "sample_behaviour = \<lparr>bh_ping = (), bh_identify = MPC_PROTOCOL_ID, bh_discovery = sample_discovery,
     bh_broadcast = \<lparr>protocols = [''/room/ab'' \<mapsto> (0, Some 7)], pending_requests = Map.empty,
       pending_responses = [], pending_responses_arrival_time = Map.empty, send_feedback = Map.empty\<rparr>,
     bh_events = []\<rparr>"

lemma sample_behaviour_inv: "outbound_inv (\<lambda>s. {..<s}) (bh_broadcast sample_behaviour)"
  by (simp add: outbound_inv_def sample_behaviour_def)

lemma hash_order_sorted: "hash_order (sorted_list_of_set :: nat set \<Rightarrow> nat list)"
  by (simp add: hash_order_def)

theorem worker_broadcast_reaches_known_peers_witness:
  "\<exists>bh'. worker_dispatch sample_rr True sorted_list_of_set 3 (service_broadcast (RoomId ''ab'')
       \<lparr>message_type = Coordination, session_id = 0, protocol_id = 0\<rparr> [9] (Some 4)) sample_behaviour =
       Inr (bh', []) \<and>
     card (dom (pending_requests (bh_broadcast bh'))) = 1"
proof -
  have room: "protocols (bh_broadcast sample_behaviour) (as_protocol_id (RoomId ''ab'')) = Some (0, Some 7)"
    by (simp add: sample_behaviour_def as_protocol_id_def)
  have "run (discovery_step sample_kad sample_mdns True) sample_discovery [] (bh_discovery sample_behaviour)"
    by (simp add: sample_behaviour_def)
  from worker_broadcast_reaches_known_peers [OF sample_rr_fresh sample_behaviour_inv hash_order_sorted
      room sample_discovery_new this, of True 3
      "\<lparr>message_type = Coordination, session_id = 0, protocol_id = 0\<rparr>" "[9]" 4]
  obtain bh' targets where
    "worker_dispatch sample_rr True sorted_list_of_set 3 (service_broadcast (RoomId ''ab'')
       \<lparr>message_type = Coordination, session_id = 0, protocol_id = 0\<rparr> [9] (Some 4)) sample_behaviour =
       Inr (bh', [])"
    and "set targets = {4 :: nat}"
    and "card (dom (pending_requests (bh_broadcast bh'))) =
      card (dom (pending_requests (bh_broadcast sample_behaviour))) + card (set targets)"
    by (elim exE conjE)
      (rule that, assumption, simp add: sample_params_def boot_addresses_def, assumption)
  then show ?thesis by (intro exI [of _ bh']) (simp add: sample_behaviour_def)
qed

text \<open>The peers that a message of the service goes to, and the channel of its replies.\<close>

definition addressed :: "('pid set \<Rightarrow> 'pid list) \<Rightarrow> 'pid network_message \<Rightarrow>
    ('ping, 'ident, 'kad, 'mdns, 'pid, 'addr, 'rr) behaviour \<Rightarrow> 'pid list" where
  "addressed order msg bh =
     (case nm_message msg of
        Broadcast payload tx \<Rightarrow> order (d_peers (bh_discovery bh))
      | Multicast ids payload tx \<Rightarrow> ids
      | SendDirect peer payload tx \<Rightarrow> [peer])"

definition reply_channel :: "'pid network_message \<Rightarrow> chan option" where
  "reply_channel msg =
     (case nm_message msg of
        Broadcast payload tx \<Rightarrow> tx
      | Multicast ids payload tx \<Rightarrow> tx
      | SendDirect peer payload tx \<Rightarrow> Some tx)"

lemma dispatch_unregistered:
  assumes "protocols (bh_broadcast bh) (as_protocol_id (nm_room_id msg)) = None"
  shows "worker_dispatch R dbg order now msg bh =
    Inr (bh, case reply_channel msg of None \<Rightarrow> []
      | Some tx \<Rightarrow> replicate (length (addressed order msg bh)) (Reply tx (Inl UnknownProtocol)))"
  using assms
  by (cases msg; cases "nm_message msg")
    (auto simp: worker_dispatch_def behaviour_broadcast_message_def behaviour_send_message_def
      broadcast_send_message_def behaviour_peers_def broadcast_message_unregistered addressed_def
      reply_channel_def send_wire_message_def split: option.splits)

text \<open>Whatever the room, no message of the service makes the worker panic.\<close>

lemma broadcast_message_runs:
  assumes "rr_fresh R used" and "outbound_inv used b"
  shows "\<exists>b' es. broadcast_message R dbg now targets name ctx payload pending connect b = Inr (b', es) \<and>
    outbound_inv used b' \<and> dom (protocols b') = dom (protocols b)"
  using assms(2)
proof (induction targets arbitrary: b)
  case Nil
  then show ?case by simp
next
  case (Cons t ts)
  let ?m = "\<lparr>wm_context = ctx, wm_payload = payload, wm_is_broadcast = True\<rparr>"
  obtain b1 es1 where
    "send_wire_message R dbg now t name ?m pending connect b = Inr (b1, es1)"
    and b1: "outbound_inv used b1" "dom (protocols b1) = dom (protocols b)"
    using assms(1) Cons.prems
    by (cases rule: send_wire_message_cases [where name = name and target = t and m = ?m and
          connect = connect and dbg = dbg and now = now and pending = pending])
      (use Cons.prems in auto)
  with Cons.IH [OF b1(1)] show ?case by auto
qed

lemma dispatch_runs:
  assumes "rr_fresh R used" and "outbound_inv used (bh_broadcast bh)"
  shows "\<exists>bh' es. worker_dispatch R dbg order now msg bh = Inr (bh', es) \<and>
    outbound_inv used (bh_broadcast bh') \<and>
    dom (protocols (bh_broadcast bh')) = dom (protocols (bh_broadcast bh))"
proof -
  obtain room ctx m where msg: "msg = RequestResponse room ctx m" by (cases msg)
  have many: "\<exists>bh' es. behaviour_broadcast_message R dbg now targets payload room ctx tx TryConnect bh =
      Inr (bh', es) \<and> outbound_inv used (bh_broadcast bh') \<and>
      dom (protocols (bh_broadcast bh')) = dom (protocols (bh_broadcast bh))" for targets payload tx
    using broadcast_message_runs [OF assms, of dbg now targets "as_protocol_id room" ctx payload tx
        TryConnect]
    by (auto simp: behaviour_broadcast_message_def)
  have one: "\<exists>bh' es. behaviour_send_message R dbg now p payload room ctx tx TryConnect bh =
      Inr (bh', es) \<and> outbound_inv used (bh_broadcast bh') \<and>
      dom (protocols (bh_broadcast bh')) = dom (protocols (bh_broadcast bh))" for p payload tx
    using assms
    by (cases rule: send_wire_message_cases [where name = "as_protocol_id room" and target = p and
          m = "\<lparr>wm_context = ctx, wm_payload = payload, wm_is_broadcast = False\<rparr>" and
          connect = TryConnect and dbg = dbg and now = now and pending = "Some tx"])
      (use assms in \<open>auto simp: behaviour_send_message_def broadcast_send_message_def\<close>)
  show ?thesis
    using many one by (cases m) (auto simp: msg worker_dispatch_def)
qed

text \<open>
  The worker's loop never panics and stops only with one of its streams. As long as the swarm
  returns and keeps the multiplexer's table consistent, the loop serves any sequence of messages and events,
  multicasts to unknown rooms included; the rooms stay registered; and the loop has ended exactly
  when the swarm or the service's channel has.
\<close>

theorem worker_loop_runs:
  assumes "rr_fresh R used" and "outbound_inv used (bh_broadcast bh)"
    and "\<forall>now f ev b. (now, SwarmNext f ev) \<in> set inputs \<and> outbound_inv used (bh_broadcast b) \<longrightarrow>
      (\<exists>b' es. f b = Some (Inr (b', es)) \<and> outbound_inv used (bh_broadcast b') \<and>
         dom (protocols (bh_broadcast b')) = dom (protocols (bh_broadcast b)))"
  shows "\<exists>bh' es ended. worker_loop R dbg order inputs bh = Some (Inr (bh', es, ended)) \<and>
    outbound_inv used (bh_broadcast bh') \<and>
    dom (protocols (bh_broadcast bh')) = dom (protocols (bh_broadcast bh)) \<and>
    (ended \<longleftrightarrow> (\<exists>now f. (now, SwarmNext f None) \<in> set inputs \<or> (now, ServiceNext None) \<in> set inputs))"
  using assms(2,3)
proof (induction inputs arbitrary: bh)
  case Nil
  then show ?case by (intro exI [of _ bh] exI [of _ "[]"] exI [of _ False]) simp
next
  case (Cons i inputs)
  obtain now pick where i: "i = (now, pick)" by force
  have later: "\<forall>now f ev b. (now, SwarmNext f ev) \<in> set inputs \<and> outbound_inv used (bh_broadcast b) \<longrightarrow>
      (\<exists>b' es. f b = Some (Inr (b', es)) \<and> outbound_inv used (bh_broadcast b') \<and>
         dom (protocols (bh_broadcast b')) = dom (protocols (bh_broadcast b)))"
    using Cons.prems(2) by (meson list.set_intros(2))
  show ?case
  proof (cases pick)
    case (SwarmNext f ev)
    from Cons.prems i SwarmNext obtain b1 es1 where f: "f bh = Some (Inr (b1, es1))"
      "outbound_inv used (bh_broadcast b1)"
      "dom (protocols (bh_broadcast b1)) = dom (protocols (bh_broadcast bh))"
      by (metis list.set_intros(1))
    then show ?thesis
      using Cons.IH [OF f(2) later] i SwarmNext by (cases ev) auto
  next
    case (ServiceNext msg)
    show ?thesis
    proof (cases msg)
      case None
      with Cons.prems(1) i ServiceNext show ?thesis by auto
    next
      case (Some request)
      from dispatch_runs [OF assms(1) Cons.prems(1)] obtain bh1 es1 where
        "worker_dispatch R dbg order now request bh = Inr (bh1, es1)"
        and inv: "outbound_inv used (bh_broadcast bh1)"
        "dom (protocols (bh_broadcast bh1)) = dom (protocols (bh_broadcast bh))" by blast
      with Cons.IH [OF inv(1) later] i ServiceNext Some show ?thesis by auto
    qed
  qed
qed

theorem worker_loop_runs_witness:
  "\<exists>bh' es. worker_loop sample_rr True sorted_list_of_set
      [(1, SwarmNext (\<lambda>bh. Some (Inr (bh, []))) (Some SeNewListenAddr)),
       (2, ServiceNext (Some (RequestResponse (RoomId ''zz'')
         \<lparr>message_type = Coordination, session_id = 0, protocol_id = 0\<rparr> (SendDirect 4 [1] 6)))),
       (3, ServiceNext None)] sample_behaviour = Some (Inr (bh', es, True))"
proof -
  let ?is = "[(1, SwarmNext (\<lambda>bh. Some (Inr (bh, []))) (Some SeNewListenAddr)),
       (2, ServiceNext (Some (RequestResponse (RoomId ''zz'')
         \<lparr>message_type = Coordination, session_id = 0, protocol_id = 0\<rparr> (SendDirect 4 [1] 6)))),
       (3, ServiceNext None)]"
  have "\<forall>now f ev b. (now, SwarmNext f ev) \<in> set ?is \<and> outbound_inv (\<lambda>s. {..<s}) (bh_broadcast b) \<longrightarrow>
      (\<exists>b' es. f b = Some (Inr (b', es)) \<and> outbound_inv (\<lambda>s. {..<s}) (bh_broadcast b') \<and>
         dom (protocols (bh_broadcast b')) = dom (protocols (bh_broadcast b)))"
    by auto
  from worker_loop_runs [OF sample_rr_fresh sample_behaviour_inv this, of True sorted_list_of_set]
  show ?thesis by auto
qed

text \<open>
  A message to a room that is not registered fails at once and completely. Whatever its routing,
  every peer it addresses gets one \<open>UnknownProtocol\<close> reply on the caller's channel, if there is one,
  and the behaviour is left as it was.
\<close>

theorem worker_unknown_room:
  assumes "protocols (bh_broadcast bh) (as_protocol_id (nm_room_id msg)) = None"
  shows "worker_dispatch R dbg order now msg bh =
    Inr (bh, case reply_channel msg of None \<Rightarrow> []
      | Some tx \<Rightarrow> replicate (length (addressed order msg bh)) (Reply tx (Inl UnknownProtocol)))"
  using dispatch_unregistered [OF assms] .

theorem worker_unknown_room_witness:
  "worker_dispatch sample_rr True sorted_list_of_set 2
     (service_multicast (RoomId ''zz'') [4, 5]
        \<lparr>message_type = Coordination, session_id = 0, protocol_id = 0\<rparr> [1] (Some 6)) sample_behaviour =
   Inr (sample_behaviour, [Reply 6 (Inl UnknownProtocol), Reply 6 (Inl UnknownProtocol)])"
proof -
  let ?m = "service_multicast (RoomId ''zz'') [4, 5]
        \<lparr>message_type = Coordination, session_id = 0, protocol_id = 0\<rparr> [1] (Some 6) :: nat network_message"
  have "protocols (bh_broadcast sample_behaviour) (as_protocol_id (nm_room_id ?m)) = None"
    by (simp add: sample_behaviour_def as_protocol_id_def service_multicast_def)
  from worker_unknown_room [OF this] show ?thesis
    by (simp add: reply_channel_def addressed_def service_multicast_def)
qed

section \<open>Every peer gets an answer\<close>

text \<open>The request that an event of a protocol's behaviour settles.\<close>

fun settled_request :: "'pid rr_event \<Rightarrow> request_id option" where
  "settled_request (ResponseReceived p rid r) = Some rid"
| "settled_request (OutboundFailure p rid e) = Some rid"
| "settled_request _ = None"

text \<open>
  A sequence of events of the protocol \<open>name\<close>, each with its instant and the channel made for it, as
  the polls of the multiplexer handle them one after the other.
\<close>

fun handle_events ::
  "bool \<Rightarrow> (chan \<Rightarrow> bool) \<Rightarrow> string \<Rightarrow> (nat \<times> chan \<times> 'pid rr_event) list \<Rightarrow>
   ('rr, 'pid) broadcast \<Rightarrow> panic + ('rr, 'pid) broadcast \<times> 'pid effect list" where
  "handle_events dbg accepts name [] b = Inr (b, [])"
| "handle_events dbg accepts name ((now, tx, ev) # evs) b =
     and_then (on_event dbg now tx accepts name ev b) (\<lambda>(b', es, out).
       map_sum id (\<lambda>(b'', es'). (b'', es @ es')) (handle_events dbg accepts name evs b'))"

lemma on_event_settles:
  assumes "settled_request ev = Some rid" and "pending_requests b (name, rid) = Some (started, Some tx)"
  shows "\<exists>b' r out. on_event dbg now tx' accepts name ev b = Inr (b', [Reply tx r], out) \<and>
    pending_requests b' = (pending_requests b)((name, rid) := None)"
  using assms
  by (intro exI [of _ "b\<lparr>pending_requests := (pending_requests b)((name, rid) := None)\<rparr>"], cases ev)
    (auto simp: on_event.simps on_response_def on_outbound_failure_def Let_def)

lemma handle_events_settle:
  assumes "distinct rids" and "map (\<lambda>(now, c, ev). settled_request ev) evs = map Some rids"
    and "\<forall>rid \<in> set rids. \<exists>started. pending_requests b (name, rid) = Some (started, Some tx)"
  shows "\<exists>b' es. handle_events dbg accepts name evs b = Inr (b', es) \<and> length es = length rids \<and>
    (\<forall>e \<in> set es. \<exists>r. e = Reply tx r) \<and>
    pending_requests b' = (\<lambda>k. if fst k = name \<and> snd k \<in> set rids then None else pending_requests b k)"
  using assms
proof (induction rids arbitrary: evs b)
  case Nil
  then show ?case by simp
next
  case (Cons rid rids)
  from Cons.prems(2) obtain now c ev evs' where evs: "evs = (now, c, ev) # evs'"
    and ev: "settled_request ev = Some rid"
    and rest: "map (\<lambda>(now, c, ev). settled_request ev) evs' = map Some rids"
    by (cases evs) auto
  from Cons.prems(3) obtain started where "pending_requests b (name, rid) = Some (started, Some tx)"
    by auto
  from on_event_settles [OF ev this] obtain b1 r out where
    step: "on_event dbg now c accepts name ev b = Inr (b1, [Reply tx r], out)"
    and b1: "pending_requests b1 = (pending_requests b)((name, rid) := None)" by blast
  have "\<forall>rid' \<in> set rids. \<exists>started. pending_requests b1 (name, rid') = Some (started, Some tx)"
    using Cons.prems(1,3) b1 by auto
  from Cons.IH [OF _ rest this] Cons.prems(1) obtain b2 es where
    run: "handle_events dbg accepts name evs' b1 = Inr (b2, es)" and "length es = length rids"
    and "\<forall>e \<in> set es. \<exists>r. e = Reply tx r"
    and b2: "pending_requests b2 = (\<lambda>k. if fst k = name \<and> snd k \<in> set rids then None else pending_requests b1 k)"
    by auto
  moreover have "pending_requests b2 =
      (\<lambda>k. if fst k = name \<and> snd k \<in> set (rid # rids) then None else pending_requests b k)"
    unfolding b2 b1 by (auto simp: fun_eq_iff)
  ultimately show ?case
    using step by (intro exI [of _ b2] exI [of _ "Reply tx r # es"]) (simp add: evs)
qed

text \<open>
  C12: Every peer that is addressed is answered for, exactly once. After a broadcast, let the behaviour
  of the room report, in any order and with any results, the outcome of each request that the
  broadcast has made, as libp2p promises to. Then the caller's channel has been sent, at once or
  later, exactly one reply per addressed peer, and the table of outstanding requests is as before.
\<close>

theorem broadcast_answered_completely:
  assumes "rr_fresh R used" and "outbound_inv used b"
    and "broadcast_message R dbg now targets name ctx payload (Some tx) connect b = Inr (b1, es1)"
    and "distinct rids" and "map (\<lambda>(now, c, ev). settled_request ev) evs = map Some rids"
    and "\<forall>rid. rid \<in> set rids \<longleftrightarrow>
      pending_requests b (name, rid) = None \<and> pending_requests b1 (name, rid) \<noteq> None"
  shows "\<exists>b2 es2. handle_events dbg accepts name evs b1 = Inr (b2, es2) \<and>
    length (es1 @ es2) = length targets \<and> (\<forall>e \<in> set (es1 @ es2). \<exists>r. e = Reply tx r) \<and>
    pending_requests b2 = pending_requests b"
proof -
  from broadcast_message_settles [OF assms(1,2), where dbg = dbg and now = now and targets = targets and
      name = name and ctx = ctx and payload = payload and tx = tx and connect = connect]
  have b1: "outbound_inv used b1"
    "card (dom (pending_requests b1)) + length es1 = card (dom (pending_requests b)) + length targets"
    "pending_requests b \<subseteq>\<^sub>m pending_requests b1"
    "\<forall>k. pending_requests b k = None \<and> pending_requests b1 k \<noteq> None \<longrightarrow>
       pending_requests b1 k = Some (now, Some tx) \<and> fst k = name"
    "set es1 \<subseteq> {Reply tx (Inl NotConnected), Reply tx (Inl UnknownProtocol)}"
    using assms(3) by auto
  have "\<forall>rid \<in> set rids. \<exists>started. pending_requests b1 (name, rid) = Some (started, Some tx)"
    using assms(6) b1(4) by blast
  from handle_events_settle [OF assms(4,5) this, of dbg accepts] obtain b2 es2 where
    run: "handle_events dbg accepts name evs b1 = Inr (b2, es2)" and len: "length es2 = length rids"
    and replies: "\<forall>e \<in> set es2. \<exists>r. e = Reply tx r"
    and b2: "pending_requests b2 =
      (\<lambda>k. if fst k = name \<and> snd k \<in> set rids then None else pending_requests b1 k)" by blast
  have keep: "pending_requests b1 k = pending_requests b k" if "pending_requests b k \<noteq> None" for k
    using b1(3) that unfolding map_le_def by (metis domIff)
  have "pending_requests b2 k = pending_requests b k" for k
  proof (cases "pending_requests b k = None")
    case True
    show ?thesis
    proof (cases "pending_requests b1 k = None")
      case False
      with True b1(4) have "fst k = name" by blast
      with True False assms(6) have "snd k \<in> set rids" by (metis prod.collapse)
      with True \<open>fst k = name\<close> show ?thesis by (simp add: b2)
    qed (simp add: b2 True)
  next
    case False
    have "\<not> (fst k = name \<and> snd k \<in> set rids)" using False assms(6) by (metis prod.collapse)
    with keep [OF False] show ?thesis by (auto simp: b2)
  qed
  then have restored: "pending_requests b2 = pending_requests b" by (rule ext)
  have "dom (pending_requests b1) = dom (pending_requests b) \<union> (\<lambda>rid. (name, rid)) ` set rids"
  proof (intro set_eqI iffI)
    fix k assume k: "k \<in> dom (pending_requests b1)"
    show "k \<in> dom (pending_requests b) \<union> (\<lambda>rid. (name, rid)) ` set rids"
    proof (cases "pending_requests b k = None")
      case True
      with k b1(4) assms(6) show ?thesis by (metis UnCI domIff imageI prod.collapse)
    qed (simp add: domIff)
  next
    fix k assume "k \<in> dom (pending_requests b) \<union> (\<lambda>rid. (name, rid)) ` set rids"
    then show "k \<in> dom (pending_requests b1)"
      using keep [of k] assms(6) by (cases k) (auto simp: domIff)
  qed
  moreover have "dom (pending_requests b) \<inter> (\<lambda>rid. (name, rid)) ` set rids = {}"
    using assms(6) by (auto simp: domIff)
  moreover have "finite (dom (pending_requests b))" using assms(2) by (simp add: outbound_inv_def)
  ultimately have "card (dom (pending_requests b1)) = card (dom (pending_requests b)) + length rids"
    using assms(4) by (simp add: card_Un_disjoint card_image inj_on_def distinct_card)
  with b1(2) len have "length (es1 @ es2) = length targets" by simp
  moreover have "\<forall>e \<in> set (es1 @ es2). \<exists>r. e = Reply tx r" using b1(5) replies by auto
  ultimately show ?thesis using run restored by blast
qed

theorem broadcast_answered_completely_witness:
  "\<exists>b1 b2 es2. broadcast_message sample_rr True 3 [1, 2] ''room''
       \<lparr>message_type = Coordination, session_id = 0, protocol_id = 0\<rparr> [9] (Some 4) TryConnect
       sample_broadcast = Inr (b1, []) \<and>
     handle_events True (\<lambda>_. True) ''room'' [(5, 0, ResponseReceived 2 1 (Inr [])),
       (6, 0, OutboundFailure 1 0 ''timeout'')] b1 = Inr (b2, es2) \<and> length es2 = 2"
proof -
  let ?evs = "[(5, 0, ResponseReceived 2 1 (Inr [])), (6, 0, OutboundFailure 1 0 ''timeout'')]
    :: (nat \<times> chan \<times> nat rr_event) list"
  obtain b1 where run: "broadcast_message sample_rr True 3 [1, 2] ''room''
       \<lparr>message_type = Coordination, session_id = 0, protocol_id = 0\<rparr> [9] (Some 4) TryConnect
       sample_broadcast = Inr (b1, [])"
    and b1: "pending_requests b1 = [(''room'', 0) \<mapsto> (3, Some 4), (''room'', 1) \<mapsto> (3, Some 4)]"
    by (simp add: send_wire_message_def sample_rr_def sample_broadcast_def)
  have "distinct [1 :: nat, 0]"
    and "map (\<lambda>(now, c, ev). settled_request ev) ?evs = map Some [1, 0]" by simp_all
  moreover have "\<forall>rid. rid \<in> set [1, 0] \<longleftrightarrow> pending_requests sample_broadcast (''room'', rid) = None \<and>
      pending_requests b1 (''room'', rid) \<noteq> None"
    by (simp add: b1 sample_broadcast_def)
  ultimately show ?thesis
    using broadcast_answered_completely [OF sample_rr_fresh sample_broadcast_inv run,
        where rids = "[1, 0]" and evs = ?evs and accepts = "\<lambda>_. True"] run by auto
qed

end
