(* ===== verification/Network.thy ===== *)
theory Network
  imports Worker Multiplexer
begin

text \<open>
  The network task as a whole. libp2p's swarm owns the behaviour; the code that the derive macro
  generates for it passes the swarm's callbacks on to the parts and polls them. That code is not in
  the repository, but all it does with the behaviour is to call the parts: a piece of work of the swarm
  is any sequence of such calls (\<open>part_call\<close>), each of which is the modelled operation. The theorem of
  this theory composes the worker's creation, its loop, the multiplexer, the discovery and the event
  handlers of the behaviour.
\<close>

section \<open>Calls on the parts\<close>

datatype ('ping, 'ident, 'pid, 'ev, 'hev, 'info, 'd) part_call =
    NotifyBroadcast "'pid swarm_event"
  | NotifyDiscovery "'pid swarm_event"
  | HandlerBroadcast 'pid string 'ev
  | HandlerDiscovery 'pid 'hev
  | PollBroadcast poll_env "('pid pending_response \<times> outgoing_response option) list"
  | PollDiscovery
  | StepIdentify 'ident "('pid, 'info) identify_event option"
  | StepPing 'ping "('pid, 'd) ping_event option"
  | PollEvents

text \<open>
  An event that a part generates is injected into the behaviour; other actions go to the swarm. The
  states of identify and ping change in any way.
\<close>

definition inject_action ::
  "('out \<Rightarrow> 'bh \<Rightarrow> 'bh) \<Rightarrow> ('out, 'pid, 'addr, 'h, 'iev, 'x) swarm_action option \<Rightarrow> 'bh \<Rightarrow> 'bh" where
  "inject_action inject act bh = (case act of Some (GenerateEvent out) \<Rightarrow> inject out bh | _ \<Rightarrow> bh)"

fun part_exec ::
  "('rr, 'pid, 'ev) rr_ops \<Rightarrow> ('rr, 'pid, 'addr, 'h, 'iev, 'y) rr_poll_ops \<Rightarrow>
   ('kad, 'pid, 'addr, 'kev, 'x, 'hev) kad_ops \<Rightarrow> ('mdns, 'pid, 'addr, 'x) mdns_ops \<Rightarrow> bool \<Rightarrow> bool \<Rightarrow>
   (string set \<Rightarrow> string list) \<Rightarrow> ('ping, 'ident, 'pid, 'ev, 'hev, 'info, 'd) part_call \<Rightarrow>
   ('ping, 'ident, 'kad, 'mdns, 'pid, 'addr, 'rr) behaviour \<Rightarrow>
   (panic + ('ping, 'ident, 'kad, 'mdns, 'pid, 'addr, 'rr) behaviour \<times> 'pid effect list) option" where
  "part_exec R H K M dbg checks names (NotifyBroadcast sev) bh =
     Some (Inr (bh\<lparr>bh_broadcast := broadcast_notify R sev (bh_broadcast bh)\<rparr>, []))"
| "part_exec R H K M dbg checks names (NotifyDiscovery sev) bh =
     Some (map_sum id (\<lambda>d. (bh\<lparr>bh_discovery := d\<rparr>, []))
       (discovery_notify K M checks sev (bh_discovery bh)))"
| "part_exec R H K M dbg checks names (HandlerBroadcast peer name ev) bh =
     Some (Inr (bh\<lparr>bh_broadcast := broadcast_inject_event R peer name ev (bh_broadcast bh)\<rparr>, []))"
| "part_exec R H K M dbg checks names (HandlerDiscovery peer ev) bh =
     Some (Inr (bh\<lparr>bh_discovery := discovery_inject_event K peer ev (bh_discovery bh)\<rparr>, []))"
| "part_exec R H K M dbg checks names (PollBroadcast E ready) bh =
     map_option (map_sum id (\<lambda>(i, b, es, act).
         (inject_action inject_broadcast_out act (bh\<lparr>bh_broadcast := b\<rparr>), es)))
       (broadcast_poll R H dbg names E ready (bh_broadcast bh))"
| "part_exec R H K M dbg checks names PollDiscovery bh =
     map_option (\<lambda>(d, act). Inr (inject_action inject_discovery_out act (bh\<lparr>bh_discovery := d\<rparr>), []))
       (discovery_poll K M (bh_discovery bh))"
| "part_exec R H K M dbg checks names (StepIdentify s ev) bh =
     Some (Inr (case ev of None \<Rightarrow> bh\<lparr>bh_identify := s\<rparr>
       | Some e \<Rightarrow> inject_identify_event e (bh\<lparr>bh_identify := s\<rparr>), []))"
| "part_exec R H K M dbg checks names (StepPing s ev) bh =
     Some (Inr (case ev of None \<Rightarrow> bh\<lparr>bh_ping := s\<rparr>
       | Some e \<Rightarrow> inject_ping_event e (bh\<lparr>bh_ping := s\<rparr>), []))"
| "part_exec R H K M dbg checks names PollEvents bh = Some (Inr (fst (behaviour_poll bh), []))"

fun calls_exec ::
  "('rr, 'pid, 'ev) rr_ops \<Rightarrow> ('rr, 'pid, 'addr, 'h, 'iev, 'y) rr_poll_ops \<Rightarrow>
   ('kad, 'pid, 'addr, 'kev, 'x, 'hev) kad_ops \<Rightarrow> ('mdns, 'pid, 'addr, 'x) mdns_ops \<Rightarrow> bool \<Rightarrow> bool \<Rightarrow>
   (string set \<Rightarrow> string list) \<Rightarrow> ('ping, 'ident, 'pid, 'ev, 'hev, 'info, 'd) part_call list \<Rightarrow>
   ('ping, 'ident, 'kad, 'mdns, 'pid, 'addr, 'rr) behaviour \<Rightarrow>
   (panic + ('ping, 'ident, 'kad, 'mdns, 'pid, 'addr, 'rr) behaviour \<times> 'pid effect list) option" where
  "calls_exec R H K M dbg checks names [] bh = Some (Inr (bh, []))"
| "calls_exec R H K M dbg checks names (c # cs) bh =
     (case part_exec R H K M dbg checks names c bh of
        None \<Rightarrow> None
      | Some (Inl p) \<Rightarrow> Some (Inl p)
      | Some (Inr (bh', es)) \<Rightarrow>
          map_option (map_sum id (\<lambda>(bh'', es'). (bh'', es @ es')))
            (calls_exec R H K M dbg checks names cs bh'))"

text \<open>
  What happens to the task: the swarm does a piece of work and reports an event or its end, or the
  channel of the service has a message or is closed.
\<close>

datatype ('ping, 'ident, 'pid, 'ev, 'hev, 'info, 'd) net_input =
    SwarmWork "('ping, 'ident, 'pid, 'ev, 'hev, 'info, 'd) part_call list" "'pid worker_event option"
  | ServiceMessage "'pid network_message option"

fun input_calls ::
  "('ping, 'ident, 'pid, 'ev, 'hev, 'info, 'd) net_input \<Rightarrow>
   ('ping, 'ident, 'pid, 'ev, 'hev, 'info, 'd) part_call list" where
  "input_calls (SwarmWork calls ev) = calls"
| "input_calls (ServiceMessage msg) = []"

fun worker_input_of ::
  "('rr, 'pid, 'ev) rr_ops \<Rightarrow> ('rr, 'pid, 'addr, 'h, 'iev, 'y) rr_poll_ops \<Rightarrow>
   ('kad, 'pid, 'addr, 'kev, 'x, 'hev) kad_ops \<Rightarrow> ('mdns, 'pid, 'addr, 'x) mdns_ops \<Rightarrow> bool \<Rightarrow> bool \<Rightarrow>
   (string set \<Rightarrow> string list) \<Rightarrow> ('ping, 'ident, 'pid, 'ev, 'hev, 'info, 'd) net_input \<Rightarrow>
   (('ping, 'ident, 'kad, 'mdns, 'pid, 'addr, 'rr) behaviour, 'pid) worker_input" where
  "worker_input_of R H K M dbg checks names (SwarmWork calls ev) =
     SwarmNext (calls_exec R H K M dbg checks names calls) ev"
| "worker_input_of R H K M dbg checks names (ServiceMessage msg) = ServiceNext msg"

text \<open>
  The connections open after some calls, when they begin with \<open>n\<close> of them. The swarm closes only
  connections that it has established, and there are less than \<open>2^64\<close> of them.
\<close>

definition connection_limit :: nat where
  "connection_limit = 2 ^ 64"

fun connections_after :: "nat \<Rightarrow> ('ping, 'ident, 'pid, 'ev, 'hev, 'info, 'd) part_call list \<Rightarrow> nat option" where
  "connections_after n [] = Some n"
| "connections_after n (c # cs) =
     (case c of
        NotifyDiscovery (SwConnectionEstablished p) \<Rightarrow>
          if Suc n < connection_limit then connections_after (Suc n) cs else None
      | NotifyDiscovery (SwConnectionClosed p) \<Rightarrow> if n = 0 then None else connections_after (n - 1) cs
      | _ \<Rightarrow> connections_after n cs)"

section \<open>One call\<close>

definition task_inv ::
  "('rr \<Rightarrow> rr_obs) \<Rightarrow> string set \<Rightarrow> nat \<Rightarrow>
   ('ping, 'ident, 'kad, 'mdns, 'pid, 'addr, 'rr) behaviour \<Rightarrow> bool" where
  "task_inv view D n bh \<longleftrightarrow> mux_inv view (bh_broadcast bh) \<and> dom (protocols (bh_broadcast bh)) = D \<and>
     unat (d_num_connections (bh_discovery bh)) = n"

text \<open>What the parts are known to do: libp2p's contract, and that nothing is ready for ever.\<close>

definition parts_ok ::
  "('rr, 'pid, 'ev) rr_ops \<Rightarrow> ('rr, 'pid, 'addr, 'h, 'iev, 'y) rr_poll_ops \<Rightarrow> ('rr \<Rightarrow> rr_obs) \<Rightarrow>
   ('kad, 'pid, 'addr, 'kev, 'x, 'hev) kad_ops \<Rightarrow> ('mdns, 'pid, 'addr, 'x) mdns_ops \<Rightarrow> bool" where
  "parts_ok R H view K M \<longleftrightarrow> rr_contract R H view \<and> (\<forall>p. loop_rests is_request (rr_poll H) p) \<and>
     (\<forall>k. loop_rests kad_swallows (k_poll K) k) \<and> (\<forall>m. loop_rests mdns_swallows (m_poll M) m)"
lemma discovery_poll_total:
  assumes "parts_ok R H view K M"
  obtains d' act where "discovery_poll K M d = Some (d', act)"
proof -
  have "kad_loop K k \<noteq> None" for k
    using assms kad_loop_returns [of K k] by (simp add: parts_ok_def)
  then have "poll_kademlia K kad \<noteq> None" for kad by (cases kad) (simp_all add: poll_kademlia_def)
  then obtain kad a where kad: "poll_kademlia K (d_kademlia d) = Some (kad, a)" by fastforce
  have "mdns_loop K M k m \<noteq> None" for k m
    using assms mdns_loop_returns [of K M k m] by (simp add: parts_ok_def)
  then have "poll_mdns K M k m \<noteq> None" for k m by (cases m) (simp_all add: poll_mdns_def)
  then obtain k m a' where "poll_mdns K M kad (d_mdns d) = Some (k, m, a')" by fastforce
  with kad have "discovery_poll K M d \<noteq> None" by (auto simp: discovery_poll_def Let_def split: option.splits)
  with that show ?thesis by fastforce
qed

lemma discovery_poll_connections:
  "discovery_poll K M d = Some (d', act) \<Longrightarrow> d_num_connections d' = d_num_connections d"
  by (erule discovery_poll_cases) simp_all

text \<open>A legal notification does not panic, and the counter follows it.\<close>

lemma notify_counts:
  assumes "connections_after (unat (d_num_connections d)) [NotifyDiscovery sev] = Some n"
  shows "\<exists>d'. discovery_notify K M checks sev d = Inr d' \<and> unat (d_num_connections d') = n"
proof -
  let ?c = "d_num_connections d"
  have succ: "?c \<noteq> - 1 \<and> unat (?c + 1) = Suc (unat ?c)" if "Suc (unat ?c) < connection_limit"
  proof -
    have "unat (?c + 1) = Suc (unat ?c) mod connection_limit"
      by (simp only: unat_word_ariths unat_1 Suc_eq_plus1 connection_limit_def) (simp add: unat_1)
    with that have "unat (?c + 1) = Suc (unat ?c)" by simp
    moreover from this have "?c \<noteq> - 1" by (metis add.left_inverse add.commute nat.distinct(1) unat_0)
    ultimately show ?thesis by blast
  qed
  have pred: "?c \<noteq> 0 \<and> unat (?c - 1) = unat ?c - 1" if "unat ?c \<noteq> 0"
  proof -
    have "?c \<noteq> 0" using that by auto
    with unat_minus_one [OF this] show ?thesis by simp
  qed
  show ?thesis
    using assms succ pred
    by (cases sev) (auto simp: inject_connected_def inject_disconnected_def
        inject_connection_established_def inject_connection_closed_def notify_kademlia_def
        addresses_of_peer_frame(3) split: if_splits prod.splits)
qed

lemma connections_after_Cons:
  "connections_after n (c # cs) =
     Option.bind (connections_after n [c]) (\<lambda>m. connections_after m cs)"
proof (cases c)
  case (NotifyDiscovery sev)
  then show ?thesis by (cases sev) simp_all
qed simp_all

lemma connections_after_append:
  "connections_after n (cs @ ds) = Option.bind (connections_after n cs) (\<lambda>m. connections_after m ds)"
proof (induction cs arbitrary: n)
  case (Cons c cs)
  have "connections_after n ((c # cs) @ ds) =
      Option.bind (connections_after n [c]) (\<lambda>m. connections_after m (cs @ ds))"
    unfolding append_Cons by (rule connections_after_Cons)
  also have "\<dots> = Option.bind (Option.bind (connections_after n [c]) (\<lambda>m. connections_after m cs))
      (\<lambda>m. connections_after m ds)"
    by (simp only: Cons Option.bind_assoc)
  also have "Option.bind (connections_after n [c]) (\<lambda>m. connections_after m cs) =
      connections_after n (c # cs)"
    by (rule connections_after_Cons [symmetric])
  finally show ?case .
qed simp

lemma inject_broadcast_frame [frame_simps]:
  "bh_broadcast (inject_action inject_broadcast_out act bh) = bh_broadcast bh"
  "bh_discovery (inject_action inject_broadcast_out act bh) = bh_discovery bh"
proof -
  have "bh_broadcast (inject_broadcast_out out bh) = bh_broadcast bh \<and>
      bh_discovery (inject_broadcast_out out bh) = bh_discovery bh" for out
    by (cases out) simp_all
  then show "bh_broadcast (inject_action inject_broadcast_out act bh) = bh_broadcast bh"
    "bh_discovery (inject_action inject_broadcast_out act bh) = bh_discovery bh"
    by (auto simp: inject_action_def split: option.splits swarm_action.splits)
qed

lemma inject_discovery_action [simp]: "inject_action inject_discovery_out act bh = bh"
  by (auto simp: inject_action_def split: option.splits swarm_action.splits)

lemma part_exec_safe:
  assumes "parts_ok R H view K M" and "hash_order names" and "task_inv view D n bh"
    and "connections_after n [c] = Some m"
  shows "\<exists>bh' es. part_exec R H K M dbg checks names c bh = Some (Inr (bh', es)) \<and> task_inv view D m bh'"
proof -
  have contract: "rr_contract R H view" using assms(1) by (simp add: parts_ok_def)
  have inv: "mux_inv view (bh_broadcast bh)" "dom (protocols (bh_broadcast bh)) = D"
    "unat (d_num_connections (bh_discovery bh)) = n" using assms(3) by (simp_all add: task_inv_def)
  show ?thesis
  proof (cases c)
    case (NotifyBroadcast sev)
    with mux_inv_notify [OF contract inv(1), of sev] inv assms(4) show ?thesis by (simp add: task_inv_def)
  next
    case (NotifyDiscovery sev)
    with notify_counts [of "bh_discovery bh" sev m K M checks] inv assms(4)
    obtain d' where "discovery_notify K M checks sev (bh_discovery bh) = Inr d'"
      "unat (d_num_connections d') = m" by auto
    with NotifyDiscovery inv show ?thesis by (simp add: task_inv_def)
  next
    case (HandlerBroadcast peer name ev)
    with mux_inv_inject [OF contract inv(1), of peer name ev] inv assms(4) show ?thesis
      by (simp add: task_inv_def)
  next
    case (HandlerDiscovery peer ev)
    then show ?thesis
      using inv assms(4) by (auto simp: task_inv_def discovery_inject_event_def split: option.split)
  next
    case (PollBroadcast E ready)
    have "polled_well view (dom (protocols (bh_broadcast bh)))
        (broadcast_poll R H dbg names E ready (bh_broadcast bh))"
      using broadcast_poll_well [OF contract assms(2) inv(1)] assms(1) by (simp add: parts_ok_def)
    with PollBroadcast inv assms(4) show ?thesis
      by (auto simp: polled_well_def task_inv_def frame_simps)
  next
    case PollDiscovery
    obtain d' act where d': "discovery_poll K M (bh_discovery bh) = Some (d', act)"
      by (rule discovery_poll_total [OF assms(1)])
    with discovery_poll_connections [OF d'] PollDiscovery inv assms(4) show ?thesis
      by (simp add: task_inv_def)
  next
    case (StepIdentify s ev)
    then show ?thesis using inv assms(4) by (auto simp: task_inv_def split: option.split)
  next
    case (StepPing s ev)
    then show ?thesis using inv assms(4) by (auto simp: task_inv_def split: option.split)
  next
    case PollEvents
    then show ?thesis
      using inv assms(4) by (auto simp: task_inv_def behaviour_poll_def split: list.split)
  qed
qed

section \<open>The task\<close>

lemma calls_exec_safe:
  assumes "parts_ok R H view K M" and "hash_order names"
  shows "task_inv view D n bh \<Longrightarrow> connections_after n cs = Some m \<Longrightarrow>
    \<exists>bh' es. calls_exec R H K M dbg checks names cs bh = Some (Inr (bh', es)) \<and> task_inv view D m bh'"
proof (induction cs arbitrary: n bh)
  case (Cons c cs)
  from Cons.prems(2) obtain k where k: "connections_after n [c] = Some k" "connections_after k cs = Some m"
    unfolding connections_after_Cons [of n c cs] bind_eq_Some_conv by blast
  from part_exec_safe [OF assms Cons.prems(1) k(1), of dbg checks] obtain bh1 es1 where
    "part_exec R H K M dbg checks names c bh = Some (Inr (bh1, es1))" "task_inv view D k bh1" by blast
  with Cons.IH [OF _ k(2)] show ?case by fastforce
qed simp

lemma dispatch_safe:
  assumes "rr_contract R H view" and "task_inv view D n bh"
  shows "\<exists>bh' es. worker_dispatch R dbg order now msg bh = Inr (bh', es) \<and> task_inv view D n bh'"
proof -
  obtain room ctx m where msg: "msg = RequestResponse room ctx m" by (cases msg)
  have inv: "mux_inv view (bh_broadcast bh)" "dom (protocols (bh_broadcast bh)) = D"
    "unat (d_num_connections (bh_discovery bh)) = n" using assms(2) by (simp_all add: task_inv_def)
  have many: "\<exists>bh' es. behaviour_broadcast_message R dbg now targets payload room ctx tx TryConnect bh =
      Inr (bh', es) \<and> task_inv view D n bh'" for targets payload tx
    using mux_inv_broadcast [OF assms(1) inv(1), of dbg now targets "as_protocol_id room" ctx payload tx
        TryConnect] inv
    by (auto simp: behaviour_broadcast_message_def task_inv_def)
  have one: "\<exists>bh' es. behaviour_send_message R dbg now p payload room ctx tx TryConnect bh =
      Inr (bh', es) \<and> task_inv view D n bh'" for p payload tx
    using mux_inv_send [OF assms(1) inv(1), of dbg now p "as_protocol_id room"
        "\<lparr>wm_context = ctx, wm_payload = payload, wm_is_broadcast = False\<rparr>" "Some tx" TryConnect] inv
    by (auto simp: behaviour_send_message_def broadcast_send_message_def task_inv_def)
  show ?thesis using many one by (cases m) (auto simp: msg worker_dispatch_def)
qed

lemma worker_loop_safe:
  assumes "parts_ok R H view K M" and "hash_order names"
  shows "task_inv view D n bh \<Longrightarrow> connections_after n (concat (map (input_calls \<circ> snd) inputs)) = Some m \<Longrightarrow>
    \<exists>bh' es ended k. worker_loop R dbg order
        (map (map_prod id (worker_input_of R H K M dbg checks names)) inputs) bh =
        Some (Inr (bh', es, ended)) \<and>
      task_inv view D k bh' \<and>
      (ended \<longleftrightarrow> (\<exists>i \<in> set inputs. snd i = ServiceMessage None \<or> (\<exists>cs. snd i = SwarmWork cs None)))"
proof (induction inputs arbitrary: n bh)
  case (Cons i inputs)
  obtain now pick where i: "i = (now, pick)" by force
  have contract: "rr_contract R H view" using assms(1) by (simp add: parts_ok_def)
  show ?case
  proof (cases pick)
    case (SwarmWork cs ev)
    with Cons.prems(2) i obtain k where k: "connections_after n cs = Some k"
      "connections_after k (concat (map (input_calls \<circ> snd) inputs)) = Some m"
      by (auto simp: connections_after_append bind_eq_Some_conv comp_def)
    from calls_exec_safe [OF assms Cons.prems(1) k(1), of dbg checks] obtain bh1 es1 where
      run: "calls_exec R H K M dbg checks names cs bh = Some (Inr (bh1, es1))" "task_inv view D k bh1" by blast
    with Cons.IH [OF run(2) k(2)] i SwarmWork show ?thesis by (cases ev) auto
  next
    case (ServiceMessage msg)
    with Cons.prems(2) i
    have later: "connections_after n (concat (map (input_calls \<circ> snd) inputs)) = Some m"
      by (simp add: comp_def)
    show ?thesis
    proof (cases msg)
      case None
      with Cons.prems(1) i ServiceMessage show ?thesis by auto
    next
      case (Some request)
      from dispatch_safe [OF contract Cons.prems(1), of dbg order now request] obtain bh1 es1 where
        "worker_dispatch R dbg order now request bh = Inr (bh1, es1)" and inv: "task_inv view D n bh1" by blast
      with Cons.IH [OF inv later] i ServiceMessage Some show ?thesis by auto
    qed
  qed
qed auto

lemma worker_new_starts:
  assumes "rr_contract R H view"
    and "worker_new R K M S idn ping peer_id_of noise_ok g cfg pm fs = (fs', Inr (w, svc))"
  shows "task_inv view (as_protocol_id ` ra_id ` set (pm_rooms pm)) 0
    (fst (behaviour_bootstrap K (wk_behaviour w)))"
proof -
  let ?ps = "map room_protocol (pm_rooms pm)"
  obtain kp where bh: "behaviour_new R K M idn ping (peer_id_of kp) ?ps pm = Inr (wk_behaviour w)"
    using assms(2)
    by (auto simp: worker_new_def split: prod.splits sum.splits if_splits fault.splits register_error.splits)
  then obtain b d where b: "broadcast_new R ?ps = Inr b" and d: "discovery_new K M (peer_id_of kp) pm = Inr d"
    and w: "wk_behaviour w = \<lparr>bh_ping = ping, bh_identify = idn MPC_PROTOCOL_ID, bh_discovery = d,
      bh_broadcast = b, bh_events = []\<rparr>"
    by (cases rule: behaviour_new_cases [where R = R and K = K and M = M and ps = ?ps and
          local = "peer_id_of kp" and pm = pm and identify_new = idn and ping = ping]) auto
  have "dom (protocols b) = as_protocol_id ` ra_id ` set (pm_rooms pm)"
    using broadcast_new_outcome [where R = R and list = ?ps] b by (simp add: image_image)
  moreover have "d_num_connections d = 0"
    using d by (auto simp: discovery_new_def Let_def split: if_splits)
  ultimately show ?thesis
    using mux_inv_new [OF assms(1) b] w
    by (auto simp: task_inv_def behaviour_bootstrap_def discovery_bootstrap_def split: option.split prod.split)
qed

text \<open>
  C14: The network task never panics. A worker that was created and is then run through any sequence of
  pieces of work of the swarm and messages of the service, to whatever rooms and peers, returns from
  every one of them; the loop ends exactly when the swarm or the channel of the service has; and at
  the end the rooms are registered as they were configured and the multiplexer's tables are those of
  its behaviours. Required is that libp2p keeps its contract, that no part is ready for ever, and that the
  swarm closes only connections that it has established, less than \<open>2^64\<close> of them.
\<close>

theorem network_task_never_panics:
  assumes "parts_ok R H view K M" and "hash_order names"
    and "worker_new R K M S idn ping peer_id_of noise_ok g cfg pm fs = (fs', Inr (w, svc))"
    and "connections_after 0 (concat (map (input_calls \<circ> snd) inputs)) = Some m"
  shows "\<exists>bh es ended. worker_run R K dbg order
      (map (map_prod id (worker_input_of R H K M dbg checks names)) inputs) w = Some (Inr (bh, es, ended)) \<and>
    mux_inv view (bh_broadcast bh) \<and>
    dom (protocols (bh_broadcast bh)) = as_protocol_id ` ra_id ` set (pm_rooms pm) \<and>
    (ended \<longleftrightarrow> (\<exists>i \<in> set inputs. snd i = ServiceMessage None \<or> (\<exists>cs. snd i = SwarmWork cs None)))"
proof -
  have "rr_contract R H view" using assms(1) by (simp add: parts_ok_def)
  from worker_loop_safe [OF assms(1,2) worker_new_starts [OF this assms(3)] assms(4),
      where dbg = dbg and order = order and checks = checks]
  show ?thesis unfolding worker_run_def task_inv_def by blast
qed

lemma sample_parts_ok:
  "parts_ok sample_mux_rr sample_mux_handlers sample_view sample_kad sample_mdns"
proof -
  have "loop_rests kad_swallows (k_poll sample_kad) k" for k
  proof (induction k)
    case 0
    show ?case by (rule loop_rests.stops) (simp add: sample_kad_def)
  next
    case (Suc k)
    show ?case by (rule loop_rests.again [OF _ _ Suc], simp add: sample_kad_def) simp
  qed
  moreover have "loop_rests mdns_swallows (m_poll sample_mdns) m" for m
  proof (induction m)
    case 0
    show ?case by (rule loop_rests.stops) (simp add: sample_mdns_def)
  next
    case (Suc m)
    show ?case by (rule loop_rests.again [OF _ _ Suc], simp add: sample_mdns_def) simp
  qed
  ultimately show ?thesis using sample_mux_contract sample_mux_rests by (simp add: parts_ok_def)
qed

lemma sample_worker:
  "\<exists>w svc. worker_new sample_mux_rr sample_kad sample_mdns sample_secret_key id () (\<lambda>_. 9) (\<lambda>_. True) 5
     (Ed25519 New) sample_params empty_host = (empty_host, Inr (w, svc))"
proof -
  have "discovery_new sample_kad sample_mdns 9 sample_params = Inr sample_discovery"
    by (rule sample_discovery_new)
  moreover have "\<exists>b. broadcast_new sample_mux_rr (map room_protocol (pm_rooms sample_params)) = Inr b"
    by (simp add: broadcast_new_def register_protocol_def sample_params_def Let_def)
  ultimately show ?thesis by (auto simp: worker_new_def behaviour_new_def)
qed

definition sample_inputs :: "(nat \<times> (unit, string, nat, unit, unit, unit, unit) net_input) list" where
  "sample_inputs =
     [(1, SwarmWork [NotifyDiscovery (SwConnectionEstablished 4), NotifyDiscovery (SwConnected 4),
         NotifyBroadcast (SwConnected 4), PollBroadcast (\<lambda>i. (1, i, \<lambda>_. True)) [],
         HandlerDiscovery 4 (), StepPing () None, StepIdentify ''id'' None, PollEvents, PollDiscovery]
         (Some SeConnectionEstablished)),
      (2, ServiceMessage (Some (service_send (RoomId ''ab'') 4
         \<lparr>message_type = Coordination, session_id = 0, protocol_id = 0\<rparr> [1] 6))),
      (3, SwarmWork [PollBroadcast (\<lambda>i. (3, 10 + i, \<lambda>_. True)) [],
         NotifyDiscovery (SwConnectionClosed 4)] (Some SeConnectionClosed)),
      (4, ServiceMessage None)]"

theorem network_task_never_panics_witness:
  "\<exists>w svc bh es. worker_new sample_mux_rr sample_kad sample_mdns sample_secret_key id () (\<lambda>_. 9)
      (\<lambda>_. True) 5 (Ed25519 New) sample_params empty_host = (empty_host, Inr (w, svc)) \<and>
    worker_run sample_mux_rr sample_kad True sorted_list_of_set
      (map (map_prod id (worker_input_of sample_mux_rr sample_mux_handlers sample_kad sample_mdns True True
         sorted_list_of_set)) sample_inputs) w = Some (Inr (bh, es, True)) \<and>
    mux_inv sample_view (bh_broadcast bh) \<and> dom (protocols (bh_broadcast bh)) = {''/room/ab''}"
proof -
  obtain w svc where w: "worker_new sample_mux_rr sample_kad sample_mdns sample_secret_key id () (\<lambda>_. 9)
      (\<lambda>_. True) 5 (Ed25519 New) sample_params empty_host = (empty_host, Inr (w, svc))"
    using sample_worker by blast
  have names: "hash_order (sorted_list_of_set :: string set \<Rightarrow> string list)" by (simp add: hash_order_def)
  have "connections_after 0 (concat (map (input_calls \<circ> snd) sample_inputs)) = Some 0"
    by (simp add: connection_limit_def sample_inputs_def)
  note outcome = network_task_never_panics [OF sample_parts_ok names w this, of True sorted_list_of_set True]
  have "as_protocol_id ` ra_id ` set (pm_rooms sample_params) = {''/room/ab''}"
    by (simp add: sample_params_def as_protocol_id_def)
  moreover have "\<exists>i \<in> set sample_inputs. snd i = ServiceMessage None \<or> (\<exists>cs. snd i = SwarmWork cs None)"
    by (simp add: sample_inputs_def)
  ultimately show ?thesis using outcome w by auto
qed

end
