(* ===== verification/Agents.thy ===== *)
theory Agents
  imports Execution Varint
begin

text \<open>
  The agents of the threshold signature protocols (\<open>tss/src/factory.rs\<close>, \<open>keygen.rs\<close>, \<open>keysign.rs\<close>
  and \<open>round_based.rs\<close>): which agent belongs to a protocol identifier, how a party derives its index,
  the number of parties and the threshold, what a key generation leaves on the disk, what a signing
  session reads back, and how the messages of the state machines travel.

  The state machines of \<open>multi-party-ecdsa\<close> and the serializers are not in the repository: they are
  the arguments \<open>G\<close> (key generation and the local key), \<open>S\<close> (signing) and \<open>B\<close> (message bodies). A
  run of a state machine over the network is one function that yields a result or an error; errors
  are strings, of which the code adds a prefix only.
\<close>

section \<open>Factory\<close>

datatype tss_agent = KeyGen (agent_path: string) | KeySign (agent_path: string)

definition tss_make :: "string \<Rightarrow> u64 \<Rightarrow> 'e rt_error + tss_agent" where
  "tss_make key_path proto =
     (if proto = 0 then Inr (KeyGen key_path)
      else if proto = 1 then Inr (KeySign key_path)
      else Inl (UnknownProtocolId proto))"

fun tss_session_id :: "tss_agent \<Rightarrow> u64" where
  "tss_session_id (KeyGen p) = 0"
| "tss_session_id (KeySign p) = 0"

fun tss_protocol_id :: "tss_agent \<Rightarrow> u64" where
  "tss_protocol_id (KeyGen p) = 0"
| "tss_protocol_id (KeySign p) = 1"

definition tss_agents :: "tss_agent agent_ops" where
  "tss_agents = \<lparr>agent_session_id = tss_session_id, agent_protocol_id = tss_protocol_id\<rparr>"

section \<open>Messages of the state machines\<close>

record 'm round_msg =
  rb_sender :: u16
  rb_receiver :: "u16 option"
  rb_body :: 'm

record 'm body_ops =
  body_to_vec :: "'m \<Rightarrow> string + bytes"
  body_from_slice :: "bytes \<Rightarrow> string + 'm"

definition body_ok :: "'m body_ops \<Rightarrow> bool" where
  "body_ok B \<longleftrightarrow> (\<forall>m b. body_to_vec B m = Inr b \<longrightarrow> body_from_slice B b = Inr m)"

text \<open>The stream half of \<open>state_replication\<close>: a body that does not decode panics.\<close>

definition replicate_incoming :: "'m body_ops \<Rightarrow> protocol_incoming \<Rightarrow> panic + 'm round_msg" where
  "replicate_incoming B msg =
     (case body_from_slice B (pi_body msg) of
        Inl e \<Rightarrow> Inl UnwrapFailed
      | Inr body \<Rightarrow> Inr \<lparr>rb_sender = pi_from msg,
          rb_receiver = (case pi_to msg of RouteBroadcast \<Rightarrow> None | PointToPoint i \<Rightarrow> Some i),
          rb_body = body\<rparr>)"

text \<open>The sink half; \<open>tx\<close> is the channel on which it waits for the message to be sent.\<close>

definition replicate_outgoing ::
  "'m body_ops \<Rightarrow> chan \<Rightarrow> 'm round_msg \<Rightarrow> string + protocol_outgoing" where
  "replicate_outgoing B tx message =
     map_sum id (\<lambda>payload. \<lparr>po_body = payload,
         po_to = (case rb_receiver message of Some i \<Rightarrow> PointToPoint i | None \<Rightarrow> RouteBroadcast),
         po_sent = Some tx\<rparr>)
       (body_to_vec B (rb_body message))"

section \<open>Key generation\<close>

record ('sm, 'lk, 'pk) keygen_ops =
  kg_new :: "u16 \<Rightarrow> u16 \<Rightarrow> u16 \<Rightarrow> string + 'sm"
  kg_run :: "'sm \<Rightarrow> string + 'lk"
  kg_public :: "'lk \<Rightarrow> 'pk"
  lk_to_json :: "'lk \<Rightarrow> string + bytes"
  lk_from_json :: "bytes \<Rightarrow> string + 'lk"
  pk_to_cbor :: "'pk \<Rightarrow> string + bytes"

text \<open>\<open>anyhow!("... {e}")\<close>: the message of an error with a prefix.\<close>

definition with_prefix :: "string \<Rightarrow> string + 'a \<Rightarrow> string fault + 'a" where
  "with_prefix s = map_sum (\<lambda>e. Err (s @ e)) id"

lemma with_prefix_simps [simp]:
  "with_prefix s (Inl e) = Inl (Err (s @ e))"
  "with_prefix s (Inr x) = Inr x"
  by (simp_all add: with_prefix_def)

text \<open>The start of \<open>compute\<close>: the party's index, counted from one, the threshold and the number.\<close>

definition keygen_start ::
  "varint_ops \<Rightarrow> bool \<Rightarrow> 'pid peerset \<Rightarrow> bytes \<Rightarrow> panic + u16 \<times> u16 \<times> u16" where
  "keygen_start V checks parties args =
     (let n = word_of_nat (length (session_peers parties)) in
      case index_of parties (local_peer_id parties) of
        None \<Rightarrow> Inl UnwrapFailed
      | Some k \<Rightarrow>
          and_then (u16_add checks k 1) (\<lambda>i.
            case read_u16 V args of
              Inl e \<Rightarrow> Inl UnwrapFailed
            | Inr (t, rest) \<Rightarrow> Inr (i, t, n)))"

definition save_local_key ::
  "('sm, 'lk, 'pk) keygen_ops \<Rightarrow> string \<Rightarrow> 'lk \<Rightarrow> host_fs \<Rightarrow> host_fs \<times> (string fault + 'pk)" where
  "save_local_key G key_path local_key fs =
     (let path = path_of key_path in
      case path_parent path of
        None \<Rightarrow> (fs, Inl (Panic UnwrapFailed))
      | Some dir \<Rightarrow>
          (case create_dir_all fs dir of
             Inl e \<Rightarrow> (fs, Inl (Panic UnwrapFailed))
           | Inr _ \<Rightarrow>
               fs_then (io_err ''writing share to disk terminated with error'' (open_create fs path))
                 (\<lambda>fs _. case lk_to_json G local_key of
                    Inl e \<Rightarrow> (fs, Inl (Err (''share serialization terminated with error: '' @ e)))
                  | Inr share_bytes \<Rightarrow>
                      fs_then (io_err ''error writing local key to file'' (write_once_new fs path share_bytes))
                        (\<lambda>fs _. (fs, Inr (kg_public G local_key))))))"

text \<open>
  \<open>save\<close> is \<open>save_to_cache\<close>: the request that the runtime serves on the same file system, with its
  answer.
\<close>

definition keygen_compute ::
  "varint_ops \<Rightarrow> bool \<Rightarrow> ('sm, 'lk, 'pk) keygen_ops \<Rightarrow>
   ('pid peerset \<Rightarrow> host_fs \<Rightarrow> host_fs \<times> (string fault + unit)) \<Rightarrow> string \<Rightarrow> 'pid peerset \<Rightarrow> bytes \<Rightarrow>
   host_fs \<Rightarrow> host_fs \<times> (string fault + bytes)" where
  "keygen_compute V checks G save key_path parties args fs =
     (case panics (keygen_start V checks parties args) of
        Inl e \<Rightarrow> (fs, Inl e)
      | Inr (i, t, n) \<Rightarrow>
          (case and_then (with_prefix ''failed building state '' (kg_new G i t n))
                  (\<lambda>sm. with_prefix ''protocol execution terminated with error: '' (kg_run G sm)) of
             Inl e \<Rightarrow> (fs, Inl e)
           | Inr local_key \<Rightarrow>
               fs_then (save_local_key G key_path local_key fs) (\<lambda>fs pk.
               fs_then (save parties fs) (\<lambda>fs _.
                 (fs, with_prefix ''error encoding public key '' (pk_to_cbor G pk))))))"

text \<open>What the runtime does with the request, on the files of the cacher \<open>c\<close> in room \<open>r\<close>.\<close>

definition save_to_cache ::
  "'pid pid_ops \<Rightarrow> 'pid persistent_cacher \<Rightarrow> room_id \<Rightarrow> 'pid peerset \<Rightarrow> host_fs \<Rightarrow>
   host_fs \<times> (string fault + unit)" where
  "save_to_cache P c r parties fs =
     (case persistent_write P c fs r parties of
        Inl e \<Rightarrow> (fs, Inl e)
      | Inr fs' \<Rightarrow> (fs', Inr ()))"

section \<open>Signing\<close>

record ('lk, 'off, 'cmp, 'sgn, 'psig, 'sig) sign_ops =
  so_new :: "u16 \<Rightarrow> u16 list \<Rightarrow> 'lk \<Rightarrow> string + 'off"
  so_run :: "'off \<Rightarrow> string + 'cmp"
  so_manual :: "bytes \<Rightarrow> 'cmp \<Rightarrow> string + 'sgn \<times> 'psig"
  so_complete :: "'sgn \<Rightarrow> 'psig list \<Rightarrow> string + 'sig"
  sig_to_cbor :: "'sig \<Rightarrow> string + bytes"

definition read_local_key ::
  "('sm, 'lk, 'pk) keygen_ops \<Rightarrow> string \<Rightarrow> host_fs \<Rightarrow> string fault + 'lk" where
  "read_local_key G key_path fs =
     (case read_file fs (path_of key_path) of
        Inl e \<Rightarrow> Inl (Err ''error reading local key'')
      | Inr share_bytes \<Rightarrow> with_prefix ''error deserializing local key: '' (lk_from_json G share_bytes))"

text \<open>
  Up to the state machine: the indexes of the key generation are recovered from the cache
  (\<open>answer\<close>), the party finds its own position among the signers, and the local key is read.
\<close>

definition keysign_start ::
  "'pid pid_ops \<Rightarrow> bool \<Rightarrow> ('sm, 'lk, 'pk) keygen_ops \<Rightarrow> string \<Rightarrow> string fault + 'pid peerset \<Rightarrow>
   'pid peerset \<Rightarrow> host_fs \<Rightarrow> string fault + nat \<times> u16 \<times> u16 list \<times> 'lk" where
  "keysign_start P checks G key_path answer parties fs =
     and_then (and_then answer (\<lambda>cache. recover_from_cache P (Inr cache) parties)) (\<lambda>parties.
       case index_of parties (local_peer_id parties) of
         None \<Rightarrow> Inl (Panic UnwrapFailed)
       | Some k \<Rightarrow>
           and_then (panics (u16_add checks k 1)) (\<lambda>i.
             let n = length (session_peers parties);
                 s_l = map (\<lambda>i. word_of_nat (i + 1)) (parties_indexes parties) in
             and_then (read_local_key G key_path fs) (\<lambda>local_key. Inr (n, i, s_l, local_key))))"

text \<open>
  \<open>incoming.take(n - 1)\<close>, the bodies collected: as long as fewer messages have come and the channel
  is open the result is outstanding; every message taken must decode. The senders are not looked at.
\<close>

fun decode_all :: "'m body_ops \<Rightarrow> protocol_incoming list \<Rightarrow> panic + 'm list" where
  "decode_all B [] = Inr []"
| "decode_all B (m # ms) =
     and_then (replicate_incoming B m) (\<lambda>r. map_sum id ((#) (rb_body r)) (decode_all B ms))"

definition collect_partials ::
  "'m body_ops \<Rightarrow> nat \<Rightarrow> protocol_incoming list \<Rightarrow> bool \<Rightarrow> (panic + 'm list) option" where
  "collect_partials B n received closed =
     (case decode_all B (take (n - 1) received) of
        Inl p \<Rightarrow> Some (Inl p)
      | Inr bodies \<Rightarrow> if length received < n - 1 \<and> \<not> closed then None else Some (Inr bodies))"

text \<open>
  The whole computation: what it sends to the other signers once the offline stage is done, and its
  result, which is \<open>None\<close> while partial signatures are outstanding. \<open>received\<close> are the messages after
  the offline stage.
\<close>

definition keysign_compute ::
  "'pid pid_ops \<Rightarrow> bool \<Rightarrow> ('sm, 'lk, 'pk) keygen_ops \<Rightarrow>
   ('lk, 'off, 'cmp, 'sgn, 'psig, 'sig) sign_ops \<Rightarrow> 'psig body_ops \<Rightarrow> string \<Rightarrow>
   string fault + 'pid peerset \<Rightarrow> 'pid peerset \<Rightarrow> bytes \<Rightarrow> chan \<Rightarrow> protocol_incoming list \<Rightarrow> bool \<Rightarrow>
   host_fs \<Rightarrow> protocol_outgoing list \<times> (string fault + bytes) option" where
  "keysign_compute P checks G S B key_path answer parties args tx received closed fs =
     (case keysign_start P checks G key_path answer parties fs of
        Inl e \<Rightarrow> ([], Some (Inl e))
      | Inr (n, i, s_l, local_key) \<Rightarrow>
          (case and_then (with_prefix ''failed building state '' (so_new S i s_l local_key)) (\<lambda>sm.
                and_then (with_prefix ''protocol execution terminated with error: '' (so_run S sm))
                  (\<lambda>completed. with_prefix [] (so_manual S args completed))) of
             Inl e \<Rightarrow> ([], Some (Inl e))
           | Inr (signing, partial) \<Rightarrow>
               (case replicate_outgoing B tx \<lparr>rb_sender = i, rb_receiver = None, rb_body = partial\<rparr> of
                  Inl e \<Rightarrow> ([], Some (Inl (Err ''error sending partial signature'')))
                | Inr msg \<Rightarrow>
                    ([msg],
                     case collect_partials B n received closed of
                       None \<Rightarrow> None
                     | Some (Inl p) \<Rightarrow> Some (Inl (Panic p))
                     | Some (Inr partials) \<Rightarrow>
                         Some (and_then (with_prefix [] (so_complete S signing partials)) (\<lambda>sig.
                           with_prefix ''error encoding signature '' (sig_to_cbor S sig)))))))"

section \<open>Which agent runs\<close>

text \<open>
  The factory and its agents agree on the protocol identifiers. An agent is made exactly for the
  identifiers 0 (key generation) and 1 (signing); it reports the identifier it was asked for, in
  session 0, and keeps its key under the factory's path; any other identifier is refused as unknown.
\<close>

theorem tss_factory_agents:
  "(case tss_make path p of
      Inr a \<Rightarrow> agent_protocol_id tss_agents a = p \<and> agent_session_id tss_agents a = 0 \<and>
        agent_path a = path \<and> a = (if p = 0 then KeyGen path else KeySign path) \<and> unat p \<le> 1
    | Inl e \<Rightarrow> e = UnknownProtocolId p \<and> 1 < unat p)"
proof -
  have "unat p \<le> 1 \<longleftrightarrow> p = 0 \<or> p = 1"
  proof
    assume "unat p \<le> 1"
    then have "unat p = unat (0 :: u64) \<or> unat p = unat (1 :: u64)" by (simp add: le_Suc_eq)
    then show "p = 0 \<or> p = 1" by (simp only: word_unat_eq_iff)
  qed auto
  then show ?thesis by (auto simp: tss_make_def tss_agents_def not_le [symmetric])
qed

section \<open>Messages between the state machines\<close>

lemma replicate_outgoing_Inr:
  "body_to_vec B (rb_body m) = Inr payload \<Longrightarrow>
     replicate_outgoing B tx m = Inr \<lparr>po_body = payload,
       po_to = (case rb_receiver m of Some i \<Rightarrow> PointToPoint i | None \<Rightarrow> RouteBroadcast), po_sent = Some tx\<rparr>"
  by (simp add: replicate_outgoing_def)

lemma replicate_incoming_Inr:
  "body_from_slice B (pi_body msg) = Inr body \<Longrightarrow>
     replicate_incoming B msg = Inr \<lparr>rb_sender = pi_from msg,
       rb_receiver = (case pi_to msg of RouteBroadcast \<Rightarrow> None | PointToPoint i \<Rightarrow> Some i), rb_body = body\<rparr>"
  by (simp add: replicate_incoming_def)

text \<open>
  C10: The state machine of one party hears exactly what the state machine of another says. A message
  of party \<open>a\<close>, to party \<open>b\<close> or to all, goes through the sink of \<open>a\<close>'s agent and \<open>a\<close>'s execution to
  the network, addressed to \<open>b\<close>; what \<open>b\<close>'s proxy and execution make of the payload enters the
  stream of \<open>b\<close>'s agent as the same message: the same body, the sender's index counted from one, and
  the receiver's index or none.
\<close>

theorem round_message_delivered:
  assumes "exec_wf stA" and "exec_wf stB"
    and peers: "session_peers (ex_parties stA) = ps" "session_peers (ex_parties stB) = ps"
      "session_peers (rp_parties rp) = ps"
    and a: "a < length ps" "ps ! a = local_peer_id (ex_parties stA)"
    and b: "b < length ps" "ps ! b = local_peer_id (ex_parties stB)" "a \<noteq> b"
    and m: "rb_sender m = word_of_nat (Suc a)"
      "rb_receiver m = Some (word_of_nat (Suc b)) \<or> rb_receiver m = None"
    and body: "body_ok B" "body_to_vec B (rb_body m) = Inr payload"
    and rp: "rp_rx rp = Some rx"
    and msg: "im_peer_id msg = ps ! a" "im_payload msg = payload"
      "im_is_broadcast msg \<longleftrightarrow> rb_receiver m = None"
  shows "\<exists>out es route incoming es'. replicate_outgoing B tx m = Inr out \<and>
    exec_outgoing checks q (Suc free) stA out =
      Inr (if rb_receiver m = None then free else Suc free, es) \<and>
    Net (RequestResponse (ex_room_id stA)
      (exec_context (if rb_receiver m = None then Coordination else Computation) stA) route) \<in> set es \<and>
    (rb_receiver m \<noteq> None \<longrightarrow> route = SendDirect (ps ! b) payload q) \<and>
    (rb_receiver m = None \<longrightarrow> (\<exists>ids. route = Multicast ids payload (Some q) \<and> ps ! b \<in> set ids)) \<and>
    receiver_proxy_poll h False (Some msg) rp =
      (Pending rp, [(rp_tx rp, msg\<lparr>im_peer_index := word_of_nat a\<rparr>)]) \<and>
    exec_incoming checks (Suc freeB) True stB (msg\<lparr>im_peer_index := word_of_nat a\<rparr>) = (Inr (), es') \<and>
    ToProtocol incoming \<in> set es' \<and> replicate_incoming B incoming = Inr m"
proof -
  have dec: "body_from_slice B payload = Inr (rb_body m)" using body by (simp add: body_ok_def)
  note sent = replicate_outgoing_Inr [OF body(2), of tx]
  show ?thesis
  proof (cases "rb_receiver m")
    case None
    let ?out = "\<lparr>po_body = payload, po_to = RouteBroadcast, po_sent = Some tx\<rparr>"
    let ?in = "\<lparr>pi_from = word_of_nat (Suc a), pi_body = payload, pi_to = RouteBroadcast\<rparr>"
    let ?route = "Multicast (remotes_iter (ex_parties stA)) payload (Some q)"
    let ?es = "[ToEcho \<lparr>em_sender = word_of_nat (Suc a), em_payload = payload, em_response = EOutgoing q\<rparr>,
      Net (RequestResponse (ex_room_id stA) (exec_context Coordination stA) ?route)]"
    let ?es' = "[ToEcho \<lparr>em_sender = word_of_nat (Suc a), em_payload = payload,
      em_response = EIncoming (im_pending_response msg)\<rparr>, ToProtocol ?in]"
    have out: "po_to ?out = RouteBroadcast" "0 < Suc free" "0 < Suc freeB"
      "im_payload msg = po_body ?out" "im_is_broadcast msg"
      using None msg by simp_all
    note arrives = broadcast_arrives [OF assms(1,2) peers a out(1-3) rp msg(1) out(4,5),
        of checks q h]
    have "ps ! b \<noteq> ps ! a"
      using exec_wfD(1) [OF assms(1)] peers(1) a(1) b(1,3) by (simp add: nth_eq_iff_index_eq)
    moreover have "replicate_incoming B ?in = Inr m"
      using replicate_incoming_Inr [of B ?in, OF _] dec m(1) None by (cases m) simp
    moreover have "ps ! b \<in> set (remotes_iter (ex_parties stA))"
      using arrives b(1) \<open>ps ! b \<noteq> ps ! a\<close> by simp
    ultimately show ?thesis
      using arrives sent None
      by (intro exI [of _ ?out] exI [of _ ?es] exI [of _ ?route] exI [of _ ?in] exI [of _ ?es'])
        (simp del: of_nat_Suc)
  next
    case (Some j)
    let ?out = "\<lparr>po_body = payload, po_to = PointToPoint (word_of_nat (Suc b)), po_sent = Some tx\<rparr>"
    let ?in = "\<lparr>pi_from = word_of_nat (Suc a), pi_body = payload, pi_to = PointToPoint (word_of_nat (Suc b))\<rparr>"
    let ?route = "SendDirect (ps ! b) payload q"
    let ?es = "[SentFeedback tx,
      Net (RequestResponse (ex_room_id stA) (exec_context Computation stA) ?route)]"
    let ?es' = "[Ack (im_pending_response msg) \<lparr>or_result = Inr [], or_sent_feedback = None\<rparr>,
      ToProtocol ?in]"
    have j: "j = word_of_nat (Suc b)" using Some m(2) by simp
    have out: "po_to ?out = PointToPoint (word_of_nat (Suc b))" "im_payload msg = po_body ?out"
      "\<not> im_is_broadcast msg" using Some msg by simp_all
    note arrives = point_to_point_arrives [OF assms(1,2) peers a b(1,2) out(1) rp msg(1) out(2,3),
        of checks q "Suc free" h "Suc freeB"]
    have "replicate_incoming B ?in = Inr m"
      using replicate_incoming_Inr [of B ?in, OF _] dec m(1) Some j by (cases m) simp
    then show ?thesis
      using arrives sent Some j
      by (intro exI [of _ ?out] exI [of _ ?es] exI [of _ ?route] exI [of _ ?in] exI [of _ ?es'])
        (simp del: of_nat_Suc)
  qed
qed

text \<open>A sample of the serializer of message bodies: a body is a byte.\<close>

definition sample_body :: "byte body_ops" where
  "sample_body = \<lparr>body_to_vec = (\<lambda>m. Inr [m]),
     body_from_slice = (\<lambda>b. case b of [m] \<Rightarrow> Inr m | _ \<Rightarrow> Inl ''length'')\<rparr>"

theorem round_message_delivered_witness:
  "\<exists>out es route incoming es'.
     replicate_outgoing sample_body 8 \<lparr>rb_sender = 1, rb_receiver = Some 2, rb_body = 7\<rparr> = Inr out \<and>
     exec_outgoing True 6 3 (sample_exec 4) out = Inr (3, es) \<and>
     Net (RequestResponse (RoomId ''ab'') (exec_context Computation (sample_exec 4)) route) \<in> set es \<and>
     route = SendDirect 9 [7] 6 \<and>
     exec_incoming True 1 True (sample_exec 9)
       ((sample_msg Computation 4 [7])\<lparr>im_is_broadcast := False, im_peer_index := 0\<rparr>) = (Inr (), es') \<and>
     ToProtocol incoming \<in> set es' \<and>
     replicate_incoming sample_body incoming = Inr \<lparr>rb_sender = 1, rb_receiver = Some 2, rb_body = 7\<rparr>"
proof -
  let ?msg = "(sample_msg Computation 4 [7])\<lparr>im_is_broadcast := False\<rparr>"
  let ?m = "\<lparr>rb_sender = 1, rb_receiver = Some 2, rb_body = 7\<rparr> :: byte round_msg"
  have s: "session_peers (ex_parties (sample_exec 4)) = [4, 9]"
    "session_peers (ex_parties (sample_exec 9)) = [4, 9]"
    "session_peers (rp_parties (sample_proxy 9)) = [4, 9]"
    by (simp_all add: sample_exec_def sample_proxy_def)
  have l: "local_peer_id (ex_parties (sample_exec 4)) = 4" "local_peer_id (ex_parties (sample_exec 9)) = 9"
    "ex_room_id (sample_exec 4) = RoomId ''ab''"
    by (simp_all add: sample_exec_def)
  have b: "body_ok sample_body" "body_to_vec sample_body 7 = Inr [7]"
    by (simp_all add: body_ok_def sample_body_def)
  have msg: "im_peer_id ?msg = 4" "im_payload ?msg = [7]" by (simp_all add: sample_msg_def)
  show ?thesis
    using round_message_delivered [OF sample_exec_wf sample_exec_wf s, where a = 0 and b = 1 and m = ?m and
        B = sample_body and payload = "[7]" and rx = 1 and msg = ?msg and tx = 8 and checks = True and
        q = 6 and free = 2 and freeB = 0 and h = 0] l b msg
    by (simp add: sample_proxy_def) blast
qed

section \<open>From key generation to signing\<close>

lemma save_local_key_InrD:
  assumes "save_local_key G key_path lk fs = (fs', Inr pk)"
  obtains b where "lk_to_json G lk = Inr b" and "pk = kg_public G lk"
    and "fs_files fs' = (fs_files fs)(path_of key_path \<mapsto> take (fs_space fs (path_of key_path)) b)"
    and "fs_read_error fs' = fs_read_error fs"
proof -
  let ?p = "path_of key_path"
  let ?fs = "fs\<lparr>fs_files := (fs_files fs)(?p \<mapsto> [])\<rparr>"
  obtain d where d: "path_parent ?p = Some d" "create_dir_all fs d = Inr ()"
    using assms by (auto simp: save_local_key_def Let_def split: option.splits sum.splits)
  have w: "open_create fs ?p = (?fs, Inr ())"
    using assms d by (simp add: save_local_key_def open_create_def Let_def split: if_splits)
  obtain b where b: "lk_to_json G lk = Inr b"
    using assms d w by (cases "lk_to_json G lk") (simp_all add: save_local_key_def)
  obtain fs1 v where "write_once_new ?fs ?p b = (fs1, v)" by force
  moreover from this assms d w b obtain k where "v = Inr k" "fs1 = fs'" and pk: "kg_public G lk = pk"
    by (cases v) (auto simp: save_local_key_def Let_def)
  ultimately have "write_once_new ?fs ?p b = (fs', Inr k)" by simp
  then have "fs' = ?fs\<lparr>fs_files := (fs_files ?fs)(?p \<mapsto> take (min (length b) (fs_space fs ?p)) b)\<rparr>"
    by (simp add: write_once_new_def Let_def split: if_splits)
  with b pk show ?thesis by (intro that [of b]) (simp_all add: min_def)
qed

lemma save_to_cache_InrD:
  "save_to_cache P c r g fs = (fs', Inr u) \<Longrightarrow> persistent_write P c fs r g = Inr fs'"
  by (auto simp: save_to_cache_def split: sum.splits)

lemma keygen_compute_InrD:
  assumes "keygen_compute V checks G save key_path g args fs = (fs', Inr out)"
  obtains i t n sm lk fs1 where "keygen_start V checks g args = Inr (i, t, n)"
    and "kg_new G i t n = Inr sm" and "kg_run G sm = Inr lk"
    and "save_local_key G key_path lk fs = (fs1, Inr (kg_public G lk))"
    and "save g fs1 = (fs', Inr ())"
proof -
  obtain i t n where start: "keygen_start V checks g args = Inr (i, t, n)"
    using assms by (cases "keygen_start V checks g args") (auto simp: keygen_compute_def)
  obtain sm where sm: "kg_new G i t n = Inr sm"
    using assms start by (cases "kg_new G i t n") (auto simp: keygen_compute_def)
  obtain lk where lk: "kg_run G sm = Inr lk"
    using assms start sm by (cases "kg_run G sm") (auto simp: keygen_compute_def)
  from assms start sm lk obtain fs1 pk where
    saved: "save_local_key G key_path lk fs = (fs1, Inr pk)" and "save g fs1 = (fs', Inr ())"
    by (auto simp: keygen_compute_def fs_then_eq_Inr)
  moreover from saved have "pk = kg_public G lk" by (rule save_local_key_InrD)
  ultimately show ?thesis using that start sm lk by blast
qed

lemma keygen_start_index:
  assumes "keygen_start V checks g args = Inr (i, t, n)"
  shows "\<exists>k. index_of g (local_peer_id g) = Some k \<and> u16_add checks k 1 = Inr i"
  using assms
  by (cases "read_u16 V args") (auto simp: keygen_start_def Let_def and_then_eq_Inr split: option.splits)

text \<open>What the local key's serializer documents, and that the disk takes a whole share.\<close>

definition local_key_ok :: "('sm, 'lk, 'pk) keygen_ops \<Rightarrow> nat \<Rightarrow> bool" where
  "local_key_ok G space \<longleftrightarrow>
     (\<forall>lk b. lk_to_json G lk = Inr b \<longrightarrow> lk_from_json G b = Inr lk \<and> length b \<le> space)"

text \<open>The position of a party in a set of distinct peers, as the agents compute it.\<close>

lemma party_position:
  assumes "distinct (session_peers ps)" and "length (session_peers ps) < 65536" and "p \<in> set (session_peers ps)"
  obtains k where "k < length (session_peers ps)" and "session_peers ps ! k = p"
    and "index_of ps p = Some (word_of_nat k)"
    and "u16_add checks (word_of_nat k) 1 = Inr (word_of_nat (Suc k))"
proof -
  obtain k where k: "k < length (session_peers ps)" "session_peers ps ! k = p"
    using assms(3) by (auto simp: in_set_conv_nth)
  moreover have "index_of ps p = Some (word_of_nat k)" using index_of_SomeI [OF assms(1) k] .
  moreover have "u16_add checks (word_of_nat k) 1 = Inr (word_of_nat (Suc k))"
    by (rule u16_add_nat) (use k(1) assms(2) in simp)
  ultimately show thesis by (rule that)
qed

text \<open>What a successful key generation leaves on the disk.\<close>

lemma keygen_leaves:
  assumes "keygen_compute V checks G (save_to_cache P c r) key_path g args fs = (fs', Inr out)"
    and "local_key_ok G (fs_space fs (path_of key_path))"
    and "fs_read_error fs (path_of key_path) = None" and "room_file c r \<noteq> path_of key_path"
  obtains i t n sm lk fs1 where "keygen_start V checks g args = Inr (i, t, n)"
    and "kg_new G i t n = Inr sm" and "kg_run G sm = Inr lk"
    and "persistent_write P c fs1 r g = Inr fs'" and "read_local_key G key_path fs' = Inr lk"
proof -
  from assms(1) obtain i t n sm lk fs1 where start: "keygen_start V checks g args = Inr (i, t, n)"
    and kg: "kg_new G i t n = Inr sm" "kg_run G sm = Inr lk"
    and key: "save_local_key G key_path lk fs = (fs1, Inr (kg_public G lk))"
    and cache: "save_to_cache P c r g fs1 = (fs', Inr ())"
    by (rule keygen_compute_InrD)
  from key obtain b where b: "lk_to_json G lk = Inr b"
    and files: "fs_files fs1 = (fs_files fs)(path_of key_path \<mapsto> take (fs_space fs (path_of key_path)) b)"
    and err: "fs_read_error fs1 = fs_read_error fs"
    by (rule save_local_key_InrD)
  have written: "persistent_write P c fs1 r g = Inr fs'" using cache by (rule save_to_cache_InrD)
  then obtain bs where "fs' = fs1\<lparr>fs_files := (fs_files fs1)(room_file c r \<mapsto> bs)\<rparr>"
    by (rule persistent_write_Inr)
  moreover have "take (fs_space fs (path_of key_path)) b = b" and "lk_from_json G b = Inr lk"
    using assms(2) b by (simp_all add: local_key_ok_def)
  ultimately have "read_local_key G key_path fs' = Inr lk"
    using files err assms(3,4) by (simp add: read_local_key_def read_file_def)
  with start kg written show thesis by (rule that)
qed

text \<open>
  C17: Signing uses what key generation left. After a key generation among some peers has returned, a
  signing session in the same room among a subset of them that includes the node starts its state
  machine with the local key of that run, the node's position among the signers, and for every
  signer its index in the key generation, counted from one: in particular the entry at the node's own
  position is the index under which the node generated its key.
\<close>

theorem signing_continues_keygen:
  assumes "pid_ok P" and "\<forall>p \<in> set peers. ed25519 P p" and "length peers \<le> 210" and "distinct peers"
    and "g = peerset_new P peers me"
    and "keygen_compute V checks G (save_to_cache P c r) key_path g args fs = (fs', Inr out)"
    and "local_key_ok G (fs_space fs (path_of key_path))"
    and "fs_read_error fs (path_of key_path) = None" and "room_file c r \<noteq> path_of key_path"
    and "ps = peerset_new P signers me" and "distinct signers" and "set signers \<subseteq> set peers"
    and "me \<in> set signers"
  shows "\<exists>i t n sm lk k s_l. keygen_start V checks g args = Inr (i, t, n) \<and>
    kg_new G i t n = Inr sm \<and> kg_run G sm = Inr lk \<and>
    keysign_start P checks G key_path (persistent_read P c fs' r) ps fs' =
      Inr (length signers, word_of_nat (Suc k), s_l, lk) \<and>
    k < length signers \<and> session_peers ps ! k = me \<and>
    s_l = map (\<lambda>p. word_of_nat (cached_index g p + 1)) (session_peers ps) \<and> s_l ! k = i"
proof -
  from keygen_leaves [OF assms(6-9)] obtain i t n sm lk fs1
    where start: "keygen_start V checks g args = Inr (i, t, n)"
      and kg: "kg_new G i t n = Inr sm" "kg_run G sm = Inr lk"
      and written: "persistent_write P c fs1 r g = Inr fs'"
      and key: "read_local_key G key_path fs' = Inr lk" .
  have g: "distinct (session_peers g)" "length (session_peers g) \<le> 210" "local_peer_id g = me"
    "set (session_peers g) = set peers"
    using assms(3,4,5) by simp_all
  have ps: "distinct (session_peers ps)" "session_peers ps = sort_key (pid_to_bytes P) signers"
    "local_peer_id ps = me" "set (session_peers ps) = set signers" "length (session_peers ps) = length signers"
    using assms(10,11) by simp_all
  have "length signers \<le> length peers"
    using assms(4,11,12) by (metis card_mono distinct_card List.finite_set)
  with ps assms(3) have ps_len: "length (session_peers ps) < 65536" by simp
  have store: "storable_peerset P g"
    using peerset_new_wf [of peers P me] assms(1-3,5) by (simp add: storable_peerset_def)
  have "length (parties_indexes g) = length (session_peers g)" using assms(5) by simp
  moreover have "length (session_peers g) \<le> 2 ^ 16" by (rule le_trans [OF g(2)]) simp
  ultimately have ok: "cache_ok g" using g(1) unfolding cache_ok_def by blast
  have recovered: "and_then (persistent_read P c fs' r) (\<lambda>cache. recover_from_cache P (Inr cache) ps) =
      Inr (ps\<lparr>parties_indexes := map (cached_index g) (session_peers ps)\<rparr>)"
    by (rule persistent.save_then_recover [OF store ok written]) (use ps g assms(12) in simp_all)
  have "me \<in> set (session_peers ps)" using ps assms(13) by simp
  from party_position [OF ps(1) ps_len this] obtain k where
    k: "k < length (session_peers ps)" "session_peers ps ! k = me"
    and idx: "index_of ps me = Some (word_of_nat k)"
    and add: "u16_add checks (word_of_nat k) 1 = Inr (word_of_nat (Suc k))" .
  have "me \<in> set (session_peers g)" using g assms(12,13) by auto
  moreover have "length (session_peers g) < 65536" by (rule le_less_trans [OF g(2)]) simp
  ultimately obtain j where
    j: "j < length (session_peers g)" "session_peers g ! j = me"
    and jdx: "index_of g me = Some (word_of_nat j)"
    and jadd: "u16_add checks (word_of_nat j) 1 = Inr (word_of_nat (Suc j))"
    using party_position [OF g(1)] by blast
  have "i = word_of_nat (Suc j)"
    using keygen_start_index [OF start] jdx jadd g(3) by simp
  moreover have "cached_index g me = j"
    using cached_index_nth(1) [OF ok j(1)] j assms(5) by simp
  ultimately have at_k: "map (\<lambda>p. word_of_nat (cached_index g p + 1)) (session_peers ps) ! k = i"
    using k by simp
  have "index_of (ps\<lparr>parties_indexes := x\<rparr>) p = index_of ps p" for x p
    by (simp add: index_of_def)
  then have "keysign_start P checks G key_path (persistent_read P c fs' r) ps fs' =
      Inr (length signers, word_of_nat (Suc k),
        map (\<lambda>p. word_of_nat (cached_index g p + 1)) (session_peers ps), lk)"
    using recovered ps(3,5) idx add key
    by (simp add: keysign_start_def Let_def comp_def del: of_nat_Suc)
  with start kg k at_k ps(5) show ?thesis
    by (intro exI conjI) (assumption, assumption, assumption, assumption, simp, assumption, rule refl, assumption)
qed

text \<open>
  A sample of key generation and signing: a local key is the index under which it was generated,
  stored with a zero byte.
\<close>

definition sample_keygen :: "(u16, byte, byte) keygen_ops" where
  "sample_keygen = \<lparr>kg_new = (\<lambda>i t n. Inr i), kg_run = (\<lambda>i. Inr (word_of_nat (unat i))),
     kg_public = id, lk_to_json = (\<lambda>k. Inr [k, 0]),
     lk_from_json = (\<lambda>b. case b of [k, z] \<Rightarrow> Inr k | _ \<Rightarrow> Inl ''json''), pk_to_cbor = (\<lambda>k. Inr [k])\<rparr>"

lemma sample_local_key_ok: "2 \<le> space \<Longrightarrow> local_key_ok sample_keygen space"
  by (simp add: local_key_ok_def sample_keygen_def)

lemma sample_keygen_returns:
  "\<exists>fs'. keygen_compute leb_ops True sample_keygen
     (save_to_cache sample_pid (persistent_new [''data''] 4) (RoomId ''ab'')) ''data/4/key.share''
     (peerset_new sample_pid [9, 4, 7] 4) (enc_u16 leb_ops 1) empty_host = (fs', Inr [1])"
proof -
  let ?g = "peerset_new sample_pid [9, 4, 7] (4 :: byte)"
  have "session_peers ?g = [4, 7, 9]" by simp
  then have "index_of ?g 4 = Some 0" by (simp add: index_of_def)
  moreover have "read_u16 leb_ops (enc_u16 leb_ops 1) = Inr (1, [])"
    using varint_okD(2) [OF leb_ops_ok, of 1 "[]"] by simp
  ultimately have start: "keygen_start leb_ops True ?g (enc_u16 leb_ops 1) = Inr (1, 1, 3)"
    by (simp add: keygen_start_def u16_add_def)
  have "path_of ''data/4/key.share'' = [''data'', ''4'', ''key.share'']"
    by (simp add: path_of_def Let_def)
  then obtain fs1 where "save_local_key sample_keygen ''data/4/key.share'' 1 empty_host = (fs1, Inr 1)"
    and "fs_can_mkdir fs1 = (\<lambda>_. True)" "fs_can_write fs1 = (\<lambda>_. True)"
    by (simp add: save_local_key_def path_parent_def create_dir_all_def open_create_def
        write_once_new_def empty_host_def sample_keygen_def Let_def)
  moreover from this(2,3) obtain fs2 where
    "save_to_cache sample_pid (persistent_new [''data''] 4) (RoomId ''ab'') ?g fs1 = (fs2, Inr ())"
    by (simp add: save_to_cache_def persistent_write_def peerset_to_bytes_eq Let_def)
  ultimately show ?thesis
    using start by (simp add: keygen_compute_def) (simp add: sample_keygen_def)
qed

theorem signing_continues_keygen_witness:
  "\<exists>fs'. keysign_start sample_pid True sample_keygen ''data/4/key.share''
      (persistent_read sample_pid (persistent_new [''data''] 4) fs' (RoomId ''ab''))
      (peerset_new sample_pid [9, 4] 4) fs' = Inr (2, 1, [1, 3], 1)"
proof -
  let ?g = "peerset_new sample_pid [9, 4, 7] (4 :: byte)" and ?c = "persistent_new [''data''] (4 :: byte)"
  let ?path = "''data/4/key.share''" and ?r = "RoomId ''ab''"
  obtain fs' where run: "keygen_compute leb_ops True sample_keygen (save_to_cache sample_pid ?c ?r) ?path
      ?g (enc_u16 leb_ops 1) empty_host = (fs', Inr [1])"
    using sample_keygen_returns by blast
  have path: "path_of ?path = [''data'', ''4'', ''key.share'']" by (simp add: path_of_def Let_def)
  have h: "local_key_ok sample_keygen (fs_space empty_host (path_of ?path))"
    "fs_read_error empty_host (path_of ?path) = None" "room_file ?c ?r \<noteq> path_of ?path"
    by (simp_all add: sample_local_key_ok empty_host_def path room_file_def persistent_new_def)
  have idx: "cached_index ?g 4 = 0" "cached_index ?g 9 = 2"
    by (simp_all add: cached_index_def index_of_def)
  obtain i t n sm lk k s_l where start: "keygen_start leb_ops True ?g (enc_u16 leb_ops 1) = Inr (i, t, n)"
    and kg: "kg_new sample_keygen i t n = Inr sm" "kg_run sample_keygen sm = Inr lk"
    and sign: "keysign_start sample_pid True sample_keygen ?path (persistent_read sample_pid ?c fs' ?r)
      (peerset_new sample_pid [9, 4] 4) fs' = Inr (2, word_of_nat (Suc k), s_l, lk)"
    and k: "k < 2" "session_peers (peerset_new sample_pid [9, 4] (4 :: byte)) ! k = 4"
    and s_l: "s_l = map (\<lambda>p. word_of_nat (cached_index ?g p + 1))
      (session_peers (peerset_new sample_pid [9, 4] (4 :: byte)))" "s_l ! k = i"
    using signing_continues_keygen [OF sample_pid_ok _ _ _ refl run h refl, of "[9, 4]"]
    by (auto simp: sample_pid_ed25519)
  have "k = 0" using k by (cases k) auto
  moreover have "s_l = [1, 3]" using s_l(1) idx by simp
  moreover from this s_l(2) \<open>k = 0\<close> have "i = 1" by simp
  ultimately show ?thesis using sign kg by (auto simp: sample_keygen_def)
qed

section \<open>Failures\<close>

text \<open>
  Malformed arguments crash a key generation. The arguments come with the start message of
  whoever proposed the computation, and the agent runs inside the daemon: a party of the
  computation panics exactly when the threshold cannot be read from them, whatever the files and
  the state machine.
\<close>

theorem keygen_panics_on_malformed_args:
  assumes "distinct (session_peers ps)" and "length (session_peers ps) < 65536"
    and "local_peer_id ps \<in> set (session_peers ps)"
  shows "((\<exists>p. keygen_start V checks ps args = Inl p) \<longleftrightarrow> (\<exists>e. read_u16 V args = Inl e)) \<and>
    (read_u16 V args = Inl e \<longrightarrow>
      keygen_compute V checks G save key_path ps args fs = (fs, Inl (Panic UnwrapFailed)))"
proof -
  from party_position [OF assms] obtain k where
    "index_of ps (local_peer_id ps) = Some (word_of_nat k)"
    and "u16_add checks (word_of_nat k) 1 = Inr (word_of_nat (Suc k))" by blast
  then show ?thesis
    by (auto simp: keygen_start_def keygen_compute_def Let_def split: sum.splits simp del: of_nat_Suc)
qed

theorem keygen_panics_on_malformed_args_witness:
  "keygen_compute leb_ops True sample_keygen (\<lambda>g fs. (fs, Inr ())) ''data/4/key.share''
     (peerset_new sample_pid [9, 4, 7] 4) [] empty_host = (empty_host, Inl (Panic UnwrapFailed))"
proof -
  have "\<exists>e. read_u16 leb_ops [] = Inl e" by (simp add: leb_ops_def leb_bounded_def)
  then obtain e where "read_u16 leb_ops [] = Inl e" ..
  then show ?thesis
    using keygen_panics_on_malformed_args [of "peerset_new sample_pid [9, 4, 7] (4 :: byte)" leb_ops True
        "[]" e sample_keygen] by simp
qed

lemma save_local_key_truncates:
  assumes "path_parent (path_of key_path) = Some d" and "fs_can_mkdir fs d" and "fs_files fs d = None"
    and "fs_can_write fs (path_of key_path)" and "lk_to_json G lk = Inr b"
    and "0 < fs_space fs (path_of key_path)" and "fs_space fs (path_of key_path) \<le> length b"
  shows "save_local_key G key_path lk fs = (fs\<lparr>fs_files := (fs_files fs)(path_of key_path \<mapsto>
    take (fs_space fs (path_of key_path)) b)\<rparr>, Inr (kg_public G lk))"
  using assms
  by (simp add: save_local_key_def create_dir_all_def open_create_def write_once_new_def Let_def min_def)

text \<open>
  C40: Key generation reports success although the share is lost. The share is stored with a single
  \<open>write\<close>, whose count is not looked at: when the disk takes only a part of it, the public key is
  returned all the same, the file holds the part, and a later signing session, for which that part
  does not decode, fails with an error.
\<close>

theorem keygen_loses_share_silently:
  assumes "keygen_start V checks g args = Inr (i, t, n)" and "kg_new G i t n = Inr sm"
    and "kg_run G sm = Inr lk" and "lk_to_json G lk = Inr b" and "pk_to_cbor G (kg_public G lk) = Inr out"
    and "path_parent (path_of key_path) = Some d" and "fs_can_mkdir fs d" and "fs_files fs d = None"
    and "fs_can_write fs (path_of key_path)" and "fs_read_error fs (path_of key_path) = None"
    and "0 < fs_space fs (path_of key_path)" and "fs_space fs (path_of key_path) < length b"
    and "\<forall>fs. \<exists>fs'. save g fs = (fs', Inr ()) \<and> fs_read_error fs' = fs_read_error fs \<and>
      fs_files fs' (path_of key_path) = fs_files fs (path_of key_path)"
    and "lk_from_json G (take (fs_space fs (path_of key_path)) b) = Inl e"
  shows "\<exists>fs'. keygen_compute V checks G save key_path g args fs = (fs', Inr out) \<and>
    fs_files fs' (path_of key_path) = Some (take (fs_space fs (path_of key_path)) b) \<and>
    read_local_key G key_path fs' = Inl (Err (''error deserializing local key: '' @ e))"
proof -
  let ?b = "take (fs_space fs (path_of key_path)) b"
  let ?fs = "fs\<lparr>fs_files := (fs_files fs)(path_of key_path \<mapsto> ?b)\<rparr>"
  have "save_local_key G key_path lk fs = (?fs, Inr (kg_public G lk))"
    by (rule save_local_key_truncates) (use assms in simp_all)
  moreover from assms(13) obtain fs' where fs': "save g ?fs = (fs', Inr ())"
    "fs_read_error fs' = fs_read_error ?fs" "fs_files fs' (path_of key_path) = Some ?b"
    by fastforce
  ultimately have "keygen_compute V checks G save key_path g args fs = (fs', Inr out)"
    using assms(1-3,5) by (simp add: keygen_compute_def)
  moreover have "read_local_key G key_path fs' = Inl (Err (''error deserializing local key: '' @ e))"
    using fs' assms(10,14) by (simp add: read_local_key_def read_file_def)
  ultimately show ?thesis using fs'(3) by blast
qed

theorem keygen_loses_share_silently_witness:
  "\<exists>fs'. keygen_compute leb_ops True sample_keygen (\<lambda>g fs. (fs, Inr ())) ''data/4/key.share''
      (peerset_new sample_pid [9, 4, 7] 4) (enc_u16 leb_ops 1) (empty_host\<lparr>fs_space := \<lambda>_. 1\<rparr>) =
      (fs', Inr [1]) \<and>
    read_local_key sample_keygen ''data/4/key.share'' fs' =
      Inl (Err ''error deserializing local key: json'')"
proof -
  let ?g = "peerset_new sample_pid [9, 4, 7] (4 :: byte)" and ?path = "''data/4/key.share''"
  let ?fs = "empty_host\<lparr>fs_space := \<lambda>_. 1\<rparr>"
  have path: "path_of ?path = [''data'', ''4'', ''key.share'']" by (simp add: path_of_def Let_def)
  have "session_peers ?g = [4, 7, 9]" by simp
  then have "index_of ?g 4 = Some 0" by (simp add: index_of_def)
  moreover have "read_u16 leb_ops (enc_u16 leb_ops 1) = Inr (1, [])"
    using varint_okD(2) [OF leb_ops_ok, of 1 "[]"] by simp
  ultimately have start: "keygen_start leb_ops True ?g (enc_u16 leb_ops 1) = Inr (1, 1, 3)"
    by (simp add: keygen_start_def u16_add_def)
  have kg: "kg_new sample_keygen 1 1 3 = Inr 1" "kg_run sample_keygen 1 = Inr 1"
    "lk_to_json sample_keygen 1 = Inr [1, 0]" "pk_to_cbor sample_keygen (kg_public sample_keygen 1) = Inr [1]"
    by (simp_all add: sample_keygen_def)
  have fs: "path_parent (path_of ?path) = Some [''data'', ''4'']" "fs_can_mkdir ?fs [''data'', ''4'']"
    "fs_files ?fs [''data'', ''4''] = None" "fs_can_write ?fs (path_of ?path)" "fs_read_error ?fs (path_of ?path) = None"
    "0 < fs_space ?fs (path_of ?path)" "fs_space ?fs (path_of ?path) < length [1 :: byte, 0]"
    by (simp_all add: path path_parent_def empty_host_def)
  have js: "lk_from_json sample_keygen (take (fs_space ?fs (path_of ?path)) [1, 0]) = Inl ''json''"
    by (simp add: sample_keygen_def)
  show ?thesis
    using keygen_loses_share_silently [OF start kg fs _ js, of "\<lambda>g fs. (fs, Inr ())"] by auto
qed

end
