(* ===== verification/Rpc.thy ===== *)
theory Rpc
  imports Agents Runtime
begin

text \<open>
  The RPC of a node (\<open>node/rpc-api/src/lib.rs\<close>, and the request of \<open>RuntimeService\<close> in
  \<open>node/runtime/src/runtime.rs\<close>): what a call asks of the runtime, and the future that turns the
  runtime's answer into the result of the call. The JSON-RPC server and the deserializer of results
  (\<open>decode\<close>) are not in the repository; \<open>canceled_text\<close> is the text of the error of a oneshot channel
  whose sender is gone.
\<close>

section \<open>Requests\<close>

record 'done runtime_message =
  rq_room_id :: room_id
  rq_n :: u16
  rq_protocol_id :: u64
  rq_args :: bytes
  rq_on_done :: 'done

definition request_computation ::
  "room_id \<Rightarrow> u16 \<Rightarrow> u64 \<Rightarrow> bytes \<Rightarrow> 'done \<Rightarrow> 'done runtime_message" where
  "request_computation room n proto args on_done =
     \<lparr>rq_room_id = room, rq_n = n, rq_protocol_id = proto, rq_args = args, rq_on_done = on_done\<rparr>"

text \<open>
  The threshold of a key generation is written through a \<open>BufWriter\<close>, of which the unflushed bytes
  are sent.
\<close>

definition rpc_keygen ::
  "varint_ops \<Rightarrow> (string \<Rightarrow> string) \<Rightarrow> string \<Rightarrow> u16 \<Rightarrow> u16 \<Rightarrow> 'done \<Rightarrow> 'done runtime_message" where
  "rpc_keygen V blake3_hex room n t tx =
     request_computation (room_id_from blake3_hex room) n 0
       (bw_buf (bw_write_all (enc_u16 V t) bw_new)) tx"

text \<open>The task that \<open>sign\<close> spawns adds one to the threshold, which may overflow.\<close>

definition rpc_sign ::
  "bool \<Rightarrow> (string \<Rightarrow> string) \<Rightarrow> string \<Rightarrow> u16 \<Rightarrow> bytes \<Rightarrow> 'done \<Rightarrow> panic + 'done runtime_message" where
  "rpc_sign checks blake3_hex room t msg tx =
     and_then (u16_add checks t 1) (\<lambda>n.
       Inr (request_computation (room_id_from blake3_hex room) n 1 msg tx))"

section \<open>Results\<close>

datatype rpc_error_code = RpcInternalError

record rpc_error =
  re_code :: rpc_error_code
  re_message :: string

definition rpc_internal_error :: "string \<Rightarrow> rpc_error" where
  "rpc_internal_error msg = \<lparr>re_code = RpcInternalError, re_message = msg\<rparr>"

text \<open>
  \<open>AsyncResult::poll\<close> on what \<open>try_recv\<close> yields; pending, it wakes itself at once.
\<close>

definition async_result_poll ::
  "(bytes \<Rightarrow> string + 'a) \<Rightarrow> string \<Rightarrow> (canceled + (string + bytes) option) \<Rightarrow>
   (rpc_error + 'a, unit) poll" where
  "async_result_poll decode canceled_text recv =
     (case recv of
        Inr (Some (Inr v)) \<Rightarrow> Ready (map_sum (\<lambda>e. rpc_internal_error
          (''computation finished successfully but resulted an unexpected output: '' @ e)) id (decode v))
      | Inr (Some (Inl e)) \<Rightarrow> Ready (Inl (rpc_internal_error (''computation terminated with err: '' @ e)))
      | Inr None \<Rightarrow> Pending ()
      | Inl Canceled \<Rightarrow>
          Ready (Inl (rpc_internal_error (''computation terminated with err: '' @ canceled_text))))"

section \<open>From the call to the agent\<close>

text \<open>The runtime's factory is that of the agents.\<close>

definition tss_env ::
  "string \<Rightarrow> ('pid, tss_agent, 'done, 'o) runtime_env \<Rightarrow> bool" where
  "tss_env key_path E \<longleftrightarrow>
     env_agent E = tss_agents \<and>
     env_factory E = (\<lambda>p. case tss_make key_path p :: unit rt_error + tss_agent of
       Inr a \<Rightarrow> Some a | Inl e \<Rightarrow> None)"

definition serve_request ::
  "('pid, 'agent, 'done, 'o) runtime_env \<Rightarrow> 'done runtime_message \<Rightarrow>
   ('pid, 'agent, 'done, 'o) runtime \<Rightarrow>
   ('pid, 'agent, 'done, 'o) runtime \<times> ('pid, 'done) rt_effect list" where
  "serve_request E rq s =
     on_computation_request E (rq_room_id rq) (rq_n rq) (rq_protocol_id rq) (rq_args rq) (rq_on_done rq) s"

lemma tss_env_factory:
  assumes "tss_env key_path E"
  shows "env_factory E 0 = Some (KeyGen key_path)" and "env_factory E 1 = Some (KeySign key_path)"
  using assms by (simp_all add: tss_env_def tss_make_def)

lemma serve_request_idle:
  assumes "rt_rooms_rpc s (rq_room_id rq) = Some h"
    and "\<not> os_is_canceled (env_oneshot E) h (rt_oneshots s)"
    and "env_factory E (rq_protocol_id rq) = Some agent"
  shows "serve_request E rq s =
    (s\<lparr>rt_rooms_rpc := (rt_rooms_rpc s)(rq_room_id rq := None),
       rt_oneshots := os_send (env_oneshot E) h
         \<lparr>rpc_n = rq_n rq, rpc_args = rq_args rq, rpc_agent = agent, rpc_on_done = rq_on_done rq\<rparr>
         (rt_oneshots s)\<rparr>, [])"
  using assms by (simp add: serve_request_def on_computation_request_def Let_def)

text \<open>
  C36: A key generation called over RPC runs with the caller's parameters. In an idle room the runtime
  hands phase 1 a request for the called number of parties and the key generation agent; and every
  party of the computation that is then started with these arguments among that many peers, the
  caller's node or another, starts its state machine with the called threshold and number and with
  its own index, counted from one.
\<close>

theorem rpc_keygen_parameters:
  assumes "varint_ok V" and "length (enc_u16 V t) < io_cap" and "tss_env key_path E"
    and "rq = rpc_keygen V blake3_hex room n t tx"
    and "rt_rooms_rpc s (room_id_from blake3_hex room) = Some h"
    and "\<not> os_is_canceled (env_oneshot E) h (rt_oneshots s)"
    and "distinct (session_peers ps)" and "length (session_peers ps) = unat n"
    and "local_peer_id ps \<in> set (session_peers ps)"
  shows "\<exists>s' k. serve_request E rq s = (s', []) \<and>
    rt_oneshots s' = os_send (env_oneshot E) h
      \<lparr>rpc_n = n, rpc_args = rq_args rq, rpc_agent = KeyGen key_path, rpc_on_done = tx\<rparr> (rt_oneshots s) \<and>
    k < unat n \<and> session_peers ps ! k = local_peer_id ps \<and>
    keygen_start V checks ps (rq_args rq) = Inr (word_of_nat (Suc k), t, n)"
proof -
  have rq: "rq_room_id rq = room_id_from blake3_hex room" "rq_n rq = n" "rq_protocol_id rq = 0"
    "rq_on_done rq = tx" "rq_args rq = enc_u16 V t"
    using assms(2) bw_write_all_fits [of bw_new "enc_u16 V t"]
    by (simp_all add: assms(4) rpc_keygen_def request_computation_def bw_new_def)
  from serve_request_idle [of s rq h E "KeyGen key_path"] assms(5,6) tss_env_factory(1) [OF assms(3)] rq
  have served: "serve_request E rq s =
    (s\<lparr>rt_rooms_rpc := (rt_rooms_rpc s)(room_id_from blake3_hex room := None),
       rt_oneshots := os_send (env_oneshot E) h
         \<lparr>rpc_n = n, rpc_args = rq_args rq, rpc_agent = KeyGen key_path, rpc_on_done = tx\<rparr>
         (rt_oneshots s)\<rparr>, [])" by simp
  have len: "length (session_peers ps) < 65536" using assms(8) unat_u16_less [of n] by simp
  from party_position [OF assms(7) len assms(9)] obtain k where
    k: "k < length (session_peers ps)" "session_peers ps ! k = local_peer_id ps"
    and idx: "index_of ps (local_peer_id ps) = Some (word_of_nat k)"
    and add: "u16_add checks (word_of_nat k) 1 = Inr (word_of_nat (Suc k))" .
  have "read_u16 V (enc_u16 V t) = Inr (t, [])" using varint_okD(2) [OF assms(1), of t "[]"] by simp
  then have "keygen_start V checks ps (rq_args rq) = Inr (word_of_nat (Suc k), t, n)"
    using idx add rq(5) assms(8) by (simp add: keygen_start_def del: of_nat_Suc)
  with served k assms(8) show ?thesis
    by (intro exI [of _ k] exI [of _ "fst (serve_request E rq s)"]) simp
qed

text \<open>A sample runtime in which the room \<open>x\<close> waits for a request; the hash of names is the identity.\<close>

definition sample_tss_env ::
  "(byte, tss_agent, nat, (tss_agent, nat) local_rpc_msg oneshot_list) runtime_env" where
  "sample_tss_env = \<lparr>env_pid = sample_pid, env_varint = leb_ops, env_agent = tss_agents,
     env_oneshot = list_oneshot, env_factory = (\<lambda>p. case tss_make ''k'' p :: unit rt_error + tss_agent of
       Inr a \<Rightarrow> Some a | Inl e \<Rightarrow> None), env_checks = True\<rparr>"

definition sample_tss_runtime ::
  "(byte, tss_agent, nat, (tss_agent, nat) local_rpc_msg oneshot_list) runtime" where
  "sample_tss_runtime = runtime_init sample_tss_env [(RoomId ''x'', 3)]
     (runtime_new \<lparr>ns_local_peer_id = 4\<rparr> (persistent_new [''data''] 4) [])"

theorem rpc_keygen_parameters_witness:
  "\<exists>s'. serve_request sample_tss_env (rpc_keygen leb_ops id ''x'' 2 1 7) sample_tss_runtime = (s', []) \<and>
     rt_oneshots s' = [(TxSent \<lparr>rpc_n = 2, rpc_args = rq_args (rpc_keygen leb_ops id ''x'' 2 1 (7::nat)),
       rpc_agent = KeyGen ''k'', rpc_on_done = 7\<rparr>, True)] \<and>
     keygen_start leb_ops True (peerset_new sample_pid [9, 4] 4)
       (rq_args (rpc_keygen leb_ops id ''x'' 2 1 (7::nat))) = Inr (1, 1, 2)"
proof -
  let ?ps = "peerset_new sample_pid [9, 4] (4 :: byte)"
  have env: "tss_env ''k'' sample_tss_env" by (simp add: tss_env_def sample_tss_env_def)
  have room: "rt_rooms_rpc sample_tss_runtime (room_id_from id ''x'') = Some 0"
    and os: "rt_oneshots sample_tss_runtime = [(TxOpen, True)]"
    by (simp_all add: sample_tss_runtime_def sample_tss_env_def runtime_new_def list_oneshot_def
        phase1_new_def rpc_insert_def push_phase1_def room_id_from_def)
  have idle: "\<not> os_is_canceled (env_oneshot sample_tss_env) 0 (rt_oneshots sample_tss_runtime)"
    by (simp add: os sample_tss_env_def list_oneshot_def)
  have len: "length (enc_u16 leb_ops 1) < io_cap" by (simp add: leb_ops_def leb_enc.simps [of "Suc 0"])
  have ps: "distinct (session_peers ?ps)" "length (session_peers ?ps) = unat (2 :: u16)"
    "local_peer_id ?ps \<in> set (session_peers ?ps)" "session_peers ?ps = [4, 9]"
    by simp_all
  from rpc_keygen_parameters [OF leb_ops_ok len env refl room idle ps(1-3), of 7 True] obtain s' k where
    "serve_request sample_tss_env (rpc_keygen leb_ops id ''x'' 2 1 7) sample_tss_runtime = (s', [])"
    and "rt_oneshots s' = os_send (env_oneshot sample_tss_env) 0
      \<lparr>rpc_n = 2, rpc_args = rq_args (rpc_keygen leb_ops id ''x'' 2 1 (7::nat)), rpc_agent = KeyGen ''k'',
       rpc_on_done = 7\<rparr> (rt_oneshots sample_tss_runtime)"
    and k: "k < 2" "[4, 9] ! k = (4 :: byte)"
    and start: "keygen_start leb_ops True ?ps (rq_args (rpc_keygen leb_ops id ''x'' 2 1 (7::nat))) =
      Inr (word_of_nat (Suc k), 1, 2)"
    unfolding ps(4) by auto
  moreover have "k = 0" using k by (cases k) auto
  ultimately show ?thesis by (intro exI [of _ s']) (simp add: os sample_tss_env_def list_oneshot_def)
qed

text \<open>
  C37: A signature called over RPC. For every threshold but the largest the runtime is asked for one
  party more than the threshold, with the signing agent and the message as arguments. The largest
  threshold, 65535, has no successor: with overflow checks the task dies and the call ends in an
  error (its channel is cancelled), without them the runtime is asked for a computation of zero
  parties.
\<close>

theorem rpc_sign_parameters:
  "(unat t < 65535 \<longrightarrow> (\<exists>rq. rpc_sign checks blake3_hex room t msg tx = Inr rq \<and>
      unat (rq_n rq) = unat t + 1 \<and> rq_room_id rq = room_id_from blake3_hex room \<and>
      rq_args rq = msg \<and> tss_make path (rq_protocol_id rq) = Inr (KeySign path))) \<and>
   (unat t = 65535 \<longrightarrow> rpc_sign True blake3_hex room t msg tx = Inl ArithOverflow \<and>
      (\<exists>rq. rpc_sign False blake3_hex room t msg tx = Inr rq \<and> rq_n rq = 0)) \<and>
   (\<exists>e. async_result_poll decode canceled_text (Inl Canceled) = Ready (Inl e))"
proof (intro conjI impI)
  assume "unat t < 65535"
  then have "unat t + unat (1 :: u16) < 65536" by simp
  then show "\<exists>rq. rpc_sign checks blake3_hex room t msg tx = Inr rq \<and>
      unat (rq_n rq) = unat t + 1 \<and> rq_room_id rq = room_id_from blake3_hex room \<and>
      rq_args rq = msg \<and> tss_make path (rq_protocol_id rq) = Inr (KeySign path)"
    using unat_u16_add [of t 1]
    by (simp add: rpc_sign_def u16_add_ok request_computation_def tss_make_def)
next
  assume t: "unat t = 65535"
  then show "rpc_sign True blake3_hex room t msg tx = Inl ArithOverflow"
    by (simp add: rpc_sign_def u16_add_def)
  have "t = word_of_nat (unat t)" by simp
  then have "t = 65535" unfolding t by simp
  then show "\<exists>rq. rpc_sign False blake3_hex room t msg tx = Inr rq \<and> rq_n rq = 0"
    by (simp add: rpc_sign_def u16_add_def request_computation_def)
next
  show "\<exists>e. async_result_poll decode canceled_text (Inl Canceled) = Ready (Inl e)"
    by (simp add: async_result_poll_def)
qed

theorem rpc_sign_parameters_witness:
  "(\<exists>rq. rpc_sign True id ''x'' 2 [1] (7::nat) = Inr rq \<and> unat (rq_n rq) = 3) \<and>
   rpc_sign True id ''x'' 65535 [1] (7::nat) = Inl ArithOverflow"
  using rpc_sign_parameters [of 2 True id "''x''" "[1]" "7::nat" "''k''" "\<lambda>_. Inr ()" "[]"]
    rpc_sign_parameters [of 65535 True id "''x''" "[1]" "7::nat" "''k''" "\<lambda>_. Inr ()" "[]"]
  by auto

end
