(* ===== verification/Setup.thy ===== *)
theory Setup
  imports Worker Agents
begin

text \<open>
  Setting up and deploying a node (\<open>tss/src/config.rs\<close> and the wiring in \<open>cmd/src/main.rs\<close>): the
  configuration file and the key that \<open>setup\<close> writes, and the names of the files and the parameters
  with which \<open>deploy\<close> starts the worker, the runtime and the agents. Parsing of the command line, the
  RPC clients and servers and the spawning of the tasks are not modelled. The text form of a peer
  identifier (\<open>base58\<close>), the serializer of the configuration (\<open>J\<close>) and the peer identifier of a key
  are arguments.
\<close>

section \<open>Configuration\<close>

record ('pid, 'pr) party_config =
  network_peer :: "('pid, 'pr) multiaddr_with_peer_id"
  rpc_addr :: string

record ('pid, 'pr) node_config =
  cf_local :: "('pid, 'pr) party_config"
  cf_boot_peers :: "('pid, 'pr) multiaddr_with_peer_id list"

record ('pid, 'pr) config_ops =
  cfg_to_json :: "('pid, 'pr) node_config \<Rightarrow> string + bytes"
  cfg_from_json :: "bytes \<Rightarrow> string + ('pid, 'pr) node_config"

text \<open>JSON text is UTF-8, and reading what was written gives the value back.\<close>

definition config_json_ok :: "('pid, 'pr) config_ops \<Rightarrow> bool" where
  "config_json_ok J \<longleftrightarrow>
     (\<forall>c b. cfg_to_json J c = Inr b \<longrightarrow> utf8_valid b \<and> cfg_from_json J b = Inr c)"

definition load_config ::
  "('pid, 'pr) config_ops \<Rightarrow> path \<Rightarrow> host_fs \<Rightarrow> string fault + ('pid, 'pr) node_config" where
  "load_config J p fs =
     (case read_file fs p of
        Inl e \<Rightarrow> Inl (Err ''reading config terminated with err: '')
      | Inr b \<Rightarrow>
          if utf8_valid b then with_prefix ''decoding config terminated with err: '' (cfg_from_json J b)
          else Inl (Err ''reading config terminated with err: ''))"

text \<open>\<open>str::replace\<close>: every occurrence of the pattern, from the left.\<close>

function str_replace :: "string \<Rightarrow> string \<Rightarrow> string \<Rightarrow> string" where
  "str_replace pat r s =
     (if pat \<noteq> [] \<and> take (length pat) s = pat then r @ str_replace pat r (drop (length pat) s)
      else case s of [] \<Rightarrow> [] | c # cs \<Rightarrow> c # str_replace pat r cs)"
  by pat_completeness auto
termination
proof (relation "measure (\<lambda>(pat, r, s). length s)")
  fix pat r s :: string
  assume "pat \<noteq> [] \<and> take (length pat) s = pat"
  then have "0 < length pat" "length pat \<le> length s" by (metis length_greater_0_conv, metis length_take min.cobounded1)
  then have "length s - length pat < length s" by linarith
  then show "((pat, r, drop (length pat) s), (pat, r, s)) \<in> measure (\<lambda>(pat, r, s). length s)" by simp
qed auto

declare str_replace.simps [simp del]

text \<open>The path of a node: \<open>:id\<close> stands for its identifier.\<close>

definition node_path :: "('pid \<Rightarrow> string) \<Rightarrow> 'pid \<Rightarrow> string \<Rightarrow> string" where
  "node_path base58 p s = str_replace '':id'' (base58 p) s"

text \<open>
  \<open>setup\<close>: a key is generated and persisted to the path itself, then the configuration, without boot
  peers, is written. The directory of the key is created first; both a missing parent and a failure
  panic. A path that ends in a slash cannot be opened as a new file.
\<close>

definition generate_config ::
  "('pid, 'pr) addr_ops \<Rightarrow> ('k, 'er) secret_key_ops \<Rightarrow> ('pid, 'pr) config_ops \<Rightarrow>
   ('k keypair \<Rightarrow> 'pid) \<Rightarrow> ('pid \<Rightarrow> string) \<Rightarrow> 'k \<Rightarrow> path \<Rightarrow> string \<Rightarrow> string \<Rightarrow> string \<Rightarrow> host_fs \<Rightarrow>
   host_fs \<times> (string fault + ('pid, 'pr) node_config)" where
  "generate_config A S J peer_id_of base58 generated cfg_path setup_path libp2p_addr rpc fs =
     (case into_keypair S generated (Ed25519 New) fs of
        (fs, Inl e) \<Rightarrow> (fs, Inl (Err ''keypair generating err: ''))
      | (fs, Inr keypair) \<Rightarrow>
          let peer_id = peer_id_of keypair;
              path_str = node_path base58 peer_id setup_path;
              p = path_of path_str
          in case path_parent p of
               None \<Rightarrow> (fs, Inl (Panic UnwrapFailed))
             | Some dir \<Rightarrow>
                 (case create_dir_all fs dir of
                    Inl e \<Rightarrow> (fs, Inl (Panic UnwrapFailed))
                  | Inr _ \<Rightarrow>
                      fs_then (if trailing_slash path_str
                               then (fs, Inl (Err ''secret key backup failed with err: ''))
                               else map_prod id (map_sum (\<lambda>e. case e of Panic x \<Rightarrow> Panic x
                                   | Err x \<Rightarrow> Err ''secret key backup failed with err: '') id)
                                 (persist S keypair p fs)) (\<lambda>fs _.
                      case addr_parse A libp2p_addr of
                        Inl e \<Rightarrow> (fs, Inl (Err (''multiaddr parse err: '' @ e)))
                      | Inr multiaddr \<Rightarrow>
                          let config = \<lparr>cf_local = \<lparr>network_peer =
                                \<lparr>mwp_multiaddr = multiaddr, mwp_peer_id = peer_id\<rparr>, rpc_addr = rpc\<rparr>,
                                cf_boot_peers = []\<rparr>
                          in case cfg_to_json J config of
                               Inl e \<Rightarrow> (fs, Inl (Err (''config encoding terminated with err: '' @ e)))
                             | Inr json_bytes \<Rightarrow>
                                 fs_then (io_err ''writing config err: '' (write_file fs cfg_path json_bytes))
                                   (\<lambda>fs _. (fs, Inr config)))))"

section \<open>Deployment\<close>

record deploy_args =
  da_config_path :: path
  da_path :: string
  da_kademlia :: bool
  da_mdns :: bool

text \<open>The default of the option \<open>path\<close>, of \<open>setup\<close> as of \<open>deploy\<close>.\<close>

definition default_path :: string where
  "default_path = ''./data/:id/''"

definition deploy_base_path :: "('pid \<Rightarrow> string) \<Rightarrow> deploy_args \<Rightarrow> ('pid, 'pr) node_config \<Rightarrow> path" where
  "deploy_base_path base58 args config =
     path_of (node_path base58 (mwp_peer_id (network_peer (cf_local config))) (da_path args))"

definition deploy_node_key ::
  "('pid \<Rightarrow> string) \<Rightarrow> deploy_args \<Rightarrow> ('pid, 'pr) node_config \<Rightarrow> 'k node_key_config" where
  "deploy_node_key base58 args config =
     Ed25519 (File (deploy_base_path base58 args config @ [''secret.key'']))"

text \<open>The only room is \<open>tss/0\<close>; its queue is as long as there are boot peers.\<close>

definition deploy_params ::
  "(string \<Rightarrow> string) \<Rightarrow> chan \<Rightarrow> deploy_args \<Rightarrow> ('pid, 'pr) node_config \<Rightarrow>
   room_id \<times> ('pid, 'pr) params \<times> chan" where
  "deploy_params blake3_hex tx args config =
     (let boot_peers = cf_boot_peers config in
      case room_args_new_full blake3_hex ''tss/0'' boot_peers (length boot_peers) tx of
        (rid, room_cfg, room_rx) \<Rightarrow>
          (rid, \<lparr>pm_listen_address = mwp_multiaddr (network_peer (cf_local config)),
                 pm_mdns = da_mdns args, pm_kademlia = da_kademlia args, pm_rooms = [room_cfg]\<rparr>,
           room_rx))"

text \<open>The files of the agents and of the cache: only the cache is under the base path.\<close>

definition deploy_key_share :: "('pid \<Rightarrow> string) \<Rightarrow> 'pid network_service \<Rightarrow> string" where
  "deploy_key_share base58 service = ''data/'' @ base58 (ns_local_peer_id service) @ ''/key.share''"

definition deploy_cacher ::
  "('pid \<Rightarrow> string) \<Rightarrow> deploy_args \<Rightarrow> ('pid, 'pr) node_config \<Rightarrow> 'pid network_service \<Rightarrow>
   'pid persistent_cacher" where
  "deploy_cacher base58 args config service =
     persistent_new (deploy_base_path base58 args config @ [''peerset'']) (ns_local_peer_id service)"

text \<open>The start of the worker.\<close>

definition deploy_worker ::
  "('rr, 'pid, 'ev) rr_ops \<Rightarrow> ('kad, 'pid, 'pr multiaddr, 'kev, 'x, 'hev) kad_ops \<Rightarrow>
   ('mdns, 'pid, 'pr multiaddr, 'x) mdns_ops \<Rightarrow> ('k, 'er) secret_key_ops \<Rightarrow>
   ('pid, 'pr) config_ops \<Rightarrow> (string \<Rightarrow> 'ident) \<Rightarrow> 'ping \<Rightarrow> ('k keypair \<Rightarrow> 'pid) \<Rightarrow> ('k keypair \<Rightarrow> bool) \<Rightarrow>
   ('pid \<Rightarrow> string) \<Rightarrow> (string \<Rightarrow> string) \<Rightarrow> 'k \<Rightarrow> chan \<Rightarrow> deploy_args \<Rightarrow> host_fs \<Rightarrow>
   host_fs \<times> ((string + ('pid, 'pr) net_error) fault +
     ('ping, 'ident, 'kad, 'mdns, 'pid, 'pr multiaddr, 'rr) network_worker \<times>
     'pid network_service)" where
  "deploy_worker R K M S J identify_new ping peer_id_of noise_ok base58 blake3_hex generated tx args fs =
     (case load_config J (da_config_path args) fs of
        Inl (Panic p) \<Rightarrow> (fs, Inl (Panic p))
      | Inl (Err e) \<Rightarrow> (fs, Inl (Err (Inl e)))
      | Inr config \<Rightarrow>
          map_prod id (map_sum (\<lambda>e. case e of Panic p \<Rightarrow> Panic p | Err x \<Rightarrow> Err (Inr x)) id)
            (worker_new R K M S identify_new ping peer_id_of noise_ok generated
               (deploy_node_key base58 args config)
               (fst (snd (deploy_params blake3_hex tx args config))) fs))"

section \<open>Paths\<close>

lemma trailing_slash_replace:
  assumes "pat \<noteq> []" and "last pat \<noteq> CHR ''/''" and "trailing_slash s"
  shows "trailing_slash (str_replace pat r s)"
  using assms
proof (induction pat r s rule: str_replace.induct)
  case (1 pat r s)
  show ?case
  proof (cases "take (length pat) s = pat")
    case True
    have "drop (length pat) s \<noteq> []"
    proof
      assume "drop (length pat) s = []"
      with True have "s = pat" by (metis append_Nil2 append_take_drop_id)
      with "1.prems" show False by (simp add: trailing_slash_def)
    qed
    then have "trailing_slash (drop (length pat) s)"
      using "1.prems"(3) by (simp add: trailing_slash_def last_drop)
    with "1.IH"(1) "1.prems" True have "trailing_slash (str_replace pat r (drop (length pat) s))"
      by simp
    then have "trailing_slash (r @ str_replace pat r (drop (length pat) s))"
      by (simp add: trailing_slash_def)
    with True "1.prems"(1) show ?thesis by (simp add: str_replace.simps [of pat r s])
  next
    case False
    from "1.prems"(3) obtain c cs where s: "s = c # cs" by (cases s) (auto simp: trailing_slash_def)
    show ?thesis
    proof (cases cs)
      case Nil
      have "str_replace pat r [] = []"
        using "1.prems"(1) by (simp add: str_replace.simps [of pat r "[]"])
      then have "str_replace pat r s = [c]"
        using False s Nil by (subst str_replace.simps) simp
      moreover have "c = CHR ''/''" using "1.prems"(3) s Nil by (simp add: trailing_slash_def)
      ultimately show ?thesis by (simp add: trailing_slash_def)
    next
      case (Cons d ds)
      with s "1.prems"(3) have "trailing_slash cs" by (simp add: trailing_slash_def)
      with "1.IH"(2) False s "1.prems" have "trailing_slash (str_replace pat r cs)" by simp
      moreover have "str_replace pat r s = c # str_replace pat r cs"
        using False s by (subst str_replace.simps) simp
      ultimately show ?thesis by (simp add: trailing_slash_def)
    qed
  qed
qed

lemma node_path_trailing_slash: "trailing_slash s \<Longrightarrow> trailing_slash (node_path base58 p s)"
  unfolding node_path_def by (rule trailing_slash_replace) simp_all

lemma parent_of_key: "path_parent (p @ [''secret.key'']) = Some p"
  by (simp add: path_parent_def)

section \<open>Properties\<close>

text \<open>
  Setting up a node under its default path fails. With any path that ends in a slash, as the
  default \<open>./data/:id/\<close> and the path of the documentation do, the generated key is not persisted: setup
  ends in an error or a panic and writes neither a key nor a configuration.
\<close>

theorem setup_default_path_fails:
  assumes "trailing_slash setup_path"
  shows "trailing_slash default_path \<and>
    fst (generate_config A S J peer_id_of base58 g cfg_path setup_path addr rpc fs) = fs \<and>
    (\<exists>e. snd (generate_config A S J peer_id_of base58 g cfg_path setup_path addr rpc fs) = Inl e)"
proof -
  have "trailing_slash (node_path base58 p setup_path)" for p
    by (rule node_path_trailing_slash [OF assms])
  moreover have "trailing_slash default_path" by (simp add: trailing_slash_def default_path_def)
  ultimately show ?thesis
    by (simp add: generate_config_def Let_def split: option.splits sum.splits)
qed

text \<open>A sample serializer, of one configuration.\<close>

definition sample_config :: "(nat, unit) node_config" where
  "sample_config = \<lparr>cf_local = \<lparr>network_peer = \<lparr>mwp_multiaddr = [OtherProtocol ()], mwp_peer_id = 5\<rparr>,
     rpc_addr = ''rpc''\<rparr>, cf_boot_peers = []\<rparr>"

definition sample_config_ops :: "(nat, unit) config_ops" where
  "sample_config_ops = \<lparr>cfg_to_json = (\<lambda>c. if c = sample_config then Inr [123, 125] else Inl ''json''),
     cfg_from_json = (\<lambda>b. Inr sample_config)\<rparr>"

definition sample_addr_nat :: "(nat, unit) addr_ops" where
  "sample_addr_nat = \<lparr>to_multihash = (\<lambda>p. []), from_multihash = (\<lambda>b. None),
     addr_parse = (\<lambda>s. Inr (sample_parse s)), addr_show = (\<lambda>m. concat (map sample_show_protocol m))\<rparr>"

lemma sample_config_ok: "config_json_ok sample_config_ops"
  by (auto simp: config_json_ok_def sample_config_ops_def split: if_splits)

theorem setup_default_path_fails_witness:
  "\<exists>e. snd (generate_config sample_addr_nat sample_secret_key sample_config_ops (\<lambda>_. 5) (\<lambda>_. ''Q5'') 5
     [''config.json''] default_path ''o'' ''rpc'' empty_host) = Inl e"
proof -
  have "trailing_slash default_path" by (simp add: trailing_slash_def default_path_def)
  from setup_default_path_fails [OF this, THEN conjunct2, THEN conjunct2] show ?thesis .
qed

text \<open>What a successful setup leaves behind.\<close>

lemma write_file_InrD:
  assumes "write_file fs p b = (fs', Inr u)"
  shows "fs' = fs\<lparr>fs_files := (fs_files fs)(p \<mapsto> b)\<rparr>" and "fs_can_write fs p"
  using assms by (auto simp: write_file_def open_create_def write_all_new_def split: if_splits)

lemma persist_InrD:
  assumes "persist S (KeypairEd25519 g) p fs = (fs', Inr u)"
  shows "\<exists>b. fs' = fs\<lparr>fs_files := (fs_files fs)(p \<mapsto> b)\<rparr>"
  using assms
  by (auto simp: write_secret_file_def open_create_new_def write_all_new_def map_prod_def
      split: if_splits prod.splits)

lemma generate_config_InrD:
  assumes "generate_config A S J peer_id_of base58 g cfg_path setup_path addr rpc fs = (fs', Inr config)"
  obtains key json where "mwp_peer_id (network_peer (cf_local config)) = peer_id_of (KeypairEd25519 g)"
    and "cfg_to_json J config = Inr json" and "fs_can_write fs cfg_path"
    and "fs' = fs\<lparr>fs_files := (fs_files fs)
      (path_of (node_path base58 (peer_id_of (KeypairEd25519 g)) setup_path) \<mapsto> key, cfg_path \<mapsto> json)\<rparr>"
proof -
  let ?s = "node_path base58 (peer_id_of (KeypairEd25519 g)) setup_path"
  obtain d where d: "path_parent (path_of ?s) = Some d" "create_dir_all fs d = Inr ()" "\<not> trailing_slash ?s"
    using assms by (auto simp: generate_config_def Let_def split: option.splits sum.splits if_splits)
  obtain fs1 r where r: "persist S (KeypairEd25519 g) (path_of ?s) fs = (fs1, r)" by force
  with assms d obtain u where "r = Inr u"
    by (cases r) (simp_all add: generate_config_def Let_def)
  with r obtain key where fs1: "fs1 = fs\<lparr>fs_files := (fs_files fs)(path_of ?s \<mapsto> key)\<rparr>"
    using persist_InrD [of S g "path_of ?s" fs fs1 u] by blast
  obtain m where m: "addr_parse A addr = Inr m"
    using assms d r \<open>r = Inr u\<close> by (cases "addr_parse A addr") (simp_all add: generate_config_def Let_def)
  let ?c = "\<lparr>cf_local = \<lparr>network_peer = \<lparr>mwp_multiaddr = m, mwp_peer_id = peer_id_of (KeypairEd25519 g)\<rparr>,
      rpc_addr = rpc\<rparr>, cf_boot_peers = []\<rparr>"
  obtain json where json: "cfg_to_json J ?c = Inr json"
    using assms d r \<open>r = Inr u\<close> m
    by (cases "cfg_to_json J ?c") (simp_all add: generate_config_def Let_def)
  obtain fs2 w where w: "write_file fs1 cfg_path json = (fs2, w)" by force
  with assms d r \<open>r = Inr u\<close> m json obtain v where v: "w = Inr v" and "fs2 = fs'" and c: "config = ?c"
    by (cases w) (simp_all add: generate_config_def Let_def)
  with write_file_InrD [of fs1 cfg_path json fs2 v] w fs1 json show ?thesis
    by (intro that [of json key]) simp_all
qed

text \<open>
  C38: A node cannot be deployed from its own setup. Setup writes the secret key to the path itself,
  deployment looks for \<open>secret.key\<close> under that path. So after a successful setup the configuration
  reads back as it was written, but deploying with it and with the same path ends in an I/O error of
  the key (the directory that should hold the key is the key file), unless a key was already there,
  and creates nothing.
\<close>

theorem deploy_after_setup_fails:
  assumes "config_json_ok J" and "host_ok fs"
    and "generate_config A S J peer_id_of base58 g cfg_path setup_path addr rpc fs = (fs', Inr config)"
    and "da_config_path args = cfg_path" and "da_path args = setup_path"
    and "key = path_of (node_path base58 (peer_id_of (KeypairEd25519 g)) setup_path) @ [''secret.key'']"
    and "fs_files fs key = None" and "key \<noteq> cfg_path"
  shows "load_config J cfg_path fs' = Inr config \<and>
    (\<exists>e. deploy_worker R K M S J idn ping peer_id_of noise_ok base58 blake3_hex g' tx args fs' =
       (fs', Inl (Err (Inr (NetIo e)))))"
proof -
  let ?p = "path_of (node_path base58 (peer_id_of (KeypairEd25519 g)) setup_path)"
  from assms(3) obtain sk json where pid: "mwp_peer_id (network_peer (cf_local config)) =
      peer_id_of (KeypairEd25519 g)"
    and json: "cfg_to_json J config = Inr json" and "fs_can_write fs cfg_path"
    and fs': "fs' = fs\<lparr>fs_files := (fs_files fs)(?p \<mapsto> sk, cfg_path \<mapsto> json)\<rparr>"
    by (rule generate_config_InrD)
  then have "fs_read_error fs' cfg_path = None" using assms(2) by (simp add: host_ok_def)
  then have load: "load_config J cfg_path fs' = Inr config"
    using assms(1) json fs' by (simp add: load_config_def read_file_def config_json_ok_def)
  have key: "into_keypair S g' (deploy_node_key base58 args config) = into_keypair S g' (Ed25519 (File key))"
    using pid assms(5,6) by (simp add: deploy_node_key_def deploy_base_path_def)
  have "fs_files fs' key = None" using fs' assms(6-8) by simp
  moreover have "create_dir_all fs' ?p \<noteq> Inr ()" using fs' by (simp add: create_dir_all_def)
  moreover have "path_parent key = Some ?p" by (simp add: assms(6) parent_of_key)
  moreover have "fs_read_error fs' key \<noteq> Some NotFound" using fs' assms(2) by (simp add: host_ok_def)
  ultimately have "\<exists>e. get_secret (parse_secret S) g' (sk_to_bytes S) key fs' = (fs', Inl e)"
    by (cases "fs_read_error fs' key"; cases "create_dir_all fs' ?p")
      (auto simp: get_secret_def read_file_def)
  with load key show ?thesis
    by (auto simp: deploy_worker_def worker_new_def assms(4))
qed

theorem deploy_after_setup_fails_witness:
  "\<exists>fs' e. generate_config sample_addr_nat sample_secret_key sample_config_ops (\<lambda>_. 5) (\<lambda>_. ''Q5'') 5
       [''config.json''] ''data/:id'' ''o'' ''rpc'' empty_host = (fs', Inr sample_config) \<and>
     deploy_worker sample_rr sample_kad sample_mdns sample_secret_key sample_config_ops id () (\<lambda>_. 5)
       (\<lambda>_. True) (\<lambda>_. ''Q5'') id 6 3
       \<lparr>da_config_path = [''config.json''], da_path = ''data/:id'', da_kademlia = True, da_mdns = False\<rparr> fs' =
     (fs', Inl (Err (Inr (NetIo e))))"
proof -
  let ?args = "\<lparr>da_config_path = [''config.json''], da_path = ''data/:id'', da_kademlia = True,
    da_mdns = False\<rparr>"
  have path: "node_path (\<lambda>_. ''Q5'') (5::nat) ''data/:id'' = ''data/Q5''"
    by (simp add: node_path_def str_replace.simps)
  have comps: "path_of ''data/Q5'' = [''data'', ''Q5'']" by (simp add: path_of_def Let_def)
  have "path_parent [''data'', ''Q5''] = Some [''data'']" by (simp add: path_parent_def)
  moreover have "create_dir_all empty_host [''data''] = Inr ()"
    by (simp add: create_dir_all_def empty_host_def)
  moreover have "\<not> trailing_slash ''data/Q5''" by (simp add: trailing_slash_def)
  moreover obtain fs1 where "persist sample_secret_key (KeypairEd25519 5) [''data'', ''Q5''] empty_host =
      (fs1, Inr ())" and "fs_can_write fs1 = (\<lambda>_. True)" "fs_space fs1 = (\<lambda>_. 4096)"
    by (simp add: write_secret_file_def open_create_new_def write_all_new_def empty_host_def
        sample_secret_key_def)
  moreover from this(2,3) obtain fs' where "write_file fs1 [''config.json''] [123, 125] = (fs', Inr ())"
    by (simp add: write_file_def open_create_def write_all_new_def)
  moreover have "sample_parse ''o'' = [OtherProtocol ()]" by simp
  ultimately have written: "generate_config sample_addr_nat sample_secret_key sample_config_ops (\<lambda>_. 5)
      (\<lambda>_. ''Q5'') 5 [''config.json''] ''data/:id'' ''o'' ''rpc'' empty_host = (fs', Inr sample_config)"
    by (simp add: generate_config_def path comps sample_addr_nat_def sample_config_ops_def
        sample_config_def Let_def)
  have "fs_files empty_host [''data'', ''Q5'', ''secret.key''] = None" by (simp add: empty_host_def)
  with deploy_after_setup_fails [OF sample_config_ok empty_host_ok written, where args = ?args and
      key = "[''data'', ''Q5'', ''secret.key'']" and R = sample_rr and K = sample_kad and M = sample_mdns and
      idn = id and ping = "()" and noise_ok = "\<lambda>_. True" and blake3_hex = id and g' = 6 and tx = 3]
  obtain e where "deploy_worker sample_rr sample_kad sample_mdns sample_secret_key sample_config_ops id ()
      (\<lambda>_. 5) (\<lambda>_. True) (\<lambda>_. ''Q5'') id 6 3 ?args fs' = (fs', Inl (Err (Inr (NetIo e))))"
    by (auto simp: path comps)
  with written show ?thesis by blast
qed

end
