(* ===== verification/Life_Cycle.thy ===== *)
theory Life_Cycle
  imports Runtime
begin

text \<open>
  The life of a room as an abstract state machine, and that the daemon implements it: what the loop
  does to its rooms, maps of senders, futures and channels is, for every room, one of the moves
  of \<open>room_step\<close>, and an event moves one room at most.
\<close>

section \<open>The abstract rooms\<close>

text \<open>
  A room that is in phase 1 is idle, or asked for a computation by a local request that it has not
  taken up yet, or deaf: the sender of its local requests is gone.
\<close>

datatype phase = Idle | Asked | Deaf | Proposed | Negotiating | Computing

definition in_phase1 :: "phase \<Rightarrow> bool" where
  "in_phase1 ph \<longleftrightarrow> ph \<in> {Idle, Asked, Deaf}"

inductive room_step :: "('pid, 'agent, 'done) rt_event \<Rightarrow> phase \<Rightarrow> phase \<Rightarrow> bool" where
  ask: "room_step (EvRequest room n proto args on_done) Idle Asked"
| take_up: "room_step (EvPhase1 k None) Asked Negotiating"
| propose: "in_phase1 ph \<Longrightarrow> room_step (EvPhase1 k (Some msg)) ph Proposed"
| refuse: "in_phase1 ph \<Longrightarrow> room_step (EvPhase1 k (Some msg)) ph Idle"
| accept: "room_step (EvPhase2 c (Some msg) timer) Proposed Computing"
| give_up: "room_step (EvPhase2 c incoming timer) Proposed Idle"
| deafen: "room_step (EvPhase2 c incoming timer) Proposed Deaf"
| start: "room_step (EvNegotiation c q (Some (Inr reply)) timer) Negotiating Computing"
| abort: "room_step (EvNegotiation c q reply True) Negotiating Idle"
| finish: "room_step (EvProxy k incoming) Computing Idle"

inductive_simps room_step_Computing: "room_step ev Computing ph"

inductive_simps room_step_Deaf: "room_step ev ph Deaf"

text \<open>One step of all rooms: at most one of them moves.\<close>

definition rooms_step ::
  "('pid, 'agent, 'done) rt_event \<Rightarrow> (room_id \<Rightarrow> phase option) \<Rightarrow> (room_id \<Rightarrow> phase option) \<Rightarrow> bool" where
  "rooms_step ev R R' \<longleftrightarrow>
     R' = R \<or> (\<exists>room ph ph'. R room = Some ph \<and> room_step ev ph ph' \<and> R' = R(room \<mapsto> ph'))"

section \<open>The rooms of the daemon\<close>

fun channel_phase :: "('m tx_state \<times> bool) option \<Rightarrow> phase" where
  "channel_phase (Some (TxOpen, True)) = Idle"
| "channel_phase (Some (TxSent r, True)) = Asked"
| "channel_phase _ = Deaf"

fun awaiting_phase :: "('pid, 'agent, 'done) awaiting \<Rightarrow> (room_id \<times> phase) list" where
  "awaiting_phase Selecting = []"
| "awaiting_phase (AwaitPhase2 agent ch) = [(p2_id ch, Proposed)]"
| "awaiting_phase (AwaitNegotiation room n ng) = [(room, Negotiating)]"

definition phase1_phases ::
  "(chan \<Rightarrow> ('m tx_state \<times> bool) option) \<Rightarrow> 'pid phase1_channel list \<Rightarrow> (room_id \<times> phase) list" where
  "phase1_phases v cs = map (\<lambda>ch. (p1_id ch, channel_phase (v (p1_on_local_rpc ch)))) cs"

definition room_phases ::
  "('o, ('agent, 'done) local_rpc_msg) oneshot_view \<Rightarrow> ('pid, 'agent, 'done, 'o) runtime \<Rightarrow>
   (room_id \<times> phase) list" where
  "room_phases view s =
     phase1_phases (view (rt_oneshots s)) (rt_rooms_coordination s) @
     map (\<lambda>p. (rp_id p, Computing)) (rt_network_proxies s) @ awaiting_phase (rt_awaiting s)"

definition rooms_of ::
  "('o, ('agent, 'done) local_rpc_msg) oneshot_view \<Rightarrow> ('pid, 'agent, 'done, 'o) runtime \<Rightarrow>
   room_id \<Rightarrow> phase option" where
  "rooms_of view s = map_of (room_phases view s)"

lemma channel_phase_in_phase1: "in_phase1 (channel_phase x)"
  by (cases x rule: channel_phase.cases) (simp_all add: in_phase1_def)

lemma phase1_phases_cong:
  assumes "\<forall>ch \<in> set cs. v (p1_on_local_rpc ch) = v' (p1_on_local_rpc ch)"
  shows "phase1_phases v cs = phase1_phases v' cs"
  using assms by (simp add: phase1_phases_def)

lemma phase1_phases_append [simp]: "phase1_phases v (cs @ cs') = phase1_phases v cs @ phase1_phases v cs'"
  by (simp add: phase1_phases_def)

lemma phase1_phases_single [simp]:
  "phase1_phases v [ch] = [(p1_id ch, channel_phase (v (p1_on_local_rpc ch)))]"
  by (simp add: phase1_phases_def)

lemma room_phases_owners: "map fst (room_phases view s) = map fst (owners s)"
  by (cases "rt_awaiting s") (simp_all add: room_phases_def owners_def phase1_phases_def comp_def)

section \<open>One event\<close>

text \<open>One entry moves, or none; stated for the entries as a multiset.\<close>

definition moves ::
  "('pid, 'agent, 'done) rt_event \<Rightarrow> (room_id \<times> phase) list \<Rightarrow> (room_id \<times> phase) list \<Rightarrow> bool" where
  "moves ev xs ys \<longleftrightarrow> mset ys = mset xs \<or>
     (\<exists>room ph ph' M. mset xs = add_mset (room, ph) M \<and> mset ys = add_mset (room, ph') M \<and> room_step ev ph ph')"

lemma moves_refl [simp]: "moves ev xs xs"
  by (simp add: moves_def)

lemma movesI:
  assumes "mset xs = add_mset (room, ph) M" and "mset ys = add_mset (room, ph') M" and "room_step ev ph ph'"
  shows "moves ev xs ys"
  using assms by (auto simp: moves_def)

lemma map_of_mset:
  assumes "mset xs = mset ys" and "distinct (map fst xs)"
  shows "map_of xs = map_of ys"
proof -
  have "distinct (map fst ys)" using assms by (metis mset_eq_imp_distinct_iff mset_map)
  then show ?thesis using assms map_of_eqI [of xs ys] by (metis map_of_inject_set mset_eq_setD)
qed

lemma moves_rooms_step:
  assumes "moves ev xs ys" and "distinct (map fst xs)"
  shows "rooms_step ev (map_of xs) (map_of ys)"
proof (cases "mset ys = mset xs")
  case True
  then have "map_of ys = map_of xs" using map_of_mset [OF _ assms(2)] by metis
  then show ?thesis by (simp add: rooms_step_def)
next
  case False
  with assms(1) obtain room ph ph' M where M: "mset xs = add_mset (room, ph) M"
    "mset ys = add_mset (room, ph') M" and step: "room_step ev ph ph'" by (auto simp: moves_def)
  obtain zs where zs: "M = mset zs" by (metis ex_mset)
  have xs: "map_of xs = map_of ((room, ph) # zs)"
    by (rule map_of_mset [OF _ assms(2)]) (simp add: M zs)
  have "distinct (map fst ((room, ph) # zs))"
    using assms(2) M zs by (metis (no_types) mset.simps(2) mset_eq_imp_distinct_iff mset_map)
  then have "distinct (map fst ys)" "map_of ys = map_of ((room, ph') # zs)"
    using M zs map_of_mset [of "(room, ph') # zs" ys]
    by (metis (no_types) fst_conv list.simps(9) mset.simps(2) mset_eq_imp_distinct_iff mset_map)+
  then have "map_of ys = (map_of xs)(room \<mapsto> ph')" by (simp add: xs)
  then show ?thesis using step xs by (auto simp: rooms_step_def)
qed

text \<open>A room that comes back to phase 1 disturbs no other.\<close>

lemma reopen_phases:
  assumes ok: "oneshot_ok (env_oneshot E) view" and inv: "rpc_inv view s"
    and ch: "os_channel (env_oneshot E) (rt_oneshots s) = (p1_on_local_rpc ch, os)"
    and s': "rt_rooms_rpc s' = rt_rooms_rpc s" "rt_oneshots s' = os"
      "rt_rooms_coordination s' = rt_rooms_coordination s @ [ch]"
    and other: "p1_id ch \<notin> p1_id ` set (rt_rooms_coordination s)"
  shows "phase1_phases (view (rt_oneshots (rpc_insert E (p1_id ch) (p1_on_local_rpc ch) s'))) (rt_rooms_coordination s') =
    phase1_phases (view (rt_oneshots s)) (rt_rooms_coordination s) @ [(p1_id ch, Idle)]"
proof -
  let ?h = "p1_on_local_rpc ch" and ?cs = "rt_rooms_coordination s"
  note fresh = rpc_inv_fresh [OF ok inv ch refl]
  have ne: "\<forall>c \<in> set ?cs. p1_on_local_rpc c \<noteq> ?h" using fresh(1) by (metis image_eqI)
  have keep: "phase1_phases v ?cs = phase1_phases (view (rt_oneshots s)) ?cs"
    if "\<forall>c \<in> p1_on_local_rpc ` set ?cs. v c = view (rt_oneshots s) c" for v
    using that by (intro phase1_phases_cong) simp
  show ?thesis
  proof (cases "rt_rooms_rpc s (p1_id ch)")
    case None
    have "phase1_phases (view os) ?cs = phase1_phases (view (rt_oneshots s)) ?cs"
      using ne by (intro keep) (simp add: fresh(3))
    then show ?thesis by (simp add: rpc_insert_def s' None fresh(3))
  next
    case (Some old)
    have "old \<notin> p1_on_local_rpc ` set ?cs" 
      using rpc_invD(4) [OF inv, of _ "p1_id ch"] Some other by (metis (no_types, lifting) image_iff)
    moreover from this have v: "view os old = Some (TxOpen, False)" and "old \<noteq> ?h"
      using rpc_invD(3) [OF inv Some] fresh(2) Some by (auto simp: fresh(3))
    moreover note drop = oneshot_okD(4) [OF ok v]
    ultimately have "phase1_phases (view (os_drop_tx (env_oneshot E) old os)) ?cs =
        phase1_phases (view (rt_oneshots s)) ?cs"
      using ne by (intro keep) (auto simp: drop fresh(3))
    then show ?thesis using \<open>old \<noteq> ?h\<close> by (simp add: rpc_insert_def s' Some drop fresh(3))
  qed
qed

lemma modify_phases:
  assumes ok: "oneshot_ok (env_oneshot E) view" and inv: "rpc_inv view s"
    and ch: "os_channel (env_oneshot E) (rt_oneshots s) = (p1_on_local_rpc ch, os)"
    and s': "rt_rooms_rpc s' = rt_rooms_rpc s" "rt_oneshots s' = os"
      "rt_rooms_coordination s' = rt_rooms_coordination s @ [ch]"
    and other: "p1_id ch \<notin> p1_id ` set (rt_rooms_coordination s)"
  shows "\<exists>ph \<in> {Idle, Deaf}.
    phase1_phases (view (rt_oneshots (rpc_and_modify E (p1_id ch) (p1_on_local_rpc ch) s'))) (rt_rooms_coordination s') =
      phase1_phases (view (rt_oneshots s)) (rt_rooms_coordination s) @ [(p1_id ch, ph)]"
proof (cases "rt_rooms_rpc s (p1_id ch)")
  case (Some old)
  have "rpc_and_modify E (p1_id ch) (p1_on_local_rpc ch) s' = rpc_insert E (p1_id ch) (p1_on_local_rpc ch) s'"
    by (simp add: rpc_and_modify_def rpc_insert_def s' Some)
  with reopen_phases [OF assms] show ?thesis by simp
next
  case None
  let ?h = "p1_on_local_rpc ch"
  note fresh = rpc_inv_fresh [OF ok inv ch refl]
  have ne: "\<forall>c \<in> set (rt_rooms_coordination s). p1_on_local_rpc c \<noteq> ?h" using fresh(1) by (metis image_eqI)
  have "view os ?h = Some (TxOpen, True)" by (simp add: fresh(3))
  note drop = oneshot_okD(4) [OF ok this]
  have "phase1_phases (view (os_drop_tx (env_oneshot E) ?h os)) (rt_rooms_coordination s) =
      phase1_phases (view (rt_oneshots s)) (rt_rooms_coordination s)"
    using ne by (intro phase1_phases_cong) (simp add: drop fresh(3))
  then show ?thesis by (simp add: rpc_and_modify_def s' None drop)
qed

lemma phase1_phases_remove:
  assumes "k < length cs"
  shows "mset (phase1_phases v cs) =
    add_mset (p1_id (cs ! k), channel_phase (v (p1_on_local_rpc (cs ! k)))) (mset (phase1_phases v (remove_nth k cs)))"
  using mset_map_remove_nth [OF assms] by (simp add: phase1_phases_def)

lemma moves_request:
  assumes ok: "oneshot_ok (env_oneshot E) view" and inv: "rpc_inv view s"
    and step: "on_computation_request E room n proto args on_done s = (s', eff)"
  shows "moves (EvRequest room n proto args on_done) (room_phases view s) (room_phases view s')"
proof (cases "rt_rooms_rpc s room = None \<or> env_factory E proto = None")
  case True
  with step show ?thesis by (auto simp: on_computation_request_def split: option.splits)
next
  case False
  then obtain h agent where room: "rt_rooms_rpc s room = Some h" and agent: "env_factory E proto = Some agent" by auto
  note I = rpc_invD [OF inv]
  let ?cs = "rt_rooms_coordination s"
  have v: "view (rt_oneshots s) h = Some (TxOpen, h \<in> p1_on_local_rpc ` set ?cs)" by (rule I(3) [OF room])
  note canceled = oneshot_okD(7) [OF ok v]
  let ?r = "\<lparr>rpc_n = n, rpc_args = args, rpc_agent = agent, rpc_on_done = on_done\<rparr>"
  show ?thesis
  proof (cases "h \<in> p1_on_local_rpc ` set ?cs")
    case True
    then obtain k where k: "k < length ?cs" "p1_on_local_rpc (?cs ! k) = h" by (auto simp: in_set_conv_nth)
    have s': "s' = s\<lparr>rt_rooms_rpc := (rt_rooms_rpc s)(room := None),
        rt_oneshots := os_send (env_oneshot E) h ?r (rt_oneshots s)\<rparr>"
      using step room agent canceled True by (simp add: on_computation_request_def Let_def)
    have v': "view (os_send (env_oneshot E) h ?r (rt_oneshots s)) = (view (rt_oneshots s))(h \<mapsto> (TxSent ?r, True))"
      using oneshot_okD(3) [OF ok v, of ?r] True by simp
    have rest: "phase1_phases ((view (rt_oneshots s))(h \<mapsto> (TxSent ?r, True))) (remove_nth k ?cs) =
        phase1_phases (view (rt_oneshots s)) (remove_nth k ?cs)"
      using remove_nth_keys(4) [OF I(1) k(1)] k(2) by (intro phase1_phases_cong) auto
    show ?thesis
      by (rule movesI [OF _ _ ask])
         (simp_all add: room_phases_def s' phase1_phases_remove [OF k(1)] rest k(2) v' v True)
  next
    case False
    then have s': "s' = s\<lparr>rt_rooms_rpc := (rt_rooms_rpc s)(room := None),
        rt_oneshots := os_drop_tx (env_oneshot E) h (rt_oneshots s)\<rparr>"
      using step room agent canceled by (auto simp add: on_computation_request_def Let_def)
    have "phase1_phases (view (os_drop_tx (env_oneshot E) h (rt_oneshots s))) ?cs =
        phase1_phases (view (rt_oneshots s)) ?cs"
      using False by (intro phase1_phases_cong) (auto simp: oneshot_okD(4) [OF ok v])
    then show ?thesis by (simp add: room_phases_def s')
  qed
qed

lemma moves_phase1:
  assumes ok: "oneshot_ok (env_oneshot E) view" and inv: "rpc_inv view s"
    and step: "on_phase1 E k incoming s = Inr (s', eff)" and k: "k < length (rt_rooms_coordination s)"
    and aw: "rt_awaiting s = Selecting" and dist: "distinct (map p1_id (rt_rooms_coordination s))"
  shows "moves (EvPhase1 k incoming) (room_phases view s) (room_phases view s')"
proof -
  note I = rpc_invD [OF inv]
  let ?ch = "rt_rooms_coordination s ! k"
  let ?h = "p1_on_local_rpc ?ch" and ?rest = "remove_nth k (rt_rooms_coordination s)"
  have mem: "?ch \<in> set (rt_rooms_coordination s)" using k by simp
  from I(2) [OF this] obtain tx where v: "view (rt_oneshots s) ?h = Some (tx, True)" by blast
  have split: "mset (room_phases view s) = add_mset (p1_id ?ch, channel_phase (Some (tx, True)))
      (mset (phase1_phases (view (rt_oneshots s)) ?rest) + mset (map (\<lambda>p. (rp_id p, Computing)) (rt_network_proxies s)))"
    using phase1_phases_remove [OF k, of "view (rt_oneshots s)"] by (simp add: room_phases_def aw v)
  obtain rpc os where rpc: "(if incoming = None
      then os_try_recv (env_oneshot E) ?h (rt_oneshots s)
      else (Inr None, rt_oneshots s)) = (rpc, os)" by (metis surj_pair)
  show ?thesis
  proof (cases "phase1_poll incoming rpc ?ch")
    case (Panicked p)
    with step rpc show ?thesis by (simp add: on_phase1_def Let_def)
  next
    case (Pending ch')
    then have "ch' = ?ch" "rpc = Inr None"
      by (auto simp: phase1_poll_def
          split: option.splits message_type.splits sum.splits canceled.splits)
    with step rpc Pending have s': "s' = s\<lparr>rt_oneshots := os\<rparr>" by (simp add: on_phase1_def Let_def)
    have "view os = view (rt_oneshots s)"
      using rpc v oneshot_okD(8,9) [OF ok v] \<open>rpc = Inr None\<close>
      by (cases tx) (auto split: if_splits)
    then show ?thesis by (simp add: s' room_phases_def)
  next
    case (Ready m)
    obtain unrd os' where drop: "os_drop_rx (env_oneshot E) ?h os = (unrd, os')" by force
    let ?s = "s\<lparr>rt_rooms_coordination := ?rest, rt_oneshots := os'\<rparr>"
    from Ready step rpc drop obtain eff' where msg: "on_phase1_msg E m ?s = Inr (s', eff')"
      by (auto simp: on_phase1_def Let_def and_then_eq_Inr)
    have keep: "phase1_phases (view os') ?rest = phase1_phases (view (rt_oneshots s)) ?rest"
      if "view os' = (view (rt_oneshots s))(?h \<mapsto> x)" for x
      using remove_nth_keys(4) [OF I(1) k] by (intro phase1_phases_cong) (auto simp: that)
    from Ready show ?thesis
    proof (cases rule: phase1_ReadyE)
      case (remote rx im)
      then have os: "os = rt_oneshots s" using rpc by simp
      have v': "view os' = (view (rt_oneshots s))(?h \<mapsto> (tx_taken tx, False))"
        using oneshot_okD(6) [OF ok v] drop by (simp add: os)
      show ?thesis
      proof (cases "env_factory E (protocol_id (im_context im))")
        case None
        obtain h os2 where os2: "os_channel (env_oneshot E) os' = (h, os2)" by force
        let ?new = "\<lparr>p1_id = p1_id ?ch, p1_rx = Some rx, p1_on_local_rpc = h, p1_service = p1_service ?ch\<rparr>"
        have s': "s' = rpc_insert E (p1_id ?new) (p1_on_local_rpc ?new) (push_phase1 ?new (?s\<lparr>rt_oneshots := os2\<rparr>))"
          using msg remote None os2 by (simp add: on_phase1_msg_def phase2_abort_def phase1_new_def)
        have "rpc_inv view ?s" by (rule rpc_inv_drop [OF inv k v']) (simp_all add: v)
        moreover have "p1_id ?new \<notin> p1_id ` set (rt_rooms_coordination ?s)"
          using remove_nth_keys(2) [OF dist k] by simp
        ultimately have "phase1_phases (view (rt_oneshots s')) (rt_rooms_coordination s') =
            phase1_phases (view os') ?rest @ [(p1_id ?ch, Idle)]"
          using reopen_phases [OF ok, of ?s ?new os2 "push_phase1 ?new (?s\<lparr>rt_oneshots := os2\<rparr>)"] os2 s' by simp
        then show ?thesis
          using remote(2) s' aw
          by (intro movesI [OF split _ refuse [OF channel_phase_in_phase1, of k im, folded remote(2)]])
             (simp add: room_phases_def keep [OF v'])
      next
        case (Some agent)
        with msg remote have s': "s' = ?s\<lparr>rt_awaiting := AwaitPhase2 agent
            \<lparr>p2_id = p1_id ?ch, p2_rx = Some rx, p2_service = p1_service ?ch\<rparr>\<rparr>"
          by (simp add: on_phase1_msg_def)
        show ?thesis
          by (rule movesI [OF split _ propose [OF channel_phase_in_phase1, of k im, folded remote(2)]])
             (simp add: s' room_phases_def keep [OF v'])
      qed
    next
      case (local rx r)
      then have tx: "tx = TxSent r" and vos: "view os ?h = Some (TxGone, True)"
        "view os = (view (rt_oneshots s))(?h \<mapsto> (TxGone, True))"
        using rpc v oneshot_okD(8,9) [OF ok v] by (cases tx; simp)+
      have v': "view os' = (view (rt_oneshots s))(?h \<mapsto> (TxGone, False))"
        using oneshot_okD(6) [OF ok vos(1)] drop by (simp only: vos(2) fun_upd_upd snd_conv tx_taken.simps)
      have asked: "channel_phase (Some (tx, True)) = Asked" by (simp add: tx)
      have "mset (room_phases view s') = add_mset (p1_id ?ch, Negotiating)
          (mset (phase1_phases (view (rt_oneshots s)) ?rest) + mset (map (\<lambda>p. (rp_id p, Computing)) (rt_network_proxies s)))"
        using msg local by (auto simp: on_phase1_msg_def room_phases_def keep [OF v'])
      from movesI [OF split [unfolded asked] this take_up] show ?thesis by (simp add: local(2))
    qed
  qed
qed

lemma moves_phase2:
  assumes ok: "oneshot_ok (env_oneshot E) view" and inv: "rpc_inv view s"
    and step: "on_phase2 E c incoming timer agent ch s = Inr (s', eff)"
    and aw: "rt_awaiting s = AwaitPhase2 agent ch" and other: "p2_id ch \<notin> p1_id ` set (rt_rooms_coordination s)"
  shows "moves (EvPhase2 c incoming timer) (room_phases view s) (room_phases view s')"
proof -
  obtain h os where os: "os_channel (env_oneshot E) (rt_oneshots s) = (h, os)" by force
  have split: "mset (room_phases view s) = add_mset (p2_id ch, Proposed)
      (mset (phase1_phases (view (rt_oneshots s)) (rt_rooms_coordination s)) +
       mset (map (\<lambda>p. (rp_id p, Computing)) (rt_network_proxies s)))" by (simp add: room_phases_def aw)
  show ?thesis
  proof (cases "phase2_poll (env_pid E) (env_varint E) h c incoming timer ch")
    case (Panicked p)
    with step os show ?thesis by (simp add: on_phase2_def)
  next
    case (Pending ch2)
    with step os phase2_Pending [OF Pending] show ?thesis by (auto simp: on_phase2_def room_phases_def aw)
  next
    case (Ready m)
    then show ?thesis
    proof (cases rule: phase2_ReadyE)
      case (start rx msg sm)
      with step os Ready show ?thesis
        by (intro movesI [OF split _ accept [of c msg timer, folded start(2)]])
           (auto simp: on_phase2_def and_then_eq_Inr room_phases_def elim!: start_execution_Inr)
    next
      case (abort rx)
      let ?new = "\<lparr>p1_id = p2_id ch, p1_rx = Some rx, p1_on_local_rpc = h, p1_service = p2_service ch\<rparr>"
      let ?s = "push_phase1 ?new (s\<lparr>rt_oneshots := os, rt_awaiting := Selecting\<rparr>)"
      have s': "s' = rpc_and_modify E (p1_id ?new) (p1_on_local_rpc ?new) ?s"
        using step os Ready abort
        by (auto simp add: on_phase2_def push_phase1_def rpc_and_modify_def split: option.splits)
      have "\<exists>ph \<in> {Idle, Deaf}. phase1_phases (view (rt_oneshots s')) (rt_rooms_coordination ?s) =
          phase1_phases (view (rt_oneshots s)) (rt_rooms_coordination s) @ [(p1_id ?new, ph)]"
        unfolding s' by (rule modify_phases [OF ok inv]) (simp_all add: os other)
      then obtain ph where "ph \<in> {Idle, Deaf}" and ph: "phase1_phases (view (rt_oneshots s')) (rt_rooms_coordination ?s) =
          phase1_phases (view (rt_oneshots s)) (rt_rooms_coordination s) @ [(p2_id ch, ph)]" by auto
      then have "room_step (EvPhase2 c incoming timer) Proposed ph" by (auto intro: give_up deafen)
      then show ?thesis by (intro movesI [OF split]) (use ph in \<open>simp_all add: room_phases_def s'\<close>)
    qed
  qed
qed

lemma moves_negotiation:
  assumes ok: "oneshot_ok (env_oneshot E) view" and inv: "rpc_inv view s"
    and step: "on_negotiation E c q reply timer room n ng s = Inr (s', eff)"
    and aw: "rt_awaiting s = AwaitNegotiation room n ng"
    and ninv: "neg_inv room rx n args service agent on_done R ng"
    and other: "room \<notin> p1_id ` set (rt_rooms_coordination s)"
  shows "moves (EvNegotiation c q reply timer) (room_phases view s) (room_phases view s')"
proof -
  obtain h os where os: "os_channel (env_oneshot E) (rt_oneshots s) = (h, os)" by force
  have split: "mset (room_phases view s) = add_mset (room, Negotiating)
      (mset (phase1_phases (view (rt_oneshots s)) (rt_rooms_coordination s)) +
       mset (map (\<lambda>p. (rp_id p, Computing)) (rt_network_proxies s)))" by (simp add: room_phases_def aw)
  from ninv show ?thesis
  proof (rule neg_inv_poll [where P = "env_pid E" and V = "env_varint E" and A = "env_agent E"
        and checks = "env_checks E" and h = h and c = c and q = q and reply = reply
        and timer = timer], goal_cases)
    case (1 peers b)
    then obtain r where r: "reply = Some (Inr r)" by auto
    from 1 step os show ?case
      by (intro movesI [OF split _ start [of c q r timer, folded r]])
         (auto simp: on_negotiation_def and_then_eq_Inr room_phases_def elim!: start_execution_Inr)
  next
    case (2 msgs)
    let ?new = "\<lparr>p1_id = room, p1_rx = Some rx, p1_on_local_rpc = h, p1_service = service\<rparr>"
    let ?s = "push_phase1 ?new (s\<lparr>rt_oneshots := os, rt_awaiting := Selecting\<rparr>)"
    have s': "s' = rpc_insert E (p1_id ?new) (p1_on_local_rpc ?new) ?s"
      using step os 2 by (simp add: on_negotiation_def)
    have "phase1_phases (view (rt_oneshots s')) (rt_rooms_coordination ?s) =
        phase1_phases (view (rt_oneshots s)) (rt_rooms_coordination s) @ [(p1_id ?new, Idle)]"
      unfolding s' by (rule reopen_phases [OF ok inv]) (simp_all add: os other)
    then show ?case
      using s' 2(1) by (intro movesI [OF split _ abort [of c q reply, folded eqTrueI [OF 2(1)]]]) (simp add: room_phases_def)
  next
    case (3 ng' msgs)
    with step os show ?case by (auto simp: on_negotiation_def room_phases_def aw)
  next
    case 4
    with step os show ?case by (simp add: on_negotiation_def)
  qed
qed

lemma moves_proxy:
  assumes ok: "oneshot_ok (env_oneshot E) view" and inv: "rpc_inv view s"
    and step: "on_proxy E k incoming s = Inr (s', eff)" and aw: "rt_awaiting s = Selecting"
    and k: "k < length (rt_network_proxies s)"
    and other: "rp_id (rt_network_proxies s ! k) \<notin> p1_id ` set (rt_rooms_coordination s)"
  shows "moves (EvProxy k incoming) (room_phases view s) (room_phases view s')"
proof -
  let ?p = "rt_network_proxies s ! k"
  obtain h os where os: "os_channel (env_oneshot E) (rt_oneshots s) = (h, os)" by force
  obtain rx where rx: "rp_rx ?p = Some rx"
    using step os by (cases "rp_rx ?p") (auto simp: on_proxy_def receiver_proxy_poll_def Let_def)
  show ?thesis
  proof (cases "proxy_closed s ?p")
    case True
    let ?new = "\<lparr>p1_id = rp_id ?p, p1_rx = Some rx, p1_on_local_rpc = h, p1_service = rp_service ?p\<rparr>"
    let ?s = "push_phase1 ?new (s\<lparr>rt_network_proxies := remove_nth k (rt_network_proxies s), rt_oneshots := os\<rparr>)"
    have s': "s' = rpc_insert E (p1_id ?new) (p1_on_local_rpc ?new) ?s"
      using step True os rx by (simp add: on_proxy_def receiver_proxy_poll_def phase1_new_def Let_def)
    have ph: "phase1_phases (view (rt_oneshots s')) (rt_rooms_coordination ?s) =
        phase1_phases (view (rt_oneshots s)) (rt_rooms_coordination s) @ [(p1_id ?new, Idle)]"
      unfolding s' by (rule reopen_phases [OF ok inv]) (simp_all add: os other)
    have split: "mset (room_phases view s) = add_mset (rp_id ?p, Computing)
        (mset (phase1_phases (view (rt_oneshots s)) (rt_rooms_coordination s)) +
         mset (map (\<lambda>p. (rp_id p, Computing)) (remove_nth k (rt_network_proxies s))))"
      using mset_map_remove_nth [OF k, of "\<lambda>p. (rp_id p, Computing)"] by (simp add: room_phases_def aw)
    show ?thesis using s' ph aw by (intro movesI [OF split _ finish]) (simp add: room_phases_def)
  next
    case False
    have "map (\<lambda>p. (rp_id p, Computing)) ((rt_network_proxies s)[k := p']) =
        map (\<lambda>p. (rp_id p, Computing)) (rt_network_proxies s)" if "rp_id p' = rp_id ?p" for p'
      using that k by (simp add: map_update list_update_same_conv)
    then show ?thesis
      using step False os rx
      by (auto simp: on_proxy_def receiver_proxy_poll_def Let_def room_phases_def split: option.splits)
  qed
qed

lemma distinct_rooms_apart:
  assumes "distinct (map fst (room_phases view s))"
  shows "distinct (map p1_id (rt_rooms_coordination s))"
    and "p \<in> set (rt_network_proxies s) \<Longrightarrow> rp_id p \<notin> p1_id ` set (rt_rooms_coordination s)"
    and "(room, ph) \<in> set (awaiting_phase (rt_awaiting s)) \<Longrightarrow> room \<notin> p1_id ` set (rt_rooms_coordination s)"
proof -
  have "map fst (room_phases view s) = map p1_id (rt_rooms_coordination s) @ map rp_id (rt_network_proxies s) @
      map fst (awaiting_phase (rt_awaiting s))"
    by (simp add: room_phases_def phase1_phases_def comp_def)
  with assms have d: "distinct (map p1_id (rt_rooms_coordination s))"
    "p1_id ` set (rt_rooms_coordination s) \<inter> (rp_id ` set (rt_network_proxies s) \<union>
       fst ` set (awaiting_phase (rt_awaiting s))) = {}" by (simp_all only: distinct_append set_append set_map)
  then show "distinct (map p1_id (rt_rooms_coordination s))" by simp
  from d(2) show "p \<in> set (rt_network_proxies s) \<Longrightarrow> rp_id p \<notin> p1_id ` set (rt_rooms_coordination s)" by blast
  show "room \<notin> p1_id ` set (rt_rooms_coordination s)" if "(room, ph) \<in> set (awaiting_phase (rt_awaiting s))"
  proof -
    have "fst (room, ph) \<in> fst ` set (awaiting_phase (rt_awaiting s))" using that by (rule imageI)
    with d(2) show ?thesis by auto
  qed
qed

lemma runtime_moves:
  assumes ok: "oneshot_ok (env_oneshot E) view" and inv: "rpc_inv view s"
    and aw: "awaiting_ok (rt_awaiting s)" and dist: "distinct (map fst (room_phases view s))"
    and step: "runtime_step E ev s = Some (Inr (s', eff))"
  shows "moves ev (room_phases view s) (room_phases view s')"
proof -
  note apart = distinct_rooms_apart [OF dist]
  show ?thesis
  proof (cases "rt_awaiting s")
    case Selecting
    show ?thesis
    proof (cases ev)
      case (EvRequest room n proto args on_done)
      then have "on_computation_request E room n proto args on_done s = (s', eff)"
        using step Selecting by (simp add: runtime_step_def)
      from moves_request [OF ok inv this] EvRequest show ?thesis by simp
    next
      case (EvPhase1 k incoming)
      then have "on_phase1 E k incoming s = Inr (s', eff)" "k < length (rt_rooms_coordination s)"
        using step Selecting by (auto simp: runtime_step_def split: if_splits)
      from moves_phase1 [OF ok inv this Selecting apart(1)] EvPhase1 show ?thesis by simp
    next
      case (EvExecuted k res)
      then show ?thesis
        using step Selecting by (auto simp: runtime_step_def room_phases_def split: if_splits)
    next
      case (EvProxy k incoming)
      then have p: "on_proxy E k incoming s = Inr (s', eff)" "k < length (rt_network_proxies s)"
        using step Selecting by (auto simp: runtime_step_def split: if_splits)
      from moves_proxy [OF ok inv p(1) Selecting p(2) apart(2)] p(2) EvProxy show ?thesis by simp
    qed (use step Selecting in \<open>simp_all add: runtime_step_def\<close>)
  next
    case (AwaitPhase2 agent ch)
    then obtain c incoming timer where ev: "ev = EvPhase2 c incoming timer"
      and p2: "on_phase2 E c incoming timer agent ch s = Inr (s', eff)"
      using step by (auto simp: runtime_step_def split: rt_event.splits)
    from moves_phase2 [OF ok inv p2 AwaitPhase2] apart(3) AwaitPhase2 ev show ?thesis by simp
  next
    case (AwaitNegotiation room n ng)
    then obtain c q reply timer where ev: "ev = EvNegotiation c q reply timer"
      and neg: "on_negotiation E c q reply timer room n ng s = Inr (s', eff)"
      using step by (auto simp: runtime_step_def split: rt_event.splits)
    from AwaitNegotiation aw obtain rx args service agent on_done R
      where ninv: "neg_inv room rx n args service agent on_done R ng" by auto
    from moves_negotiation [OF ok inv neg AwaitNegotiation ninv] apart(3) AwaitNegotiation ev show ?thesis by simp
  qed
qed

text \<open>At the start every room is idle.\<close>

lemma runtime_init_phases:
  assumes ok: "oneshot_ok (env_oneshot E) view"
  shows "rpc_inv view s \<Longrightarrow> rt_awaiting s = Selecting \<Longrightarrow> rt_network_proxies s = [] \<Longrightarrow>
    distinct (map p1_id (rt_rooms_coordination s) @ map fst rooms) \<Longrightarrow>
    room_phases view (runtime_init E rooms s) = room_phases view s @ map (\<lambda>(r, rx). (r, Idle)) rooms"
proof (induction rooms arbitrary: s)
  case (Cons room rooms)
  obtain r rx where room: "room = (r, rx)" by force
  obtain h os where os: "os_channel (env_oneshot E) (rt_oneshots s) = (h, os)" by force
  let ?new = "\<lparr>p1_id = r, p1_rx = Some rx, p1_on_local_rpc = h, p1_service = rt_network_service s\<rparr>"
  let ?s = "push_phase1 ?new (s\<lparr>rt_oneshots := os\<rparr>)"
  have "rpc_inv view (rpc_insert E (p1_id ?new) h ?s)"
    by (rule rpc_inv_reopen [OF ok Cons.prems(1) os]) simp_all
  moreover have "phase1_phases (view (rt_oneshots (rpc_insert E (p1_id ?new) (p1_on_local_rpc ?new) ?s)))
      (rt_rooms_coordination ?s) = phase1_phases (view (rt_oneshots s)) (rt_rooms_coordination s) @ [(p1_id ?new, Idle)]"
    by (rule reopen_phases [OF ok Cons.prems(1)]) (use Cons.prems(4) in \<open>auto simp: os room\<close>)
  ultimately show ?case
    using Cons.IH [of "rpc_insert E r h ?s"] Cons.prems by (simp add: room os phase1_new_def room_phases_def)
qed (simp add: case_prod_beta)

lemma rooms_of_init:
  assumes "oneshot_ok (env_oneshot E) view" and "distinct (map fst rooms)"
  shows "rooms_of view (runtime_init E rooms (runtime_new service cacher os)) =
    (\<lambda>r. if r \<in> fst ` set rooms then Some Idle else None)"
proof -
  let ?s = "runtime_new service cacher os"
  have "rpc_inv view ?s" "rt_network_proxies ?s = []" by (simp_all add: rpc_inv_def runtime_new_def)
  from runtime_init_phases [OF assms(1) this(1) runtime_new_simps(1) this(2), of rooms] assms(2)
  have "rooms_of view (runtime_init E rooms ?s) = map_of (map (\<lambda>(r, rx). (r, Idle)) rooms)"
    by (simp add: rooms_of_def room_phases_def phase1_phases_def runtime_new_def)
  also have "\<dots> = (\<lambda>r. if r \<in> fst ` set rooms then Some Idle else None)"
    by (induction rooms) auto
  finally show ?thesis .
qed

lemma reached_rooms_distinct:
  assumes "rt_reach E (runtime_new service cacher os) rooms s" and "distinct (map fst rooms)"
  shows "distinct (map fst (room_phases view s))"
proof -
  from rt_reach_owners [OF assms(1)]
  have "image_mset fst (mset (owners s)) = image_mset fst (mset (map (\<lambda>(r, rx). (r, Some rx)) rooms))" by simp
  then have "mset (map fst (owners s)) = mset (map fst rooms)"
    by (simp add: comp_def case_prod_beta flip: mset_map)
  then show ?thesis using assms(2) mset_eq_imp_distinct_iff room_phases_owners by metis
qed

section \<open>The daemon implements the rooms\<close>

text \<open>
  C4: The daemon implements the life of its rooms. Seen through \<open>rooms_of\<close>, every room starts idle, and
  whatever the loop takes up, at most one room moves, by a move that the abstract machine has for that
  kind of event: idle to asked by a request, asked to negotiating, any room in phase 1 to proposed (or
  back to idle, for a protocol that is unknown) by a proposal of another node, from there to computing
  by its start message or back to phase 1, from negotiating to computing by a reply or to idle by the
  timer, and from computing to idle. No room leaves the machine and none is created.
\<close>

theorem daemon_implements_rooms:
  assumes "oneshot_ok (env_oneshot E) view" and "distinct (map fst rooms)"
  shows "rooms_of view (runtime_init E rooms (runtime_new service cacher os)) =
      (\<lambda>r. if r \<in> fst ` set rooms then Some Idle else None) \<and>
    (\<forall>s ev s' eff. rt_reach E (runtime_new service cacher os) rooms s \<and>
       runtime_step E ev s = Some (Inr (s', eff)) \<longrightarrow> rooms_step ev (rooms_of view s) (rooms_of view s'))"
proof (intro conjI allI impI; (elim conjE)?)
  show "rooms_of view (runtime_init E rooms (runtime_new service cacher os)) =
      (\<lambda>r. if r \<in> fst ` set rooms then Some Idle else None)" by (rule rooms_of_init [OF assms])
next
  fix s ev s' eff
  assume reach: "rt_reach E (runtime_new service cacher os) rooms s"
    and step: "runtime_step E ev s = Some (Inr (s', eff))"
  note dist = reached_rooms_distinct [OF reach assms(2), of view]
  have "awaiting_ok (rt_awaiting s)" using rt_reach_owners [OF reach] by simp
  from runtime_moves [OF assms(1) rt_reach_rpc_inv [OF assms(1) reach] this dist step]
  show "rooms_step ev (rooms_of view s) (rooms_of view s')"
    unfolding rooms_of_def by (rule moves_rooms_step [OF _ dist])
qed

theorem daemon_implements_rooms_witness:
  "rooms_of list_view (runtime_init sample_env sample_rooms sample_runtime) (RoomId ''cd'') = Some Idle \<and>
   (\<exists>s. runtime_step sample_env (EvRequest (RoomId ''ab'') 2 1 [5] 0)
       (runtime_init sample_env sample_rooms sample_runtime) = Some (Inr (s, [])) \<and>
     rooms_of list_view s (RoomId ''ab'') = Some Asked \<and>
     rooms_step (EvRequest (RoomId ''ab'') 2 1 [5] 0 :: (byte, nat, nat) rt_event)
       (rooms_of list_view (runtime_init sample_env sample_rooms sample_runtime)) (rooms_of list_view s))"
proof -
  let ?s = "runtime_init sample_env sample_rooms sample_runtime"
  have ok: "oneshot_ok (env_oneshot sample_env) list_view" by (simp add: sample_env_def list_oneshot_ok)
  have rooms: "distinct (map fst sample_rooms)" by simp
  obtain s where s: "runtime_step sample_env (EvRequest (RoomId ''ab'') 2 1 [5] 0) ?s = Some (Inr (s, []))"
    and asked: "rooms_of list_view s (RoomId ''ab'') = Some Asked"
    by (simp add: sample_env_def list_oneshot_def phase1_new_def rpc_insert_def push_phase1_def
        runtime_new_def runtime_step_def on_computation_request_def Let_def rooms_of_def room_phases_def
        phase1_phases_def list_view_def)
  note sim = daemon_implements_rooms [OF ok rooms, of sample_service "persistent_new [''tmp''] 4" "[]"]
  have "rooms_of list_view ?s (RoomId ''cd'') = Some Idle" unfolding conjunct1 [OF sim] by simp
  moreover have "rt_reach sample_env sample_runtime sample_rooms ?s" by (rule rt_init)
  with sim s have "rooms_step (EvRequest (RoomId ''ab'') 2 1 [5] 0 :: (byte, nat, nat) rt_event)
      (rooms_of list_view ?s) (rooms_of list_view s)" by blast
  ultimately show ?thesis using s asked by blast
qed

text \<open>What the machine says of single rooms.\<close>

lemma deaf_only_after_proposal:
  assumes "rooms_step ev R R'" and "R' room = Some Deaf" and "R room \<noteq> Some Deaf"
  shows "R room = Some Proposed \<and> (\<exists>c incoming timer. ev = EvPhase2 c incoming timer)"
  using assms by (auto simp: rooms_step_def room_step_Deaf split: if_splits)

lemma computing_until_its_proxy_ends:
  assumes "rooms_step ev R R'" and "R room = Some Computing" and "R' room \<noteq> Some Computing"
  shows "R' room = Some Idle \<and> (\<exists>k incoming. ev = EvProxy k incoming)"
  using assms by (auto simp: rooms_step_def room_step_Computing in_phase1_def split: if_splits)

end
