(* ===== verification/Session.thy ===== *)
theory Session
  imports Rpc "HOL-Library.Sublist"
begin

text \<open>
  A running computation as the daemon drives it (\<open>echo.wrap_execution(ProtocolExecution::new(..))\<close> in
  \<open>node/runtime/src/runtime.rs\<close>): the future of \<open>execution.rs\<close> inside the echo gadget of \<open>echo.rs\<close>, and
  the channel over which the first hands the second the broadcasts that it sends and receives.

  The channel is \<open>mpsc::channel(n)\<close> with the execution's sender as its only one; by the
  documentation of \<open>futures\<close> it takes \<open>n\<close> messages and one more for the sender. When the wrapped
  future returns or panics, the execution and all that it owns are dropped.
\<close>

section \<open>State and steps\<close>

record ('pid, 'done) session =
  se_n :: nat
  se_queue :: "echo_message list"
  se_echo :: "('pid, string) wrapped"
  se_exec :: "('pid, 'done) protocol_execution"

text \<open>A computation that the daemon has started (\<open>start_execution\<close>), with its empty echo channel.\<close>

definition session_new :: "nat \<Rightarrow> ('pid, 'done) running \<Rightarrow> ('pid, 'done) session" where
  "session_new n ru = \<lparr>se_n = n, se_queue = [], se_echo = ru_echo ru, se_exec = ru_exec ru\<rparr>"

definition echo_free :: "('pid, 'done) session \<Rightarrow> nat" where
  "echo_free s = Suc (se_n s) - length (se_queue s)"

fun echo_handed :: "('pid, 'done) exec_effect list \<Rightarrow> echo_message list" where
  "echo_handed [] = []"
| "echo_handed (ToEcho m # eff) = m # echo_handed eff"
| "echo_handed (_ # eff) = echo_handed eff"

definition requester :: "('pid, 'done) session \<Rightarrow> 'done option" where
  "requester s = (case pe_state (se_exec s) of None \<Rightarrow> None | Some st \<Rightarrow> ex_on_done st)"

text \<open>
  A step polls the execution, lets the gadget take the next message of its channel, or brings the
  gadget a reply to the party's own broadcast. What becomes visible is what the execution's poll
  does, the gadget's acknowledgements, and a requester's sender that is dropped unanswered.
\<close>

datatype 'pid session_event =
    SePoll "'pid exec_input"
  | SeReceive
  | SeReply "'pid reply"

datatype ('pid, 'done) session_effect =
    SeExec "('pid, 'done) exec_effect"
  | SeAcked chan outgoing_response
  | SeDropped 'done

definition session_end ::
  "('pid, string) wrapped \<Rightarrow> ('pid, 'done) session \<Rightarrow> ('pid, 'done) session" where
  "session_end w s = s\<lparr>se_queue := [], se_echo := w, se_exec := \<lparr>pe_state = None\<rparr>\<rparr>"

definition dropped :: "('pid, 'done) session \<Rightarrow> ('pid, 'done) session_effect list" where
  "dropped s = (case requester s of None \<Rightarrow> [] | Some tx \<Rightarrow> [SeDropped tx])"

text \<open>
  The gadget's side of \<open>wrap_execution\<close> after a step of the round: on an error it returns, and the
  computation with the requester's sender is dropped.
\<close>

definition session_wrapped ::
  "('pid, string) wrapped \<times> (chan \<times> outgoing_response) list \<Rightarrow> ('pid, 'done) session \<Rightarrow>
   ('pid, 'done) session \<times> ('pid, 'done) session_effect list" where
  "session_wrapped r s =
     (case r of (w, sent) \<Rightarrow>
        (case w of
           Running g stage \<Rightarrow> (s\<lparr>se_echo := w\<rparr>, map (\<lambda>(tx, resp). SeAcked tx resp) sent)
         | _ \<Rightarrow> (session_end w s, map (\<lambda>(tx, resp). SeAcked tx resp) sent @ dropped s)))"

text \<open>
  The computation's side: the poll sees how many messages the echo channel still takes. When it
  returns, so does the wrapped future; a panic takes everything down.
\<close>

definition session_poll ::
  "'pid pid_ops \<Rightarrow> bool \<Rightarrow> 'pid exec_input \<Rightarrow> ('pid, 'done) session \<Rightarrow> file_system \<Rightarrow>
   ('pid, 'done) session \<times> file_system \<times> ('pid, 'done) session_effect list" where
  "session_poll P checks inp s fs =
     (case exec_poll P checks (inp\<lparr>xi_echo_free := echo_free s\<rparr>) (se_exec s) fs of
        (Pending ex, fs', eff) \<Rightarrow>
          (s\<lparr>se_exec := ex, se_queue := se_queue s @ echo_handed eff\<rparr>, fs', map SeExec eff)
      | (Ready res, fs', eff) \<Rightarrow> (session_end (Returned (Inr ())) s, fs', map SeExec eff)
      | (Panicked p, fs', eff) \<Rightarrow> (session_end (WrapPanicked p) s, fs', map SeExec eff @ dropped s))"

definition session_step ::
  "'pid pid_ops \<Rightarrow> (bytes \<Rightarrow> bytes) \<Rightarrow> bool \<Rightarrow> (chan \<Rightarrow> bool) \<Rightarrow> 'pid session_event \<Rightarrow>
   ('pid, 'done) session \<times> file_system \<Rightarrow>
   (('pid, 'done) session \<times> file_system \<times> ('pid, 'done) session_effect list) option" where
  "session_step P H checks open_tx ev sf =
     (case sf of (s, fs) \<Rightarrow>
      case se_echo s of
        Running g stage \<Rightarrow>
          (case ev of
             SePoll inp \<Rightarrow> Some (session_poll P checks inp s fs)
           | SeReceive \<Rightarrow>
               (case (stage, se_queue s) of
                  (Collecting, m # ms) \<Rightarrow>
                    (case session_wrapped (wrap_step H checks open_tx (EvMessage m) (se_echo s))
                        (s\<lparr>se_queue := ms\<rparr>) of
                       (s', eff) \<Rightarrow> Some (s', fs, eff))
                | _ \<Rightarrow> None)
           | SeReply r \<Rightarrow>
               (case stage of
                  Awaiting rx h hashes \<Rightarrow>
                    (case session_wrapped (wrap_step H checks open_tx (EvReply r) (se_echo s)) s of
                       (s', eff) \<Rightarrow> Some (s', fs, eff))
                | Collecting \<Rightarrow> None))
      | _ \<Rightarrow> None)"

fun session_run ::
  "'pid pid_ops \<Rightarrow> (bytes \<Rightarrow> bytes) \<Rightarrow> bool \<Rightarrow> (chan \<Rightarrow> bool) \<Rightarrow> 'pid session_event list \<Rightarrow>
   ('pid, 'done) session \<times> file_system \<Rightarrow>
   (('pid, 'done) session \<times> file_system \<times> ('pid, 'done) session_effect list) option" where
  "session_run P H checks open_tx [] (s, fs) = Some (s, fs, [])"
| "session_run P H checks open_tx (ev # evs) (s, fs) =
     (case session_step P H checks open_tx ev (s, fs) of
        None \<Rightarrow> None
      | Some (s', fs', eff) \<Rightarrow>
          map_option (\<lambda>(s'', fs'', eff'). (s'', fs'', eff @ eff'))
            (session_run P H checks open_tx evs (s', fs')))"

section \<open>One step\<close>

lemma exec_poll_done:
  assumes "exec_poll P checks inp \<lparr>pe_state = Some st\<rparr> fs = (r, fs', eff)"
  shows "(\<forall>ex. r = Pending ex \<longrightarrow> ex = \<lparr>pe_state = Some st\<rparr>)"
    and "ExecDone tx res \<in> set eff \<longleftrightarrow>
      (\<exists>out. r = Ready out) \<and> xi_agent inp = Some res \<and> ex_on_done st = Some tx"
    and "(\<exists>out. r = Ready out) \<Longrightarrow> \<exists>res. xi_agent inp = Some res"
  using assms
  by (auto simp: exec_poll_def exec_agent_def
      dest: serve_cache_no_done exec_outgoing_no_done exec_incoming_no_done
      split: option.splits sum.splits prod.splits)

text \<open>The answers to the requester among the effects: a result, or none when the sender is dropped.\<close>

fun answers :: "('pid, 'done) session_effect list \<Rightarrow> ('done \<times> (string + bytes) option) list" where
  "answers [] = []"
| "answers (SeExec (ExecDone tx res) # eff) = (tx, Some res) # answers eff"
| "answers (SeDropped tx # eff) = (tx, None) # answers eff"
| "answers (_ # eff) = answers eff"

lemma answers_append [simp]: "answers (xs @ ys) = answers xs @ answers ys"
  by (induction xs rule: answers.induct) simp_all

lemma answers_acks [simp]: "answers (map (\<lambda>(tx, resp). SeAcked tx resp) sent) = []"
  by (induction sent) auto

lemma answers_no_done: "\<forall>tx res. ExecDone tx res \<notin> set eff \<Longrightarrow> answers (map SeExec eff) = []"
proof (induction eff)
  case (Cons e eff)
  then show ?case by (cases e) auto
qed simp

lemma exec_poll_ready_answers:
  assumes "exec_poll P checks inp \<lparr>pe_state = Some st\<rparr> fs = (Ready out, fs', eff)"
    and "ex_on_done st = Some tx"
  shows "\<exists>res. answers (map SeExec eff) = [(tx, Some res)]"
  using assms
  by (auto simp: exec_poll_def exec_agent_def
      intro!: answers_no_done dest: serve_cache_no_done exec_outgoing_no_done exec_incoming_no_done
      split: option.splits sum.splits prod.splits)

abbreviation echo_running :: "('pid, 'done) session \<Rightarrow> bool" where
  "echo_running s \<equiv> (case se_echo s of Running g stage \<Rightarrow> True | _ \<Rightarrow> False)"

definition session_live :: "('pid, 'done) session \<Rightarrow> bool" where
  "session_live s \<longleftrightarrow> echo_running s \<and> pe_state (se_exec s) \<noteq> None"

lemma session_live_iff:
  "session_live s \<longleftrightarrow> (\<exists>g stage st. se_echo s = Running g stage \<and> se_exec s = \<lparr>pe_state = Some st\<rparr>)"
  by (cases "se_exec s") (auto simp: session_live_def split: wrapped.splits)

lemma session_end_fields [simp]:
  "se_echo (session_end w s) = w" "se_queue (session_end w s) = []" "se_n (session_end w s) = se_n s"
  "requester (session_end w s) = None" "pe_state (se_exec (session_end w s)) = None"
  by (simp_all add: session_end_def requester_def)

lemma requester_update [simp]:
  "requester (s\<lparr>se_queue := q\<rparr>) = requester s" "requester (s\<lparr>se_echo := w\<rparr>) = requester s"
  "dropped (s\<lparr>se_queue := q\<rparr>) = dropped s"
  by (simp_all add: requester_def dropped_def)

text \<open>
  The cases of a step of a live session: the execution is polled and stays pending, returns or
  panics; or the gadget makes a step, after which it runs on, or has returned or panicked.
\<close>

lemma session_stepE:
  assumes "session_step P H checks open_tx ev (s, fs) = Some (s', fs', eff)" and "session_live s"
  obtains
    (pending) inp xeff where "ev = SePoll inp"
      "exec_poll P checks (inp\<lparr>xi_echo_free := echo_free s\<rparr>) (se_exec s) fs = (Pending (se_exec s), fs', xeff)"
      "s' = s\<lparr>se_queue := se_queue s @ echo_handed xeff\<rparr>" "eff = map SeExec xeff"
  | (returned) inp xeff out where "ev = SePoll inp"
      "exec_poll P checks (inp\<lparr>xi_echo_free := echo_free s\<rparr>) (se_exec s) fs = (Ready out, fs', xeff)"
      "s' = session_end (Returned (Inr ())) s" "eff = map SeExec xeff"
  | (panicked) inp xeff p where "ev = SePoll inp"
      "exec_poll P checks (inp\<lparr>xi_echo_free := echo_free s\<rparr>) (se_exec s) fs = (Panicked p, fs', xeff)"
      "s' = session_end (WrapPanicked p) s" "eff = map SeExec xeff @ dropped s"
  | (receive) m ms g w sent where "ev = SeReceive" "se_queue s = m # ms" "fs' = fs"
      "se_echo s = Running g Collecting"
      "wrap_step H checks open_tx (EvMessage m) (se_echo s) = (w, sent)"
      "session_wrapped (w, sent) (s\<lparr>se_queue := ms\<rparr>) = (s', eff)"
  | (reply) r g rx h hashes w where "ev = SeReply r" "fs' = fs"
      "se_echo s = Running g (Awaiting rx h hashes)"
      "wrap_step H checks open_tx (EvReply r) (se_echo s) = (w, [])"
      "session_wrapped (w, []) s = (s', eff)"
proof -
  from assms(2) obtain g stage st where live: "se_echo s = Running g stage"
    "se_exec s = \<lparr>pe_state = Some st\<rparr>" by (auto simp: session_live_iff)
  show thesis
  proof (cases ev)
    case (SePoll inp)
    obtain r fs2 xeff where poll:
      "exec_poll P checks (inp\<lparr>xi_echo_free := echo_free s\<rparr>) (se_exec s) fs = (r, fs2, xeff)"
      by (metis prod_cases3)
    show thesis
    proof (cases r)
      case (Pending ex)
      moreover have ex: "ex = se_exec s"
        using exec_poll_done(1) [OF poll [unfolded live(2)]] Pending live by simp
      moreover have "s\<lparr>se_exec := se_exec s\<rparr> = s" by simp
      ultimately show thesis
        using that(1) [OF SePoll] assms(1) SePoll live(1) poll
        by (simp add: session_step_def session_poll_def)
    next
      case (Ready out)
      then show thesis
        using that(2) [OF SePoll] assms(1) SePoll live poll by (simp add: session_step_def session_poll_def)
    next
      case (Panicked p)
      then show thesis
        using that(3) [OF SePoll] assms(1) SePoll live poll by (simp add: session_step_def session_poll_def)
    qed
  next
    case SeReceive
    then show thesis
      using assms(1) live that(4) by (simp add: session_step_def split: echo_stage.splits list.splits prod.splits)
  next
    case (SeReply r)
    then show thesis
      using assms(1) live that(5) by (simp add: session_step_def split: echo_stage.splits prod.splits)
  qed
qed

lemma session_wrapped_cases:
  assumes "session_wrapped (w, sent) s = (s', eff)"
  obtains
    (on) g stage where "w = Running g stage" "s' = s\<lparr>se_echo := w\<rparr>"
      "eff = map (\<lambda>(tx, resp). SeAcked tx resp) sent"
  | (over) "\<nexists>g stage. w = Running g stage" "s' = session_end w s"
      "eff = map (\<lambda>(tx, resp). SeAcked tx resp) sent @ dropped s"
  using assms by (cases w) (auto simp: session_wrapped_def)

lemma wrap_step_not_ok:
  "\<exists>m. ev = EvMessage m \<or> (\<exists>r. ev = EvReply r) \<Longrightarrow>
   fst (wrap_step H checks open_tx ev (Running g stage)) \<noteq> Returned (Inr ())"
  by (cases stage)
     (auto simp: after_round_def proceed_message_def proceed_reply_def Let_def
       split: prod.splits sum.splits echo_result.splits if_splits)

section \<open>The requester's answer\<close>

text \<open>What the requester has got when a session has reached a state.\<close>

definition answered_for ::
  "'done \<Rightarrow> ('pid, 'done) session \<Rightarrow> ('done \<times> (string + bytes) option) list \<Rightarrow> bool" where
  "answered_for tx s ans \<longleftrightarrow>
     (case se_echo s of
        Running g stage \<Rightarrow> session_live s \<and> requester s = Some tx \<and> ans = []
      | Returned (Inr _) \<Rightarrow> \<exists>res. ans = [(tx, Some res)]
      | Returned (Inl e) \<Rightarrow> ans = [(tx, None)]
      | WrapPanicked p \<Rightarrow> ans = [(tx, None)])"

lemma answered_wrapped:
  assumes "session_wrapped (w, sent) s1 = (s', eff)" and "w \<noteq> Returned (Inr ())"
    and "requester s1 = Some tx" and "pe_state (se_exec s1) \<noteq> None"
  shows "answered_for tx s' (answers eff)"
  using assms(1)
proof (cases rule: session_wrapped_cases)
  case (on g stage)
  with assms(3,4) show ?thesis by (simp add: answered_for_def session_live_def)
next
  case over
  with assms(2,3) show ?thesis
    by (cases w) (auto simp: answered_for_def dropped_def split: sum.splits)
qed

lemma session_step_answers:
  assumes "session_step P H checks open_tx ev (s, fs) = Some (s', fs', eff)" and "session_live s"
    and "requester s = Some tx"
  shows "answered_for tx s' (answers eff)"
  using assms(1,2)
proof (cases rule: session_stepE)
  case (pending inp xeff)
  obtain st where st: "se_exec s = \<lparr>pe_state = Some st\<rparr>" using assms(2) by (auto simp: session_live_iff)
  have "answers (map SeExec xeff) = []"
    using exec_poll_done(2) [OF pending(2) [unfolded st]] by (intro answers_no_done) simp
  with pending assms(2,3) show ?thesis
    by (auto simp: answered_for_def session_live_iff requester_def)
next
  case (returned inp xeff out)
  obtain st where st: "se_exec s = \<lparr>pe_state = Some st\<rparr>" using assms(2) by (auto simp: session_live_iff)
  then have "ex_on_done st = Some tx" using assms(3) by (simp add: requester_def)
  from exec_poll_ready_answers [OF returned(2) [unfolded st] this] returned show ?thesis
    by (simp add: answered_for_def)
next
  case (panicked inp xeff p)
  obtain st where st: "se_exec s = \<lparr>pe_state = Some st\<rparr>" using assms(2) by (auto simp: session_live_iff)
  have "answers (map SeExec xeff) = []"
    using exec_poll_done(2) [OF panicked(2) [unfolded st]] by (intro answers_no_done) simp
  with panicked assms(3) show ?thesis by (simp add: answered_for_def dropped_def)
next
  case (receive m ms g w sent)
  have "w \<noteq> Returned (Inr ())"
    using wrap_step_not_ok [of "EvMessage m" H checks open_tx g Collecting] receive(4,5)
    by (metis fst_conv)
  from answered_wrapped [OF receive(6) this] assms(2,3) show ?thesis by (simp add: session_live_def)
next
  case (reply r g rx h hashes w)
  have "w \<noteq> Returned (Inr ())"
    using wrap_step_not_ok [of "EvReply r" H checks open_tx g "Awaiting rx h hashes"] reply(3,4)
    by (metis fst_conv)
  from answered_wrapped [OF reply(5) this] assms(2,3) show ?thesis by (simp add: session_live_def)
qed

lemma session_step_not_running: "\<not> echo_running s \<Longrightarrow> session_step P H checks open_tx ev (s, fs) = None"
  by (auto simp: session_step_def split: wrapped.splits)

lemma session_run_Cons:
  "session_run P H checks open_tx (ev # evs) (s, fs) = Some (s', fs', eff) \<longleftrightarrow>
   (\<exists>s1 fs1 eff1 eff2. session_step P H checks open_tx ev (s, fs) = Some (s1, fs1, eff1) \<and>
      session_run P H checks open_tx evs (s1, fs1) = Some (s', fs', eff2) \<and> eff = eff1 @ eff2)"
  by (auto split: option.splits)

lemma session_run_answers:
  assumes "session_run P H checks open_tx evs (s, fs) = Some (s', fs', eff)" and "session_live s"
    and "requester s = Some tx"
  shows "answered_for tx s' (answers eff)"
  using assms
proof (induction evs arbitrary: s fs eff)
  case Nil
  then show ?case by (auto simp: answered_for_def session_live_iff)
next
  case (Cons ev evs)
  from Cons.prems(1) obtain s1 fs1 eff1 eff2 where
    step: "session_step P H checks open_tx ev (s, fs) = Some (s1, fs1, eff1)"
    and rest: "session_run P H checks open_tx evs (s1, fs1) = Some (s', fs', eff2)"
    and eff: "eff = eff1 @ eff2" unfolding session_run_Cons by blast
  note one = session_step_answers [OF step Cons.prems(2,3)]
  show ?case
  proof (cases "echo_running s1")
    case True
    with one have "session_live s1" "requester s1 = Some tx" "answers eff1 = []"
      by (auto simp: answered_for_def split: wrapped.splits)
    with Cons.IH [OF rest] eff show ?thesis by simp
  next
    case False
    with rest have "s' = s1 \<and> eff2 = []" by (cases evs) (auto simp: session_step_not_running)
    with one eff show ?thesis by simp
  qed
qed

text \<open>What the caller of the RPC gets: the result that was sent, or that the channel is cancelled.\<close>

definition caller_gets ::
  "(bytes \<Rightarrow> string + 'a) \<Rightarrow> string \<Rightarrow> (string + bytes) option \<Rightarrow> (rpc_error + 'a, unit) poll" where
  "caller_gets decode canceled_text answer =
     async_result_poll decode canceled_text
       (case answer of None \<Rightarrow> Inl Canceled | Some res \<Rightarrow> Inr (Some res))"

lemma started_session:
  assumes "start_execution E n room agent parties rx proxy on_done rs = Inr rs'"
    and "s = session_new n (last (rt_protocol_executions rs'))"
  shows "session_live s" and "requester s = on_done" and "se_echo s = wrap_start n" and "se_queue s = []"
    and "se_n s = n"
  using assms
  by (auto simp: start_execution_def and_then_eq_Inr execution_new_def Let_def session_new_def
      session_live_iff requester_def wrap_start_def split: option.splits if_splits)

text \<open>
  C8: A computation that was started for a local request answers its requester exactly once. While it
  runs, nothing is sent and the sender is kept; when the agent has returned, its result has been
  sent, and the caller gets it. When the echo gadget has failed, or something has panicked, the sender
  has been dropped without an answer: the caller only learns that the channel was cancelled, the
  same whatever the error was.
\<close>

theorem computation_answered_once:
  assumes "start_execution E n room agent parties rx proxy (Some tx) rs = Inr rs'"
    and "s = session_new n (last (rt_protocol_executions rs'))"
    and "session_run P H checks open_tx evs (s, fs) = Some (s', fs', eff)"
  shows "case se_echo s' of
      Running g stage \<Rightarrow> answers eff = [] \<and> requester s' = Some tx
    | Returned (Inr _) \<Rightarrow> \<exists>res. answers eff = [(tx, Some res)] \<and>
        (\<forall>v x. res = Inr v \<and> decode v = Inr x \<longrightarrow>
           caller_gets decode canceled_text (Some res) = Ready (Inr x)) \<and>
        (\<forall>e. res = Inl e \<longrightarrow> caller_gets decode canceled_text (Some res) =
           Ready (Inl (rpc_internal_error (''computation terminated with err: '' @ e))))
    | _ \<Rightarrow> answers eff = [(tx, None)] \<and>
        caller_gets decode canceled_text None =
          Ready (Inl (rpc_internal_error (''computation terminated with err: '' @ canceled_text)))"
  using session_run_answers [OF assms(3) started_session(1,2) [OF assms(1,2)]]
  by (simp add: answered_for_def caller_gets_def async_result_poll_def split: wrapped.splits sum.splits)

definition sample_started :: "(byte, nat) session" where
  "sample_started = \<lparr>se_n = 2, se_queue = [], se_echo = wrap_start 2,
     se_exec = \<lparr>pe_state = Some (sample_exec 4)\<rparr>\<rparr>"

abbreviation idle_input :: "byte exec_input" where
  "idle_input \<equiv> \<lparr>xi_cache = None, xi_outgoing = None, xi_incoming = None, xi_agent = None,
     xi_echo_free = 0, xi_agent_open = True, xi_chan = 8\<rparr>"

abbreviation no_files :: file_system where
  "no_files \<equiv> \<lparr>fs_files = Map.empty, fs_can_mkdir = (\<lambda>_. True), fs_can_write = (\<lambda>_. True)\<rparr>"

lemma sample_started_ok:
  "\<exists>rs'. start_execution sample_env 2 (RoomId ''ab'') 0 (peerset_new sample_pid [4, 9] 4) 1
       (sample_proxy 4) (Some 5) sample_runtime = Inr rs' \<and>
     sample_started = session_new 2 (last (rt_protocol_executions rs'))"
  by (simp add: start_execution_def execution_new_def Let_def sample_env_def sample_agent_def u16_sub_def
      index_of_def peerset_size_def runtime_new_def session_new_def sample_started_def sample_exec_def
      sample_service_def)

theorem computation_answered_once_witness:
  "answers (snd (snd (the (session_run sample_pid id True (\<lambda>_. True)
     [SePoll idle_input, SePoll (idle_input\<lparr>xi_agent := Some (Inr [7])\<rparr>)]
     (sample_started, no_files))))) = [(5, Some (Inr [7]))]"
proof -
  obtain rs' where start: "start_execution sample_env 2 (RoomId ''ab'') 0
      (peerset_new sample_pid [4, 9] 4) 1 (sample_proxy 4) (Some 5) sample_runtime = Inr rs'"
    and s: "sample_started = session_new 2 (last (rt_protocol_executions rs'))"
    using sample_started_ok by blast
  have run: "session_run sample_pid id True (\<lambda>_. True)
      [SePoll idle_input, SePoll (idle_input\<lparr>xi_agent := Some (Inr [7])\<rparr>)] (sample_started, no_files) =
    Some (session_end (Returned (Inr ())) sample_started, no_files, [SeExec (ExecDone 5 (Inr [7]))])"
    by (simp add: session_step_def session_poll_def exec_poll_def exec_agent_def sample_started_def
        wrap_start_def sample_exec_def)
  show ?thesis unfolding run
    using computation_answered_once [OF start s run, of "\<lambda>v. Inr v" "[]"] by simp
qed

section \<open>What the gadget sees\<close>

fun acks_sent :: "('pid, 'done) session_effect list \<Rightarrow> (chan \<times> outgoing_response) list" where
  "acks_sent [] = []"
| "acks_sent (SeAcked tx resp # eff) = (tx, resp) # acks_sent eff"
| "acks_sent (_ # eff) = acks_sent eff"

fun broadcasts_handed :: "('pid, 'done) session_effect list \<Rightarrow> echo_message list" where
  "broadcasts_handed [] = []"
| "broadcasts_handed (SeExec (ToEcho m) # eff) = m # broadcasts_handed eff"
| "broadcasts_handed (_ # eff) = broadcasts_handed eff"

fun messages_of :: "('pid, 'e) echo_event list \<Rightarrow> echo_message list" where
  "messages_of [] = []"
| "messages_of (EvMessage m # evs) = m # messages_of evs"
| "messages_of (_ # evs) = messages_of evs"

lemma acks_sent_append [simp]: "acks_sent (xs @ ys) = acks_sent xs @ acks_sent ys"
  by (induction xs rule: acks_sent.induct) simp_all

lemma broadcasts_handed_append [simp]:
  "broadcasts_handed (xs @ ys) = broadcasts_handed xs @ broadcasts_handed ys"
  by (induction xs rule: broadcasts_handed.induct) simp_all

lemma messages_of_append [simp]: "messages_of (es @ es') = messages_of es @ messages_of es'"
  by (induction es rule: messages_of.induct) simp_all

lemma effects_map [simp]:
  "acks_sent (map (\<lambda>(tx, resp). SeAcked tx resp) sent) = sent"
  "broadcasts_handed (map (\<lambda>(tx, resp). SeAcked tx resp) sent) = []"
  "acks_sent (dropped s) = []" "broadcasts_handed (dropped s) = []"
  by (induction sent) (auto simp: dropped_def split: option.splits)

lemma effects_exec [simp]:
  "acks_sent (map SeExec xeff) = []" "broadcasts_handed (map SeExec xeff) = echo_handed xeff"
  by (induction xeff rule: echo_handed.induct) simp_all

text \<open>
  What relates a session to the gadget's own run \<open>evs\<close>: nothing has panicked, the gadget is where
  this run leads, its messages are a prefix of the broadcasts that the execution handed over, and
  while it runs the rest of them waits in the channel.
\<close>

definition gadget_view ::
  "(bytes \<Rightarrow> bytes) \<Rightarrow> bool \<Rightarrow> (chan \<Rightarrow> bool) \<Rightarrow> ('pid, 'done) session \<Rightarrow>
   ('pid, string) echo_event list \<Rightarrow> ('pid, 'done) session \<Rightarrow> ('pid, 'done) session_effect list \<Rightarrow> bool" where
  "gadget_view H checks open_tx s evs s' eff \<longleftrightarrow>
     wrap_run H checks open_tx evs (se_echo s) = (se_echo s', acks_sent eff) \<and>
     (\<exists>rest. messages_of evs @ rest = se_queue s @ broadcasts_handed eff) \<and>
     (echo_running s' \<longrightarrow> session_live s' \<and> messages_of evs @ se_queue s' = se_queue s @ broadcasts_handed eff)"

lemma gadget_view_wrapped:
  assumes "session_wrapped (w, sent) s1 = (s', eff)"
    and "wrap_step H checks open_tx ev (se_echo s) = (w, sent)" and "session_live s"
    and "s1 = s\<lparr>se_queue := ms\<rparr>" and "messages_of [ev] @ ms = se_queue s"
  shows "gadget_view H checks open_tx s [ev] s' eff"
  using assms(1)
proof (cases rule: session_wrapped_cases)
  case (on g stage)
  with assms(2-5) show ?thesis by (auto simp: gadget_view_def session_live_def)
next
  case over
  with assms(2,5) show ?thesis
    by (cases w) (auto simp: gadget_view_def simp flip: assms(5))
qed

lemma session_step_view:
  assumes "session_step P H checks open_tx ev (s, fs) = Some (s', fs', eff)" and "session_live s"
    and "\<nexists>p. se_echo s' = WrapPanicked p"
  shows "\<exists>evs. gadget_view H checks open_tx s evs s' eff"
  using assms(1,2)
proof (cases rule: session_stepE)
  case (pending inp xeff)
  with assms(2) show ?thesis
    by (intro exI [of _ "[]"]) (auto simp: gadget_view_def session_live_iff)
next
  case (returned inp xeff out)
  obtain g stage where "se_echo s = Running g stage" using assms(2) by (auto simp: session_live_iff)
  with returned show ?thesis
    by (intro exI [of _ "[EvComputed (Inr ())]"]) (auto simp: gadget_view_def)
next
  case (panicked inp xeff p)
  with assms(3) show ?thesis by simp
next
  case (receive m ms g w sent)
  from gadget_view_wrapped [OF receive(6,5) assms(2) refl] receive(2) show ?thesis by auto
next
  case (reply r g rx h hashes w)
  from gadget_view_wrapped [OF reply(5,4) assms(2), of "se_queue s"] show ?thesis by auto
qed

lemma gadget_view_trans:
  assumes "gadget_view H checks open_tx s evs1 s1 eff1" and "gadget_view H checks open_tx s1 evs2 s' eff2"
    and "echo_running s1"
  shows "gadget_view H checks open_tx s (evs1 @ evs2) s' (eff1 @ eff2)"
proof -
  from assms(1,3) have one: "wrap_run H checks open_tx evs1 (se_echo s) = (se_echo s1, acks_sent eff1)"
    and queue: "messages_of evs1 @ se_queue s1 = se_queue s @ broadcasts_handed eff1"
    by (auto simp: gadget_view_def)
  have q: "se_queue s @ broadcasts_handed eff1 @ xs = messages_of evs1 @ se_queue s1 @ xs" for xs
    using queue by (metis append.assoc)
  from assms(2) obtain rest where two: "wrap_run H checks open_tx evs2 (se_echo s1) = (se_echo s', acks_sent eff2)"
    and rest: "messages_of evs2 @ rest = se_queue s1 @ broadcasts_handed eff2"
    and run: "echo_running s' \<longrightarrow> session_live s' \<and>
      messages_of evs2 @ se_queue s' = se_queue s1 @ broadcasts_handed eff2"
    by (auto simp: gadget_view_def)
  show ?thesis
    unfolding gadget_view_def wrap_run_append one two
    using rest run by (auto simp: q two intro!: exI [of _ rest])
qed

lemma session_run_view:
  assumes "session_run P H checks open_tx evs (s, fs) = Some (s', fs', eff)" and "session_live s"
    and "\<nexists>p. se_echo s' = WrapPanicked p"
  shows "\<exists>evs. gadget_view H checks open_tx s evs s' eff"
  using assms(1,2)
proof (induction evs arbitrary: s fs eff)
  case Nil
  then show ?case by (intro exI [of _ "[]"]) (auto simp: gadget_view_def)
next
  case (Cons ev evs)
  from Cons.prems(1) obtain s1 fs1 eff1 eff2 where
    step: "session_step P H checks open_tx ev (s, fs) = Some (s1, fs1, eff1)"
    and rest: "session_run P H checks open_tx evs (s1, fs1) = Some (s', fs', eff2)"
    and eff: "eff = eff1 @ eff2" unfolding session_run_Cons by blast
  show ?case
  proof (cases "echo_running s1")
    case True
    then have "\<nexists>p. se_echo s1 = WrapPanicked p" by auto
    from session_step_view [OF step Cons.prems(2) this] obtain evs1 where
      one: "gadget_view H checks open_tx s evs1 s1 eff1" by blast
    with True have "session_live s1" by (simp add: gadget_view_def)
    from Cons.IH [OF rest this] obtain evs2 where "gadget_view H checks open_tx s1 evs2 s' eff2" by blast
    from gadget_view_trans [OF one this True] eff show ?thesis by blast
  next
    case False
    with rest have "s' = s1 \<and> eff2 = []" by (cases evs) (auto simp: session_step_not_running)
    with session_step_view [OF step Cons.prems(2)] assms(3) eff show ?thesis by simp
  qed
qed

text \<open>
  C11: The gadget of a started computation acts on exactly the broadcasts that the execution sends and
  receives, in that order, whatever the interleaving of polls, rounds and replies: as long as nothing
  has panicked, the gadget is in the state, and has sent the acknowledgements, of a run of
  \<open>wrap_execution\<close> alone over a prefix of these broadcasts, and while it runs the others wait in the
  echo channel.
\<close>

theorem gadget_sees_broadcasts_in_order:
  assumes "start_execution E n room agent parties rx proxy on_done rs = Inr rs'"
    and "s = session_new n (last (rt_protocol_executions rs'))"
    and "session_run P H checks open_tx evs (s, fs) = Some (s', fs', eff)"
    and "\<nexists>p. se_echo s' = WrapPanicked p"
  shows "\<exists>gevs. wrap_run H checks open_tx gevs (wrap_start n) = (se_echo s', acks_sent eff) \<and>
    prefix (messages_of gevs) (broadcasts_handed eff) \<and>
    (echo_running s' \<longrightarrow> messages_of gevs @ se_queue s' = broadcasts_handed eff)"
proof -
  note start = started_session [OF assms(1,2)]
  from session_run_view [OF assms(3) start(1) assms(4)] obtain gevs
    where view: "gadget_view H checks open_tx s gevs s' eff" by blast
  then have "prefix (messages_of gevs) (broadcasts_handed eff)"
    using start(4) by (auto simp: gadget_view_def prefix_def intro: sym)
  with view start(3,4) show ?thesis by (intro exI [of _ gevs]) (simp add: gadget_view_def)
qed

text \<open>Sample polls: the agent broadcasts, and a broadcast of party 2 arrives.\<close>

abbreviation broadcast_input :: "bytes \<Rightarrow> chan \<Rightarrow> byte exec_input" where
  "broadcast_input b q \<equiv> idle_input\<lparr>xi_outgoing := Some \<lparr>po_body = b, po_to = RouteBroadcast, po_sent = None\<rparr>,
     xi_chan := q\<rparr>"

abbreviation heard_input :: "bytes \<Rightarrow> chan \<Rightarrow> byte exec_input" where
  "heard_input b tx \<equiv> idle_input\<lparr>xi_incoming := Some (\<lparr>im_peer_id = 9, im_peer_index = 1,
     im_payload = b, im_is_broadcast = True, im_pending_response = tx,
     im_context = \<lparr>message_type = Coordination, session_id = 0, protocol_id = 1\<rparr>\<rparr>)\<rparr>"

theorem gadget_sees_broadcasts_in_order_witness:
  "\<exists>gevs. messages_of gevs @ [\<lparr>em_sender = 2, em_payload = [6], em_response = EIncoming 3\<rparr>] =
     [\<lparr>em_sender = 1, em_payload = [7], em_response = EOutgoing 8\<rparr>,
      \<lparr>em_sender = 2, em_payload = [6], em_response = EIncoming 3\<rparr>] \<and>
     fst (wrap_run id True (\<lambda>_. True) gevs (wrap_start 2)) =
       (Running ((echo_gadget_new 2)\<lparr>eg_msgs := [\<lparr>em_sender = 1, em_payload = [7],
          em_response = EOutgoing 8\<rparr>]\<rparr>) Collecting :: (byte, string) wrapped)"
proof -
  obtain rs' where start: "start_execution sample_env 2 (RoomId ''ab'') 0
      (peerset_new sample_pid [4, 9] 4) 1 (sample_proxy 4) (Some 5) sample_runtime = Inr rs'"
    and s: "sample_started = session_new 2 (last (rt_protocol_executions rs'))"
    using sample_started_ok by blast
  let ?s = "sample_started\<lparr>se_queue := [\<lparr>em_sender = 2, em_payload = [6], em_response = EIncoming 3\<rparr>],
      se_echo := Running ((echo_gadget_new 2)\<lparr>eg_msgs := [\<lparr>em_sender = 1, em_payload = [7],
          em_response = EOutgoing 8\<rparr>]\<rparr>) Collecting\<rparr>"
  have run: "\<exists>fs' eff. session_run sample_pid id True (\<lambda>_. True)
      [SePoll (broadcast_input [7] 8), SePoll (heard_input [6] 3), SeReceive]
      (sample_started, no_files) = Some (?s, fs', eff) \<and>
      broadcasts_handed eff = [\<lparr>em_sender = 1, em_payload = [7], em_response = EOutgoing 8\<rparr>,
        \<lparr>em_sender = 2, em_payload = [6], em_response = EIncoming 3\<rparr>]"
    by (simp add: session_step_def session_poll_def exec_poll_def exec_agent_def sample_started_def
        wrap_start_def sample_exec_def exec_outgoing_def exec_incoming_def u16_add_def u16_sub_def
        echo_free_def echo_gadget_new_def proceed_message_def heap_push_def after_round_def
        session_wrapped_def Let_def)
  then obtain fs' eff where run: "session_run sample_pid id True (\<lambda>_. True)
      [SePoll (broadcast_input [7] 8), SePoll (heard_input [6] 3), SeReceive]
      (sample_started, no_files) = Some (?s, fs', eff)"
    and handed: "broadcasts_handed eff = [\<lparr>em_sender = 1, em_payload = [7], em_response = EOutgoing 8\<rparr>,
        \<lparr>em_sender = 2, em_payload = [6], em_response = EIncoming 3\<rparr>]" by blast
  from gadget_sees_broadcasts_in_order [OF start s run] obtain gevs where
    "wrap_run id True (\<lambda>_. True) gevs (wrap_start 2) = (se_echo ?s, acks_sent eff)"
    and "messages_of gevs @ se_queue ?s = broadcasts_handed eff" by auto
  then show ?thesis unfolding handed by (intro exI [of _ gevs]) simp
qed

section \<open>Running ahead of the echo\<close>

text \<open>
  A poll with one broadcast: the agent sends one, or one of a party arrives, and nothing else happens.
\<close>

definition one_broadcast :: "('pid, 'done) exec_state \<Rightarrow> 'pid exec_input \<Rightarrow> bool" where
  "one_broadcast st inp \<longleftrightarrow>
     xi_cache inp = None \<and> xi_agent inp = None \<and> xi_agent_open inp \<and>
     (case (xi_outgoing inp, xi_incoming inp) of
        (Some m, None) \<Rightarrow> po_to m = RouteBroadcast
      | (None, Some msg) \<Rightarrow> im_is_broadcast msg \<and>
          unat (im_peer_index msg) < length (session_peers (ex_parties st))
      | _ \<Rightarrow> False)"

lemma one_broadcast_poll:
  assumes "exec_wf st" and "one_broadcast st inp"
  shows "if free = 0
    then \<exists>eff. exec_poll P checks (inp\<lparr>xi_echo_free := free\<rparr>) \<lparr>pe_state = Some st\<rparr> fs =
        (Panicked ExpectFailed, fs, eff)
    else \<exists>eff m. exec_poll P checks (inp\<lparr>xi_echo_free := free\<rparr>) \<lparr>pe_state = Some st\<rparr> fs =
        (Pending \<lparr>pe_state = Some st\<rparr>, fs, eff) \<and> echo_handed eff = [m]"
proof -
  have "1 \<le> ex_n st" using exec_wfD(2,4) [OF assms(1)] by (simp add: word_le_nat_alt)
  then have n: "u16_sub checks (ex_n st) 1 = Inr (ex_n st - 1)" by (rule u16_sub_ok)
  have i: "u16_add checks (ex_i st) 1 = Inr (ex_i st + 1)"
    using exec_wfD(3,5) [OF assms(1)] by (intro u16_add_ok) simp
  show ?thesis
  proof (cases "xi_outgoing inp")
    case (Some m)
    with assms(2) n i show ?thesis
      by (simp add: one_broadcast_def exec_poll_def exec_agent_def exec_outgoing_def service_multicast_def
          split: option.splits)
  next
    case None
    with assms(2) obtain msg where msg: "xi_incoming inp = Some msg" "im_is_broadcast msg"
      "unat (im_peer_index msg) < length (session_peers (ex_parties st))"
      by (auto simp: one_broadcast_def split: option.splits)
    then have "u16_add checks (im_peer_index msg) 1 = Inr (im_peer_index msg + 1)"
      using exec_wfD(3) [OF assms(1)] by (intro u16_add_ok) simp
    with None assms(2) msg show ?thesis
      by (simp add: one_broadcast_def exec_poll_def exec_agent_def exec_incoming_def Let_def)
  qed
qed

lemma session_run_append:
  "session_run P H checks open_tx evs (s, fs) = Some (s1, fs1, eff1) \<Longrightarrow>
   session_run P H checks open_tx (evs @ evs') (s, fs) =
     map_option (\<lambda>(s2, fs2, eff2). (s2, fs2, eff1 @ eff2)) (session_run P H checks open_tx evs' (s1, fs1))"
proof (induction evs arbitrary: s fs eff1)
  case Nil
  then show ?case by (simp add: option.map_id0 case_prod_beta' option.map_ident)
next
  case (Cons ev evs)
  from Cons.prems obtain sA fsA effA effB where
    step: "session_step P H checks open_tx ev (s, fs) = Some (sA, fsA, effA)"
    and rest: "session_run P H checks open_tx evs (sA, fsA) = Some (s1, fs1, effB)"
    and eff: "eff1 = effA @ effB" unfolding session_run_Cons by blast
  show ?case
    using Cons.IH [OF rest] step eff by (simp add: option.map_comp comp_def case_prod_beta')
qed

lemma polls_fill_channel:
  assumes "exec_wf st" and "\<forall>inp \<in> set inps. one_broadcast st inp"
    and "se_echo s = Running g stage" and "se_exec s = \<lparr>pe_state = Some st\<rparr>"
    and "length (se_queue s) + length inps \<le> Suc (se_n s)"
  shows "\<exists>q eff. session_run P H checks open_tx (map SePoll inps) (s, fs) = Some (s\<lparr>se_queue := q\<rparr>, fs, eff) \<and>
    length q = length (se_queue s) + length inps \<and> answers eff = []"
  using assms(2-)
proof (induction inps arbitrary: s)
  case Nil
  then show ?case by (intro exI [of _ "se_queue s"]) simp
next
  case (Cons inp inps)
  let ?free = "echo_free s"
  have "?free \<noteq> 0" using Cons.prems(4) by (simp add: echo_free_def)
  then obtain xeff m where poll: "exec_poll P checks (inp\<lparr>xi_echo_free := ?free\<rparr>) \<lparr>pe_state = Some st\<rparr> fs =
      (Pending \<lparr>pe_state = Some st\<rparr>, fs, xeff)" "echo_handed xeff = [m]"
    using one_broadcast_poll [OF assms(1), of inp ?free P checks fs] Cons.prems(1) by auto
  let ?s = "s\<lparr>se_queue := se_queue s @ [m]\<rparr>"
  have "s\<lparr>se_exec := \<lparr>pe_state = Some st\<rparr>\<rparr> = s" using Cons.prems(3) by (cases s) simp
  then have step: "session_step P H checks open_tx (SePoll inp) (s, fs) = Some (?s, fs, map SeExec xeff)"
    using Cons.prems(2,3) poll by (simp add: session_step_def session_poll_def)
  have "answers (map SeExec xeff) = []"
    using exec_poll_done(2) [OF poll(1)] by (intro answers_no_done) simp
  then show ?case using Cons.IH [of ?s] Cons.prems step by auto
qed

text \<open>
  C28: The channel to the echo gadget takes one round and one message more. While the gadget waits for the
  replies to its own broadcast, \<open>n + 1\<close> further broadcasts, sent or received, are handed over; the
  next one finds the channel full although it is open, and the \<open>expect\<close> panics: the computation
  and with it the daemon are lost, and the requester is not answered. A party that is slow to
  acknowledge makes every other party that runs two rounds ahead do this.
\<close>

theorem echo_backlog_panics:
  assumes "exec_wf st" and "se_exec s = \<lparr>pe_state = Some st\<rparr>" and "ex_on_done st = Some tx"
    and "se_echo s = Running g (Awaiting rx h hashes)" and "se_queue s = []"
    and "\<forall>inp \<in> set inps. one_broadcast st inp" and "length inps = Suc (se_n s)" and "one_broadcast st inp"
  shows "(\<exists>s' eff. session_run P H checks open_tx (map SePoll inps) (s, fs) = Some (s', fs, eff) \<and>
      se_echo s' = se_echo s \<and> length (se_queue s') = Suc (se_n s) \<and> answers eff = []) \<and>
    (\<exists>s' eff. session_run P H checks open_tx (map SePoll (inps @ [inp])) (s, fs) = Some (s', fs, eff) \<and>
      se_echo s' = WrapPanicked ExpectFailed \<and> answers eff = [(tx, None)])"
proof -
  from polls_fill_channel [OF assms(1,6,4,2), of P H checks open_tx fs] assms(5,7) obtain q eff where
    run: "session_run P H checks open_tx (map SePoll inps) (s, fs) = Some (s\<lparr>se_queue := q\<rparr>, fs, eff)"
    and q: "length q = Suc (se_n s)" and eff: "answers eff = []" by auto
  let ?s = "s\<lparr>se_queue := q\<rparr>"
  have full: "echo_free ?s = 0" by (simp add: echo_free_def q)
  from one_broadcast_poll [OF assms(1,8), of 0 P checks fs] obtain xeff where
    poll: "exec_poll P checks (inp\<lparr>xi_echo_free := 0\<rparr>) \<lparr>pe_state = Some st\<rparr> fs =
      (Panicked ExpectFailed, fs, xeff)" by auto
  have "answers (map SeExec xeff) = []"
    using exec_poll_done(2) [OF poll] by (intro answers_no_done) simp
  moreover have "session_step P H checks open_tx (SePoll inp) (?s, fs) =
      Some (session_end (WrapPanicked ExpectFailed) ?s, fs, map SeExec xeff @ [SeDropped tx])"
    using assms(2-4) full poll
    by (simp add: session_step_def session_poll_def dropped_def requester_def)
  ultimately show ?thesis
    using run q eff session_run_append [OF run, of "[SePoll inp]"] by simp
qed

text \<open>A party that waits for the reply of party 2; its agent and the other's run on.\<close>

definition sample_waiting :: "(byte, nat) session" where
  "sample_waiting = sample_started\<lparr>se_echo := Running (echo_gadget_new 2) (Awaiting 8 [6, 7] [])\<rparr>"

theorem echo_backlog_panics_witness:
  "\<exists>s' eff. session_run sample_pid id True (\<lambda>_. True)
     (map SePoll [broadcast_input [1] 9, heard_input [2] 4, broadcast_input [3] 10, heard_input [4] 5])
     (sample_waiting, no_files) = Some (s', no_files, eff) \<and>
   se_echo s' = WrapPanicked ExpectFailed \<and> answers eff = [(5, None)]"
proof -
  have st: "se_exec sample_waiting = \<lparr>pe_state = Some (sample_exec 4)\<rparr>" "ex_on_done (sample_exec 4) = Some 5"
    "se_echo sample_waiting = Running (echo_gadget_new 2) (Awaiting 8 [6, 7] [])" "se_queue sample_waiting = []"
    by (simp_all add: sample_waiting_def sample_started_def sample_exec_def)
  have one: "one_broadcast (sample_exec 4) (broadcast_input b q)"
    "one_broadcast (sample_exec 4) (heard_input b q)" for b q
    by (simp_all add: one_broadcast_def sample_exec_def)
  show ?thesis
    using echo_backlog_panics [OF sample_exec_wf st,
        of "[broadcast_input [1] 9, heard_input [2] 4, broadcast_input [3] 10]" "heard_input [4] 5"
        sample_pid id True "\<lambda>_. True" no_files] one
    by (simp add: sample_waiting_def sample_started_def del: session_run.simps)
qed

end
