(* ===== verification/Daemon.thy ===== *)
theory Daemon
  imports Session
begin

text \<open>
  The whole daemon: the loop of \<open>RuntimeDaemon::run\<close> with the computations that it polls, each a
  session. One turn of \<open>select!\<close> is an event of the loop, or a step of one of the computations, which
  are polled only while nothing is awaited. A computation that returns leaves the loop in the same turn;
  one that panics takes the daemon down, and so does one whose agent panics. The network worker is a
  task of its own: when it has ended, the next message for it panics the daemon.

  The senders of the requesters are followed through it: every request that was taken up is held
  in exactly one place until it is settled, once.
\<close>

section \<open>State and steps\<close>

record ('pid, 'agent, 'done, 'o) daemon =
  dm_runtime :: "('pid, 'agent, 'done, 'o) runtime"
  dm_sessions :: "('pid, 'done) session list"
  dm_files :: file_system
  dm_worker :: bool

datatype ('pid, 'agent, 'done) daemon_event =
    DmLoop "('pid, 'agent, 'done) rt_event"
  | DmComputation nat "'pid session_event"
  | DmAgentPanics nat panic
  | DmWorkerEnds

datatype ('pid, 'done) daemon_effect =
    DmRuntime "('pid, 'done) rt_effect"
  | DmSession "('pid, 'done) session_effect"

definition begin_session :: "('pid, 'done) running \<Rightarrow> ('pid, 'done) session" where
  "begin_session ru = session_new (case ru_echo ru of Running g stage \<Rightarrow> eg_n g | _ \<Rightarrow> 0) ru"

definition daemon_new :: "('pid, 'agent, 'done, 'o) runtime \<Rightarrow> file_system \<Rightarrow>
    ('pid, 'agent, 'done, 'o) daemon" where
  "daemon_new rt fs = \<lparr>dm_runtime = rt, dm_sessions = [], dm_files = fs, dm_worker = True\<rparr>"

text \<open>What a turn sends to the network worker, and the turn's outcome: a send to an ended worker panics.\<close>

fun rt_messages :: "('pid, 'done) rt_effect list \<Rightarrow> 'pid network_message list" where
  "rt_messages [] = []"
| "rt_messages (RtNet m # eff) = m # rt_messages eff"
| "rt_messages (_ # eff) = rt_messages eff"

fun session_messages :: "('pid, 'done) session_effect list \<Rightarrow> 'pid network_message list" where
  "session_messages [] = []"
| "session_messages (SeExec (Net m) # eff) = m # session_messages eff"
| "session_messages (_ # eff) = session_messages eff"

definition sending ::
  "('pid, 'agent, 'done, 'o) daemon \<Rightarrow> 'pid network_message list \<Rightarrow> 'a \<Rightarrow> panic + 'a" where
  "sending d msgs x = and_then (to_worker (dm_worker d) msgs) (\<lambda>_. Inr x)"

text \<open>An event of the loop; the end of a computation is not one, since it comes from its session.\<close>

definition daemon_loop ::
  "('pid, 'agent, 'done, 'o) runtime_env \<Rightarrow> ('pid, 'agent, 'done) rt_event \<Rightarrow>
   ('pid, 'agent, 'done, 'o) daemon \<Rightarrow>
   (panic + ('pid, 'agent, 'done, 'o) daemon \<times> ('pid, 'done) daemon_effect list) option" where
  "daemon_loop E ev d =
     (case ev of
        EvExecuted k res \<Rightarrow> None
      | _ \<Rightarrow> map_option (\<lambda>r. and_then r (\<lambda>(rt, eff). sending d (rt_messages eff)
          (d\<lparr>dm_runtime := rt, dm_sessions := dm_sessions d @ map begin_session
               (drop (length (rt_protocol_executions (dm_runtime d))) (rt_protocol_executions rt))\<rparr>,
           map DmRuntime eff)))
          (runtime_step E ev (dm_runtime d)))"

definition daemon_computation ::
  "('pid, 'agent, 'done, 'o) runtime_env \<Rightarrow> (bytes \<Rightarrow> bytes) \<Rightarrow> (chan \<Rightarrow> bool) \<Rightarrow> nat \<Rightarrow>
   'pid session_event \<Rightarrow> ('pid, 'agent, 'done, 'o) daemon \<Rightarrow>
   (panic + ('pid, 'agent, 'done, 'o) daemon \<times> ('pid, 'done) daemon_effect list) option" where
  "daemon_computation E H open_tx k ev d =
     (case rt_awaiting (dm_runtime d) of
        Selecting \<Rightarrow>
          if k < length (dm_sessions d) then
            (case session_step (env_pid E) H (env_checks E) open_tx ev (dm_sessions d ! k, dm_files d) of
               None \<Rightarrow> None
             | Some (s, fs, eff) \<Rightarrow>
                 (case se_echo s of
                    Running g stage \<Rightarrow>
                      Some (sending d (session_messages eff)
                        (d\<lparr>dm_sessions := (dm_sessions d)[k := s], dm_files := fs\<rparr>, map DmSession eff))
                  | Returned res \<Rightarrow>
                      map_option (\<lambda>r. and_then r (\<lambda>(rt, eff'). sending d (session_messages eff)
                        (d\<lparr>dm_runtime := rt, dm_sessions := remove_nth k (dm_sessions d), dm_files := fs\<rparr>,
                         map DmSession eff @ map DmRuntime eff')))
                        (runtime_step E (EvExecuted k res) (dm_runtime d))
                  | WrapPanicked p \<Rightarrow> Some (Inl p)))
          else None
      | _ \<Rightarrow> None)"

fun daemon_step ::
  "('pid, 'agent, 'done, 'o) runtime_env \<Rightarrow> (bytes \<Rightarrow> bytes) \<Rightarrow> (chan \<Rightarrow> bool) \<Rightarrow>
   ('pid, 'agent, 'done) daemon_event \<Rightarrow> ('pid, 'agent, 'done, 'o) daemon \<Rightarrow>
   (panic + ('pid, 'agent, 'done, 'o) daemon \<times> ('pid, 'done) daemon_effect list) option" where
  "daemon_step E H open_tx (DmLoop ev) d = daemon_loop E ev d"
| "daemon_step E H open_tx (DmComputation k ev) d = daemon_computation E H open_tx k ev d"
| "daemon_step E H open_tx (DmAgentPanics k p) d =
     (if rt_awaiting (dm_runtime d) = Selecting \<and> k < length (dm_sessions d) then Some (Inl p) else None)"
| "daemon_step E H open_tx DmWorkerEnds d = Some (Inr (d\<lparr>dm_worker := False\<rparr>, []))"

fun daemon_run ::
  "('pid, 'agent, 'done, 'o) runtime_env \<Rightarrow> (bytes \<Rightarrow> bytes) \<Rightarrow> (chan \<Rightarrow> bool) \<Rightarrow>
   ('pid, 'agent, 'done) daemon_event list \<Rightarrow> ('pid, 'agent, 'done, 'o) daemon \<Rightarrow>
   (panic + ('pid, 'agent, 'done, 'o) daemon \<times> ('pid, 'done) daemon_effect list) option" where
  "daemon_run E H open_tx [] d = Some (Inr (d, []))"
| "daemon_run E H open_tx (ev # evs) d =
     (case daemon_step E H open_tx ev d of
        None \<Rightarrow> None
      | Some (Inl p) \<Rightarrow> Some (Inl p)
      | Some (Inr (d', eff)) \<Rightarrow>
          map_option (map_sum id (\<lambda>(d'', eff'). (d'', eff @ eff'))) (daemon_run E H open_tx evs d'))"

section \<open>Where a request is\<close>

text \<open>
  A request's sender lies unread in the channel of a room's phase 1, is held by the awaited negotiation
  or by the computation that was started for it.
\<close>

fun unread :: "(('agent, 'done) local_rpc_msg tx_state \<times> bool) option \<Rightarrow> 'done list" where
  "unread (Some (TxSent r, True)) = [rpc_on_done r]"
| "unread _ = []"

fun negotiated :: "('pid, 'agent, 'done) awaiting \<Rightarrow> 'done list" where
  "negotiated (AwaitNegotiation room n ng) =
     (case ng_state ng of None \<Rightarrow> [] | Some st \<Rightarrow> [ns_on_done st])"
| "negotiated _ = []"

definition listed :: "'a option \<Rightarrow> 'a list" where
  "listed x = (case x of None \<Rightarrow> [] | Some a \<Rightarrow> [a])"

definition rooms_held ::
  "(chan \<Rightarrow> (('agent, 'done) local_rpc_msg tx_state \<times> bool) option) \<Rightarrow> 'pid phase1_channel list \<Rightarrow>
   'done list" where
  "rooms_held v cs = concat (map (\<lambda>ch. unread (v (p1_on_local_rpc ch))) cs)"

definition rt_held ::
  "('o, ('agent, 'done) local_rpc_msg) oneshot_view \<Rightarrow> ('pid, 'agent, 'done, 'o) runtime \<Rightarrow> 'done list" where
  "rt_held view s =
     rooms_held (view (rt_oneshots s)) (rt_rooms_coordination s) @ negotiated (rt_awaiting s)"

definition daemon_held ::
  "('o, ('agent, 'done) local_rpc_msg) oneshot_view \<Rightarrow> ('pid, 'agent, 'done, 'o) daemon \<Rightarrow> 'done list" where
  "daemon_held view d =
     rt_held view (dm_runtime d) @ concat (map (\<lambda>s. listed (requester s)) (dm_sessions d))"

fun rt_asked :: "('pid, 'agent, 'done) rt_event \<Rightarrow> 'done list" where
  "rt_asked (EvRequest room n proto args on_done) = [on_done]"
| "rt_asked _ = []"

fun asked :: "('pid, 'agent, 'done) daemon_event \<Rightarrow> 'done list" where
  "asked (DmLoop ev) = rt_asked ev"
| "asked _ = []"

fun rt_settled :: "('pid, 'done) rt_effect \<Rightarrow> 'done list" where
  "rt_settled (RtDone tx res) = [tx]"
| "rt_settled (RtDropped tx) = [tx]"
| "rt_settled _ = []"

fun settled :: "('pid, 'done) daemon_effect \<Rightarrow> 'done list" where
  "settled (DmRuntime e) = rt_settled e"
| "settled (DmSession e) = map fst (answers [e])"

section \<open>The loop keeps the requests\<close>

lemma rooms_held_cong:
  assumes "\<forall>ch \<in> set cs. unread (v (p1_on_local_rpc ch)) = unread (v' (p1_on_local_rpc ch))"
  shows "rooms_held v cs = rooms_held v' cs"
  using assms by (induction cs) (simp_all add: rooms_held_def)

lemma rooms_held_append [simp]: "rooms_held v (cs @ cs') = rooms_held v cs @ rooms_held v cs'"
  by (simp add: rooms_held_def)

lemma rooms_held_single [simp]: "rooms_held v [ch] = unread (v (p1_on_local_rpc ch))"
  by (simp add: rooms_held_def)

lemma rooms_held_remove:
  assumes "k < length cs"
  shows "mset (rooms_held v cs) = mset (unread (v (p1_on_local_rpc (cs ! k)))) + mset (rooms_held v (remove_nth k cs))"
proof -
  have "cs = take k cs @ cs ! k # drop (Suc k) cs" using assms by (rule id_take_nth_drop)
  then have "rooms_held v cs = rooms_held v (take k cs @ [cs ! k] @ drop (Suc k) cs)" by simp
  then show ?thesis unfolding remove_nth_def rooms_held_append rooms_held_single by simp
qed

text \<open>A request that is sent to a room is there once.\<close>

lemma rooms_held_sent:
  assumes "distinct (map p1_on_local_rpc cs)" and "ch \<in> set cs"
    and "unread (v (p1_on_local_rpc ch)) = []"
  shows "mset (rooms_held (v(p1_on_local_rpc ch \<mapsto> (TxSent r, True))) cs) =
    add_mset (rpc_on_done r) (mset (rooms_held v cs))"
proof -
  from assms(2) obtain k where k: "k < length cs" "cs ! k = ch" by (metis in_set_conv_nth)
  let ?v = "v(p1_on_local_rpc ch \<mapsto> (TxSent r, True))"
  have "rooms_held ?v (remove_nth k cs) = rooms_held v (remove_nth k cs)"
    using remove_nth_keys(4) [OF assms(1) k(1)] k(2) by (intro rooms_held_cong) auto
  then show ?thesis
    using rooms_held_remove [OF k(1), of ?v] rooms_held_remove [OF k(1), of v] assms(3) k(2) by simp
qed

lemma held_request:
  assumes ok: "oneshot_ok (env_oneshot E) view" and inv: "rpc_inv view s"
    and step: "on_computation_request E room n proto args on_done s = (s', eff)"
  shows "add_mset on_done (mset (rt_held view s)) =
    mset (rt_held view s') + mset (concat (map rt_settled eff))"
proof (cases "rt_rooms_rpc s room")
  case None
  with step show ?thesis by (auto simp: on_computation_request_def)
next
  case (Some h)
  note room = Some and I = rpc_invD [OF inv]
  let ?alive = "h \<in> p1_on_local_rpc ` set (rt_rooms_coordination s)"
  have v: "view (rt_oneshots s) h = Some (TxOpen, ?alive)" by (rule I(3) [OF Some])
  note canceled = oneshot_okD(7) [OF ok v]
  show ?thesis
  proof (cases "env_factory E proto")
    case None
    with room step show ?thesis by (auto simp: on_computation_request_def)
  next
    case (Some agent)
    let ?r = "\<lparr>rpc_n = n, rpc_args = args, rpc_agent = agent, rpc_on_done = on_done\<rparr>"
    show ?thesis
    proof (cases ?alive)
      case True
      then obtain ch where ch: "ch \<in> set (rt_rooms_coordination s)" "h = p1_on_local_rpc ch" by blast
      have "s' = s\<lparr>rt_rooms_rpc := (rt_rooms_rpc s)(room := None),
          rt_oneshots := os_send (env_oneshot E) h ?r (rt_oneshots s)\<rparr>" "eff = []"
        using step Some room canceled True by (simp_all add: on_computation_request_def Let_def)
      then show ?thesis
        using rooms_held_sent [OF I(1) ch(1), of "view (rt_oneshots s)" ?r] v oneshot_okD(3) [OF ok v, of ?r] True
        by (simp add: rt_held_def ch(2))
    next
      case False
      then have s': "s' = s\<lparr>rt_rooms_rpc := (rt_rooms_rpc s)(room := None),
          rt_oneshots := os_drop_tx (env_oneshot E) h (rt_oneshots s)\<rparr>"
          "eff = [RtDone on_done (Inl ''protocol is busy'')]"
        using step Some room canceled by (auto simp add: on_computation_request_def Let_def)
      have "rooms_held (view (os_drop_tx (env_oneshot E) h (rt_oneshots s))) (rt_rooms_coordination s) =
          rooms_held (view (rt_oneshots s)) (rt_rooms_coordination s)"
        using False by (intro rooms_held_cong) (auto simp: oneshot_okD(4) [OF ok v])
      with s' show ?thesis by (simp add: rt_held_def)
    qed
  qed
qed

text \<open>A room that goes back to phase 1 has no request.\<close>

lemma unread_reopen:
  assumes ok: "oneshot_ok (env_oneshot E) view" and inv: "rpc_inv view s"
    and ch: "os_channel (env_oneshot E) (rt_oneshots s) = (h, os)" "p1_on_local_rpc ch = h"
    and s': "rt_rooms_rpc s' = rt_rooms_rpc s" "rt_oneshots s' = os"
  shows "unread (view (rt_oneshots (rpc_insert E r h s')) c) = unread (view (rt_oneshots s) c)"
proof -
  note fresh = rpc_inv_fresh [OF ok inv ch]
  have none: "view (rt_oneshots s) h = None" using oneshot_okD(1) [OF ok, of "rt_oneshots s"] ch by simp
  show ?thesis
  proof (cases "rt_rooms_rpc s r")
    case None
    then show ?thesis using none by (simp add: rpc_insert_def s' fresh(3))
  next
    case (Some old)
    note v = rpc_invD(3) [OF inv Some]
    have "view os old = Some (TxOpen, old \<in> p1_on_local_rpc ` set (rt_rooms_coordination s))"
      using v fresh(2,3) Some by auto
    from oneshot_okD(4) [OF ok this] show ?thesis
      using none v Some by (simp add: rpc_insert_def s' fresh(3))
  qed
qed

lemma held_reopen:
  assumes "oneshot_ok (env_oneshot E) view" and "rpc_inv view s"
    and ch: "os_channel (env_oneshot E) (rt_oneshots s) = (p1_on_local_rpc ch, os)"
    and s': "rt_rooms_rpc s' = rt_rooms_rpc s" "rt_oneshots s' = os"
      "rt_rooms_coordination s' = rt_rooms_coordination s @ [ch]" "rt_awaiting s' = Selecting"
  shows "rt_held view (rpc_insert E r (p1_on_local_rpc ch) s') =
    rooms_held (view (rt_oneshots s)) (rt_rooms_coordination s)"
proof -
  note same = unread_reopen [OF assms(1-3) refl s'(1,2), of r]
  have "unread (view (rt_oneshots s) (p1_on_local_rpc ch)) = []"
    using oneshot_okD(1) [OF assms(1), of "rt_oneshots s"] ch by simp
  then show ?thesis
    using rooms_held_cong [of "rt_rooms_coordination s" "view (rt_oneshots (rpc_insert E r (p1_on_local_rpc ch) s'))"
        "view (rt_oneshots s)"] same
    by (simp add: rt_held_def s')
qed

lemma held_modify:
  assumes "oneshot_ok (env_oneshot E) view" and "rpc_inv view s"
    and ch: "os_channel (env_oneshot E) (rt_oneshots s) = (p1_on_local_rpc ch, os)"
    and s': "rt_rooms_rpc s' = rt_rooms_rpc s" "rt_oneshots s' = os"
      "rt_rooms_coordination s' = rt_rooms_coordination s @ [ch]" "rt_awaiting s' = Selecting"
  shows "rt_held view (rpc_and_modify E r (p1_on_local_rpc ch) s') =
    rooms_held (view (rt_oneshots s)) (rt_rooms_coordination s)"
proof (cases "rt_rooms_rpc s r")
  case (Some old)
  have "rpc_and_modify E r (p1_on_local_rpc ch) s' = rpc_insert E r (p1_on_local_rpc ch) s'"
    by (simp add: rpc_and_modify_def rpc_insert_def s' Some)
  with held_reopen [OF assms] show ?thesis by simp
next
  case None
  let ?h = "p1_on_local_rpc ch"
  note fresh = rpc_inv_fresh [OF assms(1,2) ch refl]
  have "view os ?h = Some (TxOpen, True)" by (simp add: fresh(3))
  note drop = oneshot_okD(4) [OF assms(1) this]
  have "view (rt_oneshots s) ?h = None" using oneshot_okD(1) [OF assms(1), of "rt_oneshots s"] ch by simp
  then have "rooms_held (view (os_drop_tx (env_oneshot E) ?h os)) (rt_rooms_coordination s) =
      rooms_held (view (rt_oneshots s)) (rt_rooms_coordination s)"
    by (intro rooms_held_cong) (simp add: drop fresh(3))
  then show ?thesis by (simp add: rt_held_def rpc_and_modify_def s' None drop)
qed

text \<open>A phase-1 future that is polled.\<close>

lemma held_phase1:
  assumes ok: "oneshot_ok (env_oneshot E) view" and inv: "rpc_inv view s"
    and step: "on_phase1 E k incoming s = Inr (s', eff)" and k: "k < length (rt_rooms_coordination s)"
    and aw: "rt_awaiting s = Selecting"
  shows "mset (rt_held view s) = mset (rt_held view s') + mset (concat (map rt_settled eff))"
proof -
  note I = rpc_invD [OF inv]
  let ?ch = "rt_rooms_coordination s ! k"
  let ?h = "p1_on_local_rpc ?ch"
  let ?rest = "remove_nth k (rt_rooms_coordination s)"
  have mem: "?ch \<in> set (rt_rooms_coordination s)" using k by simp
  from I(2) [OF this] obtain tx where v: "view (rt_oneshots s) ?h = Some (tx, True)" by blast
  have split: "mset (rt_held view s) =
      mset (unread (Some (tx, True))) + mset (rooms_held (view (rt_oneshots s)) ?rest)"
    using rooms_held_remove [OF k, of "view (rt_oneshots s)"] by (simp add: rt_held_def aw v)
  obtain rpc os where rpc: "(if incoming = None
      then os_try_recv (env_oneshot E) ?h (rt_oneshots s)
      else (Inr None, rt_oneshots s)) = (rpc, os)" by (metis surj_pair)
  show ?thesis
  proof (cases "phase1_poll incoming rpc ?ch")
    case (Panicked p)
    with step rpc show ?thesis by (simp add: on_phase1_def Let_def)
  next
    case (Pending ch')
    then have "ch' = ?ch" "rpc = Inr None"
      by (auto simp: phase1_poll_def
          split: option.splits message_type.splits sum.splits canceled.splits)
    with step rpc Pending have s': "s' = s\<lparr>rt_oneshots := os\<rparr>" "eff = []"
      by (simp_all add: on_phase1_def Let_def)
    have "view os = view (rt_oneshots s)"
      using rpc v oneshot_okD(8,9) [OF ok v] \<open>rpc = Inr None\<close>
      by (cases tx) (auto split: if_splits)
    then show ?thesis by (simp add: s' rt_held_def)
  next
    case (Ready m)
    obtain unrd os' where drop: "os_drop_rx (env_oneshot E) ?h os = (unrd, os')" by force
    let ?s = "s\<lparr>rt_rooms_coordination := ?rest, rt_oneshots := os'\<rparr>"
    from Ready step rpc drop obtain eff' where msg: "on_phase1_msg E m ?s = Inr (s', eff')"
      and eff: "eff = (case unrd of None \<Rightarrow> [] | Some r \<Rightarrow> [RtDropped (rpc_on_done r)]) @ eff'"
      by (auto simp: on_phase1_def Let_def and_then_eq_Inr)
    have keep: "rooms_held (view os') ?rest = rooms_held (view (rt_oneshots s)) ?rest"
      if "view os' = (view (rt_oneshots s))(?h \<mapsto> x)" for x
      using remove_nth_keys(4) [OF I(1) k] by (intro rooms_held_cong) (auto simp: that)
    from Ready show ?thesis
    proof (cases rule: phase1_ReadyE)
      case (remote rx im)
      then have os: "os = rt_oneshots s" using rpc by simp
      have unrd: "unrd = tx_msg tx" and v': "view os' = (view (rt_oneshots s))(?h \<mapsto> (tx_taken tx, False))"
        using oneshot_okD(5,6) [OF ok v] drop by (simp_all add: os)
      have "rt_held view s' = rooms_held (view os') ?rest \<and> concat (map rt_settled eff') = []"
      proof (cases "env_factory E (protocol_id (im_context im))")
        case None
        obtain h os2 where os2: "os_channel (env_oneshot E) os' = (h, os2)" by force
        let ?new = "\<lparr>p1_id = p1_id ?ch, p1_rx = Some rx, p1_on_local_rpc = h, p1_service = p1_service ?ch\<rparr>"
        have "s' = rpc_insert E (p1_id ?ch) h (push_phase1 ?new (?s\<lparr>rt_oneshots := os2\<rparr>))" "eff' = []"
          using msg remote None os2 by (simp_all add: on_phase1_msg_def phase2_abort_def phase1_new_def)
        moreover have "rpc_inv view ?s"
          by (rule rpc_inv_drop [OF inv k v']) (simp_all add: v)
        ultimately show ?thesis
          using held_reopen [of E view ?s ?new os2 "push_phase1 ?new (?s\<lparr>rt_oneshots := os2\<rparr>)" "p1_id ?ch"]
            ok os2 aw by simp
      next
        case (Some agent)
        with msg remote show ?thesis by (auto simp: on_phase1_msg_def rt_held_def)
      qed
      with keep [OF v'] split show ?thesis by (cases tx) (simp_all add: eff unrd)
    next
      case (local rx r)
      then have "tx = TxSent r" and vos: "view os ?h = Some (TxGone, True)"
        "view os = (view (rt_oneshots s))(?h \<mapsto> (TxGone, True))"
        using rpc v oneshot_okD(8,9) [OF ok v] by (cases tx; simp)+
      have unrd: "unrd = None" using oneshot_okD(5) [OF ok vos(1)] drop by simp
      have v': "view os' = (view (rt_oneshots s))(?h \<mapsto> (TxGone, False))"
        using oneshot_okD(6) [OF ok vos(1)] drop by (simp only: vos(2) fun_upd_upd snd_conv tx_taken.simps)
      have "rt_held view s' = rooms_held (view os') ?rest @ [rpc_on_done r]" "eff = []"
        using msg local by (auto simp: on_phase1_msg_def rt_held_def negotiation_new_def eff unrd)
      with keep [OF v'] split show ?thesis by (simp add: \<open>tx = TxSent r\<close>)
    qed
  qed
qed

section \<open>One event of the loop\<close>

text \<open>The requesters of the computations that an event has started.\<close>

definition started ::
  "('pid, 'agent, 'done, 'o) runtime \<Rightarrow> ('pid, 'agent, 'done, 'o) runtime \<Rightarrow> ('pid, 'done) running list" where
  "started s s' = drop (length (rt_protocol_executions s)) (rt_protocol_executions s')"

definition begun_held :: "('pid, 'done) running list \<Rightarrow> 'done list" where
  "begun_held rs = concat (map (\<lambda>ru. listed (requester (begin_session ru))) rs)"

definition sessions_begin :: "('pid, 'done) running list \<Rightarrow> bool" where
  "sessions_begin rs \<longleftrightarrow> (\<forall>ru \<in> set rs. session_live (begin_session ru))"

lemma started_one:
  assumes "start_execution E n room agent parties rx proxy on_done s = Inr s'"
  shows "rt_held view s' = rooms_held (view (rt_oneshots s)) (rt_rooms_coordination s)"
    and "begun_held (started s s') = listed on_done" and "sessions_begin (started s s')"
    and "length (rt_protocol_executions s') = Suc (length (rt_protocol_executions s))"
proof -
  from assms obtain ex where ex: "execution_new (env_checks E) room (env_agent E) agent
      (rt_network_service s) parties (rt_cacher s) on_done = Inr ex"
    and s': "s' = s\<lparr>rt_network_proxies := rt_network_proxies s @ [proxy],
      rt_protocol_executions := rt_protocol_executions s @
        [\<lparr>ru_rx = rx, ru_echo = wrap_start n, ru_exec = ex\<rparr>], rt_awaiting := Selecting\<rparr>"
    by (rule start_execution_Inr)
  let ?ru = "\<lparr>ru_rx = rx, ru_echo = wrap_start n, ru_exec = ex\<rparr>"
  have "last (rt_protocol_executions s') = ?ru" by (simp add: s')
  moreover have "begin_session ?ru = session_new n ?ru"
    by (simp add: begin_session_def wrap_start_def echo_gadget_new_def)
  ultimately have "session_live (begin_session ?ru)" "requester (begin_session ?ru) = on_done"
    using started_session(1,2) [OF assms, of "session_new n ?ru"] by simp_all
  then show "rt_held view s' = rooms_held (view (rt_oneshots s)) (rt_rooms_coordination s)"
    and "begun_held (started s s') = listed on_done" and "sessions_begin (started s s')"
    and "length (rt_protocol_executions s') = Suc (length (rt_protocol_executions s))"
    by (simp_all add: started_def s' rt_held_def begun_held_def sessions_begin_def)
qed

text \<open>What an event does to the requests, in one statement for all handlers.\<close>

definition loop_keeps ::
  "('o, ('agent, 'done) local_rpc_msg) oneshot_view \<Rightarrow> 'done list \<Rightarrow>
   ('pid, 'agent, 'done, 'o) runtime \<Rightarrow> ('pid, 'agent, 'done, 'o) runtime \<Rightarrow>
   ('pid, 'done) rt_effect list \<Rightarrow> bool" where
  "loop_keeps view made s s' eff \<longleftrightarrow>
     mset (rt_held view s) + mset made =
       mset (rt_held view s') + mset (concat (map rt_settled eff)) + mset (begun_held (started s s')) \<and>
     sessions_begin (started s s') \<and> length (rt_protocol_executions s) \<le> length (rt_protocol_executions s')"

lemma loop_keepsI:
  assumes "rt_protocol_executions s' = rt_protocol_executions s"
    and "mset (rt_held view s) + mset made = mset (rt_held view s') + mset (concat (map rt_settled eff))"
  shows "loop_keeps view made s s' eff"
  using assms by (simp add: loop_keeps_def started_def begun_held_def sessions_begin_def)

lemma settled_net [simp]: "concat (map rt_settled (map RtNet msgs)) = []"
  by simp

lemma on_phase1_executions:
  assumes "on_phase1 E k incoming s = Inr (s', eff)"
  shows "rt_protocol_executions s' = rt_protocol_executions s"
  using assms
  by (auto simp: on_phase1_def on_phase1_msg_def and_then_eq_Inr Let_def
      split: prod.splits poll.splits phase1_msg.splits option.splits if_splits)

lemma keeps_phase2:
  assumes ok: "oneshot_ok (env_oneshot E) view" and inv: "rpc_inv view s"
    and step: "on_phase2 E c incoming timer agent ch s = Inr (s', eff)"
    and aw: "rt_awaiting s = AwaitPhase2 agent' ch'"
  shows "loop_keeps view [] s s' eff"
proof -
  obtain h os where os: "os_channel (env_oneshot E) (rt_oneshots s) = (h, os)" by force
  show ?thesis
  proof (cases "phase2_poll (env_pid E) (env_varint E) h c incoming timer ch")
    case (Panicked p)
    with step os show ?thesis by (simp add: on_phase2_def)
  next
    case (Pending ch2)
    with step os show ?thesis by (auto simp: on_phase2_def rt_held_def aw intro!: loop_keepsI)
  next
    case (Ready m)
    then show ?thesis
    proof (cases rule: phase2_ReadyE)
      case (start rx msg sm)
      with step os Ready obtain n parties proxy where
        "start_execution E n (p2_id ch) agent parties c proxy None s = Inr s'" "eff = []"
        by (auto simp: on_phase2_def and_then_eq_Inr)
      from started_one [OF this(1)] this(2) show ?thesis
        by (simp add: loop_keeps_def rt_held_def [of view s] aw listed_def)
    next
      case (abort rx)
      let ?new = "\<lparr>p1_id = p2_id ch, p1_rx = Some rx, p1_on_local_rpc = h, p1_service = p2_service ch\<rparr>"
      let ?s = "push_phase1 ?new (s\<lparr>rt_oneshots := os, rt_awaiting := Selecting\<rparr>)"
      have s': "s' = rpc_and_modify E (p2_id ch) (p1_on_local_rpc ?new) ?s" "eff = []"
        using step os Ready abort
        by (auto simp add: on_phase2_def push_phase1_def rpc_and_modify_def split: option.splits)
      have "rt_held view s' = rooms_held (view (rt_oneshots s)) (rt_rooms_coordination s)"
        unfolding s' by (rule held_modify [OF ok inv]) (simp_all add: os)
      then show ?thesis
        using s' by (intro loop_keepsI) (simp_all add: rt_held_def [of view s] aw)
    qed
  qed
qed

lemma keeps_negotiation:
  assumes ok: "oneshot_ok (env_oneshot E) view" and inv: "rpc_inv view s"
    and step: "on_negotiation E c q reply timer room n ng s = Inr (s', eff)"
    and aw: "rt_awaiting s = AwaitNegotiation room n ng"
    and ninv: "neg_inv room rx n args service agent on_done R ng"
  shows "loop_keeps view [] s s' eff"
proof -
  obtain h os where os: "os_channel (env_oneshot E) (rt_oneshots s) = (h, os)" by force
  have held: "rt_held view s = rooms_held (view (rt_oneshots s)) (rt_rooms_coordination s) @ [on_done]"
    using ninv by (auto simp: rt_held_def aw neg_inv_def)
  from ninv show ?thesis
  proof (rule neg_inv_poll [where P = "env_pid E" and V = "env_varint E" and A = "env_agent E"
        and checks = "env_checks E" and h = h and c = c and q = q and reply = reply
        and timer = timer], goal_cases)
    case (1 peers b)
    with step os obtain parties proxy where
      start: "start_execution E (unat n) room agent parties c proxy (Some on_done) s = Inr s'"
      and eff: "concat (map rt_settled eff) = []"
      by (auto simp: on_negotiation_def and_then_eq_Inr)
    from started_one [OF start] show ?case
      by (simp add: loop_keeps_def held listed_def eff del: concat_eq_Nil_conv)
  next
    case (2 msgs)
    let ?new = "\<lparr>p1_id = room, p1_rx = Some rx, p1_on_local_rpc = h, p1_service = service\<rparr>"
    let ?s = "push_phase1 ?new (s\<lparr>rt_oneshots := os, rt_awaiting := Selecting\<rparr>)"
    have s': "s' = rpc_insert E room (p1_on_local_rpc ?new) ?s" using step os 2 by (simp add: on_negotiation_def)
    have "mset (concat (map rt_settled eff)) = {#on_done#}"
      using step os 2 ninv by (auto simp: on_negotiation_def neg_inv_def)
    moreover have "rt_held view s' = rooms_held (view (rt_oneshots s)) (rt_rooms_coordination s)"
      unfolding s' by (rule held_reopen [OF ok inv]) (simp_all add: os)
    ultimately show ?case using s' by (intro loop_keepsI) (simp_all add: held)
  next
    case (3 ng' msgs)
    then have "negotiated (AwaitNegotiation room n ng') = [on_done]" by (auto simp: neg_inv_def)
    moreover have "s' = s\<lparr>rt_awaiting := AwaitNegotiation room n ng'\<rparr>" "eff = map RtNet msgs"
      using step os 3 by (auto simp: on_negotiation_def)
    ultimately show ?case
      using held by (intro loop_keepsI) (simp_all add: rt_held_def comp_def del: negotiated.simps)
  next
    case 4
    with step os show ?case by (simp add: on_negotiation_def)
  qed
qed

lemma keeps_proxy:
  assumes ok: "oneshot_ok (env_oneshot E) view" and inv: "rpc_inv view s"
    and step: "on_proxy E k incoming s = Inr (s', eff)" and aw: "rt_awaiting s = Selecting"
  shows "loop_keeps view [] s s' eff"
proof -
  let ?p = "rt_network_proxies s ! k"
  obtain h os where os: "os_channel (env_oneshot E) (rt_oneshots s) = (h, os)" by force
  obtain rx where rx: "rp_rx ?p = Some rx"
    using step os by (cases "rp_rx ?p") (auto simp: on_proxy_def receiver_proxy_poll_def Let_def)
  show ?thesis
  proof (cases "proxy_closed s ?p")
    case True
    let ?new = "\<lparr>p1_id = rp_id ?p, p1_rx = Some rx, p1_on_local_rpc = h, p1_service = rp_service ?p\<rparr>"
    let ?s = "push_phase1 ?new (s\<lparr>rt_network_proxies := remove_nth k (rt_network_proxies s), rt_oneshots := os\<rparr>)"
    have s': "s' = rpc_insert E (rp_id ?p) (p1_on_local_rpc ?new) ?s" "eff = []"
      using step True os rx by (simp_all add: on_proxy_def receiver_proxy_poll_def phase1_new_def Let_def)
    have "rt_held view s' = rooms_held (view (rt_oneshots s)) (rt_rooms_coordination s)"
      unfolding s' by (rule held_reopen [OF ok inv]) (simp_all add: os aw)
    with s' show ?thesis by (intro loop_keepsI) (simp_all add: rt_held_def [of view s] aw)
  next
    case False
    then show ?thesis
      using step os rx
      by (auto simp: on_proxy_def receiver_proxy_poll_def Let_def rt_held_def split: option.splits
          intro!: loop_keepsI)
  qed
qed

lemma loop_step_keeps:
  assumes ok: "oneshot_ok (env_oneshot E) view" and inv: "rpc_inv view s"
    and aw: "awaiting_ok (rt_awaiting s)" and step: "runtime_step E ev s = Some (Inr (s', eff))"
    and loop: "\<nexists>k res. ev = EvExecuted k res"
  shows "loop_keeps view (rt_asked ev) s s' eff"
proof (cases "rt_awaiting s")
  case Selecting
  show ?thesis
  proof (cases ev)
    case (EvRequest room n proto args on_done)
    then have req: "on_computation_request E room n proto args on_done s = (s', eff)"
      using step Selecting by (simp add: runtime_step_def)
    have "rt_protocol_executions s' = rt_protocol_executions s"
      using req by (auto simp: on_computation_request_def Let_def split: option.splits if_splits)
    then show ?thesis
      using held_request [OF ok inv req] EvRequest by (intro loop_keepsI) simp_all
  next
    case (EvPhase1 k incoming)
    then have p1: "on_phase1 E k incoming s = Inr (s', eff)" "k < length (rt_rooms_coordination s)"
      using step Selecting by (auto simp: runtime_step_def split: if_splits)
    from held_phase1 [OF ok inv this Selecting] on_phase1_executions [OF p1(1)] EvPhase1
    show ?thesis by (intro loop_keepsI) simp_all
  next
    case (EvProxy k incoming)
    then have "on_proxy E k incoming s = Inr (s', eff)"
      using step Selecting by (auto simp: runtime_step_def split: if_splits)
    from keeps_proxy [OF ok inv this Selecting] EvProxy show ?thesis by simp
  qed (use step Selecting loop in \<open>simp_all add: runtime_step_def\<close>)
next
  case (AwaitPhase2 agent ch)
  then obtain c incoming timer where ev: "ev = EvPhase2 c incoming timer"
    and p2: "on_phase2 E c incoming timer agent ch s = Inr (s', eff)"
    using step by (auto simp: runtime_step_def split: rt_event.splits)
  from keeps_phase2 [OF ok inv p2 AwaitPhase2] ev show ?thesis by simp
next
  case (AwaitNegotiation room n ng)
  then obtain c q reply timer where ev: "ev = EvNegotiation c q reply timer"
    and neg: "on_negotiation E c q reply timer room n ng s = Inr (s', eff)"
    using step by (auto simp: runtime_step_def split: rt_event.splits)
  from AwaitNegotiation aw obtain rx args service agent on_done R
    where "neg_inv room rx n args service agent on_done R ng" by auto
  from keeps_negotiation [OF ok inv neg AwaitNegotiation this] ev show ?thesis by simp
qed


section \<open>A computation's step\<close>

text \<open>
  While a session runs it keeps its requester's sender, if there is one; when it ends, the sender has been
  used or dropped.
\<close>

lemma session_step_none:
  assumes "session_step P H checks open_tx ev (s, fs) = Some (s', fs', eff)" and "session_live s"
    and "requester s = None"
  shows "answers eff = [] \<and> (echo_running s' \<longrightarrow> session_live s' \<and> requester s' = None)"
  using assms(1,2)
proof (cases rule: session_stepE)
  case (pending inp xeff)
  obtain st where st: "se_exec s = \<lparr>pe_state = Some st\<rparr>" using assms(2) by (auto simp: session_live_iff)
  have "answers (map SeExec xeff) = []"
    using exec_poll_done(2) [OF pending(2) [unfolded st]] by (intro answers_no_done) simp
  with pending assms(2,3) show ?thesis by (auto simp: session_live_iff requester_def)
next
  case (returned inp xeff out)
  obtain st where st: "se_exec s = \<lparr>pe_state = Some st\<rparr>" using assms(2) by (auto simp: session_live_iff)
  then have "ex_on_done st = None" using assms(3) by (simp add: requester_def)
  then have "answers (map SeExec xeff) = []"
    using exec_poll_done(2) [OF returned(2) [unfolded st]] by (intro answers_no_done) simp
  with returned show ?thesis by simp
next
  case (panicked inp xeff p)
  obtain st where st: "se_exec s = \<lparr>pe_state = Some st\<rparr>" using assms(2) by (auto simp: session_live_iff)
  have "answers (map SeExec xeff) = []"
    using exec_poll_done(2) [OF panicked(2) [unfolded st]] by (intro answers_no_done) simp
  with panicked assms(3) show ?thesis by (simp add: dropped_def)
next
  case (receive m ms g w sent)
  from receive(6) show ?thesis
    using assms(2,3)
    by (cases rule: session_wrapped_cases) (auto simp: session_live_def dropped_def split: wrapped.splits)
next
  case (reply r g rx h hashes w)
  from reply(5) show ?thesis
    using assms(2,3)
    by (cases rule: session_wrapped_cases) (auto simp: session_live_def dropped_def split: wrapped.splits)
qed

lemma session_step_keeps:
  assumes "session_step P H checks open_tx ev (s, fs) = Some (s', fs', eff)" and "session_live s"
  shows "if echo_running s' then session_live s' \<and> requester s' = requester s \<and> answers eff = []
    else map fst (answers eff) = listed (requester s)"
proof (cases "requester s")
  case None
  with session_step_none [OF assms] show ?thesis by (simp add: listed_def)
next
  case (Some tx)
  with session_step_answers [OF assms Some] show ?thesis
    by (auto simp: answered_for_def listed_def split: wrapped.splits sum.splits)
qed

section \<open>The daemon keeps the requests\<close>

definition daemon_ok ::
  "('o, ('agent, 'done) local_rpc_msg) oneshot_view \<Rightarrow> ('pid, 'agent, 'done, 'o) daemon \<Rightarrow> bool" where
  "daemon_ok view d \<longleftrightarrow>
     rpc_inv view (dm_runtime d) \<and> awaiting_ok (rt_awaiting (dm_runtime d)) \<and>
     length (dm_sessions d) = length (rt_protocol_executions (dm_runtime d)) \<and>
     (\<forall>s \<in> set (dm_sessions d). session_live s)"

lemma settled_runtime [simp]: "concat (map (settled \<circ> DmRuntime) eff) = concat (map rt_settled eff)"
  by (simp add: comp_def)

lemma settled_session [simp]: "concat (map (settled \<circ> DmSession) eff) = map fst (answers eff)"
proof (induction eff)
  case (Cons e eff)
  have "answers (e # eff) = answers [e] @ answers eff" using answers_append [of "[e]" eff] by simp
  with Cons show ?case by simp
qed simp

lemma map_sum_Inr_iff: "map_sum id f z = Inr y \<longleftrightarrow> (\<exists>x. z = Inr x \<and> y = f x)"
  by (cases z) auto

lemma sending_eq [simp]:
  "sending d msgs x = Inr y \<longleftrightarrow> (dm_worker d \<or> msgs = []) \<and> y = x"
  "sending d msgs x = Inl p \<longleftrightarrow> \<not> dm_worker d \<and> msgs \<noteq> [] \<and> p = ExpectFailed"
  by (auto simp: sending_def to_worker_def)

lemma sessions_remove:
  assumes "k < length ss"
  shows "mset (concat (map f ss)) = mset (f (ss ! k)) + mset (concat (map f (remove_nth k ss)))"
proof -
  have "ss = take k ss @ ss ! k # drop (Suc k) ss" using assms by (rule id_take_nth_drop)
  then have "concat (map f ss) = concat (map f (take k ss @ ss ! k # drop (Suc k) ss))" by simp
  then show ?thesis by (simp add: remove_nth_def)
qed

lemma length_remove_nth: "k < length xs \<Longrightarrow> length (remove_nth k xs) = length xs - 1"
  by (simp add: remove_nth_def)

lemma set_remove_nth: "set (remove_nth k xs) \<subseteq> set xs"
  by (auto simp: remove_nth_def dest: in_set_takeD in_set_dropD)

lemma daemon_loop_keeps:
  assumes ok: "oneshot_ok (env_oneshot E) view" and inv: "daemon_ok view d"
    and step: "daemon_loop E ev d = Some (Inr (d', eff))"
  shows "daemon_ok view d' \<and>
    mset (daemon_held view d) + mset (rt_asked ev) = mset (daemon_held view d') + mset (concat (map settled eff))"
proof -
  have loop: "\<nexists>k res. ev = EvExecuted k res" using step by (auto simp: daemon_loop_def)
  with step obtain rt reff where rt: "runtime_step E ev (dm_runtime d) = Some (Inr (rt, reff))"
    and d': "d' = d\<lparr>dm_runtime := rt, dm_sessions := dm_sessions d @ map begin_session (started (dm_runtime d) rt)\<rparr>"
    and eff: "eff = map DmRuntime reff"
    by (cases ev) (auto simp: daemon_loop_def started_def and_then_eq_Inr)
  have I: "rpc_inv view (dm_runtime d)" "awaiting_ok (rt_awaiting (dm_runtime d))" using inv by (simp_all add: daemon_ok_def)
  have keeps: "loop_keeps view (rt_asked ev) (dm_runtime d) rt reff"
    by (rule loop_step_keeps [OF ok I rt loop])
  have "daemon_ok view d'"
    using rpc_inv_step [OF ok I rt] runtime_step_owners [OF rt I(2)] inv keeps
    by (auto simp: daemon_ok_def d' loop_keeps_def sessions_begin_def started_def)
  moreover have "concat (map ((\<lambda>s. listed (requester s)) \<circ> begin_session) (started (dm_runtime d) rt)) =
      begun_held (started (dm_runtime d) rt)" by (simp add: begun_held_def comp_def)
  ultimately show ?thesis
    using keeps by (simp add: daemon_held_def d' eff loop_keeps_def)
qed

lemma daemon_computation_keeps:
  assumes inv: "daemon_ok view d" and step: "daemon_computation E H open_tx k ev d = Some (Inr (d', eff))"
  shows "daemon_ok view d' \<and> mset (daemon_held view d) = mset (daemon_held view d') + mset (concat (map settled eff))"
proof -
  let ?s = "dm_sessions d ! k"
  from step have aw: "rt_awaiting (dm_runtime d) = Selecting" and k: "k < length (dm_sessions d)"
    by (auto simp: daemon_computation_def split: awaiting.splits if_splits)
  with step obtain s fs seff where s:
    "session_step (env_pid E) H (env_checks E) open_tx ev (?s, dm_files d) = Some (s, fs, seff)"
    by (auto simp: daemon_computation_def split: option.splits)
  have live: "session_live ?s" using inv k by (simp add: daemon_ok_def)
  note keeps = session_step_keeps [OF s live]
  note held = sessions_remove [of k _ "\<lambda>s. listed (requester s)"]
  show ?thesis
  proof (cases "se_echo s")
    case (Running g stage)
    with step aw k s have d': "d' = d\<lparr>dm_sessions := (dm_sessions d)[k := s], dm_files := fs\<rparr>"
      and eff: "eff = map DmSession seff" by (simp_all add: daemon_computation_def)
    have "map (\<lambda>s. listed (requester s)) ((dm_sessions d)[k := s]) = map (\<lambda>s. listed (requester s)) (dm_sessions d)"
      using keeps Running k by (simp add: map_update list_update_same_conv)
    moreover have "daemon_ok view d'"
      using inv keeps Running set_update_subset_insert [of "dm_sessions d" k s]
      by (auto simp: daemon_ok_def d')
    ultimately show ?thesis using keeps Running by (simp add: daemon_held_def d' eff)
  next
    case (Returned res)
    have kx: "k < length (rt_protocol_executions (dm_runtime d))" using inv k by (simp add: daemon_ok_def)
    let ?rt = "(dm_runtime d)\<lparr>rt_protocol_executions := remove_nth k (rt_protocol_executions (dm_runtime d))\<rparr>"
    have "runtime_step E (EvExecuted k res) (dm_runtime d) = Some (Inr (?rt, []))"
      using aw kx by (simp add: runtime_step_def)
    with step aw k s Returned have
      d': "d' = d\<lparr>dm_runtime := ?rt, dm_sessions := remove_nth k (dm_sessions d), dm_files := fs\<rparr>"
      and eff: "eff = map DmSession seff" by (simp_all add: daemon_computation_def)
    have "rpc_inv view ?rt" by (rule rpc_inv_cong [of view "dm_runtime d"]) (use inv in \<open>simp_all add: daemon_ok_def\<close>)
    then have "daemon_ok view d'"
      using inv kx k set_remove_nth [of k "dm_sessions d"] by (auto simp: daemon_ok_def d' length_remove_nth)
    moreover have "rt_held view ?rt = rt_held view (dm_runtime d)" by (simp add: rt_held_def)
    ultimately show ?thesis
      using held [OF k] keeps Returned by (simp add: daemon_held_def d' eff)
  next
    case (WrapPanicked p)
    with step aw k s show ?thesis by (simp add: daemon_computation_def)
  qed
qed


lemma daemon_step_keeps:
  assumes "oneshot_ok (env_oneshot E) view" and "daemon_ok view d"
    and "daemon_step E H open_tx ev d = Some (Inr (d', eff))"
  shows "daemon_ok view d' \<and>
    mset (daemon_held view d) + mset (asked ev) = mset (daemon_held view d') + mset (concat (map settled eff))"
proof (cases ev)
  case (DmLoop ev)
  with daemon_loop_keeps [OF assms(1,2)] assms(3) show ?thesis by simp
next
  case (DmComputation k ev)
  with daemon_computation_keeps [OF assms(2)] assms(3) show ?thesis by simp
next
  case (DmAgentPanics k p)
  with assms(3) show ?thesis by (simp split: if_splits)
next
  case DmWorkerEnds
  with assms(2,3) show ?thesis by (auto simp: daemon_ok_def daemon_held_def)
qed

lemma daemon_run_keeps:
  assumes "oneshot_ok (env_oneshot E) view" and "daemon_ok view d"
    and "daemon_run E H open_tx evs d = Some (Inr (d', eff))"
  shows "mset (daemon_held view d) + mset (concat (map asked evs)) =
    mset (daemon_held view d') + mset (concat (map settled eff))"
  using assms(2,3)
proof (induction evs arbitrary: d eff)
  case (Cons ev evs)
  then obtain d1 eff1 eff2 where
    step: "daemon_step E H open_tx ev d = Some (Inr (d1, eff1))"
    and rest: "daemon_run E H open_tx evs d1 = Some (Inr (d', eff2))" and eff: "eff = eff1 @ eff2"
    by (auto simp: map_sum_Inr_iff split: option.splits sum.splits)
  note one = daemon_step_keeps [OF assms(1) Cons.prems(1) step]
  then have "daemon_ok view d1" by simp
  from Cons.IH [OF this rest] one show ?case by (simp add: eff ac_simps) (metis (no_types) union_assoc union_commute)
qed simp

text \<open>At its start the daemon holds no request.\<close>

lemma runtime_init_holds_none:
  assumes ok: "oneshot_ok (env_oneshot E) view"
  shows "rpc_inv view s \<Longrightarrow> rt_awaiting s = Selecting \<Longrightarrow> rt_held view s = [] \<Longrightarrow>
    rt_protocol_executions s = [] \<Longrightarrow>
    rt_held view (runtime_init E rooms s) = [] \<and> rt_awaiting (runtime_init E rooms s) = Selecting \<and>
    rt_protocol_executions (runtime_init E rooms s) = []"
proof (induction rooms arbitrary: s)
  case (Cons room rooms)
  obtain r rx where room: "room = (r, rx)" by force
  obtain h os where os: "os_channel (env_oneshot E) (rt_oneshots s) = (h, os)" by force
  let ?new = "\<lparr>p1_id = r, p1_rx = Some rx, p1_on_local_rpc = h, p1_service = rt_network_service s\<rparr>"
  let ?s = "push_phase1 ?new (s\<lparr>rt_oneshots := os\<rparr>)"
  have "rpc_inv view (rpc_insert E (p1_id ?new) h ?s)"
    by (rule rpc_inv_reopen [OF ok Cons.prems(1) os]) simp_all
  moreover have "rt_held view (rpc_insert E r (p1_on_local_rpc ?new) ?s) =
      rooms_held (view (rt_oneshots s)) (rt_rooms_coordination s)"
    by (rule held_reopen [OF ok Cons.prems(1)]) (simp_all add: os Cons.prems(2))
  ultimately show ?case
    using Cons.IH [of "rpc_insert E r h ?s"] Cons.prems by (simp add: room os phase1_new_def rt_held_def)
qed simp

lemma daemon_new_ok:
  assumes "oneshot_ok (env_oneshot E) view"
    and "d = daemon_new (runtime_init E rooms (runtime_new service cacher os)) fs"
  shows "daemon_ok view d" and "daemon_held view d = []"
proof -
  let ?s = "runtime_new service cacher os"
  have inv: "rpc_inv view ?s" by (simp add: rpc_inv_def)
  have "rt_held view ?s = []" "rt_protocol_executions ?s = []" by (simp_all add: rt_held_def rooms_held_def runtime_new_def)
  from runtime_init_holds_none [OF assms(1) inv runtime_new_simps(1) this, of rooms]
  show "daemon_ok view d" and "daemon_held view d = []"
    using rpc_inv_init [OF assms(1) inv, of rooms]
    by (simp_all add: daemon_ok_def daemon_held_def assms(2) daemon_new_def)
qed

section \<open>No request is lost or answered twice\<close>

text \<open>
  C5: The daemon settles every request exactly once. In any run of the daemon that does not panic, over
  whatever rooms, proposals, negotiations, computations and timeouts, the senders of the requests
  that were made are exactly those that it still holds (unread in a room's channel, with the awaited
  negotiation, or with a running computation) together with those that it has settled, by an answer or
  by dropping the sender: none is lost, kept twice or answered twice.
\<close>

theorem requests_settled_once:
  assumes "oneshot_ok (env_oneshot E) view"
    and "daemon_run E H open_tx evs
      (daemon_new (runtime_init E rooms (runtime_new service cacher os)) fs) = Some (Inr (d, effs))"
  shows "mset (concat (map asked evs)) = mset (daemon_held view d) + mset (concat (map settled effs))"
  using daemon_run_keeps [OF assms(1) daemon_new_ok(1) [OF assms(1) refl] assms(2)]
    daemon_new_ok(2) [OF assms(1) refl, of rooms service cacher os fs] by simp

definition sample_requests :: "(byte, nat, nat) daemon_event list" where
  "sample_requests =
     [DmLoop (EvRequest (RoomId ''ab'') 2 1 [5] 10), DmLoop (EvRequest (RoomId ''ef'') 2 1 [5] 11),
      DmLoop (EvRequest (RoomId ''cd'') 2 1 [5] 12), DmLoop (EvPhase1 0 None),
      DmLoop (EvNegotiation 20 21 None False), DmLoop (EvNegotiation 20 21 (Some (Inr (9, []))) False),
      DmComputation 0 (SePoll (idle_input\<lparr>xi_agent := Some (Inr [7])\<rparr>))]"

text \<open>The two polls of the negotiation in the sample run.\<close>

abbreviation sample_asking :: "chan option \<Rightarrow> (byte, nat, nat) negotiation_chan" where
  "sample_asking q \<equiv> \<lparr>ng_rx = Some (Suc 0), ng_agent = Some 0, ng_state = Some \<lparr>ns_id = RoomId ''ab'', ns_n = 2,
     ns_args = [5], ns_service = sample_service, ns_peers = [4], ns_responses = q, ns_on_done = 10\<rparr>\<rparr>"

lemma sample_asks:
  "negotiation_poll sample_pid leb_ops sample_agent True h 20 21 None False (sample_asking None) =
    (Pending (sample_asking (Some 21)), [service_broadcast (RoomId ''ab'') (agent_context sample_agent 0) [] (Some 21)])"
  by (simp add: negotiation_poll_def u16_sub_def negotiation_timeout_def)

lemma sample_starts:
  "\<exists>parties proxy b. negotiation_poll sample_pid leb_ops sample_agent True h 20 21 (Some (Inr (9, []))) False
      (sample_asking (Some 21)) = (Ready (NStart 0 10 20 proxy parties [5]),
        [service_multicast (RoomId ''ab'') [9, 4] (agent_context sample_agent 0) b None]) \<and>
    local_peer_id parties = 4 \<and> session_peers parties = [4, 9]"
proof -
  let ?ps = "peerset_new sample_pid [9, 4] 4"
  obtain b where "negotiation_poll sample_pid leb_ops sample_agent True h 20 21 (Some (Inr (9, []))) False
      (sample_asking (Some 21)) =
      (Ready (NStart 0 10 20 \<lparr>rp_id = RoomId ''ab'', rp_rx = Some (Suc 0), rp_tx = 20,
         rp_service = sample_service, rp_parties = ?ps\<rparr> ?ps [5]),
       [service_multicast (RoomId ''ab'') [9, 4] (agent_context sample_agent 0) b None])"
  proof (rule negotiation_start_eq [of "sample_asking (Some 21)" "Suc 0" 0 "\<lparr>ns_id = RoomId ''ab'', ns_n = 2,
        ns_args = [5], ns_service = sample_service, ns_peers = [9, 4], ns_responses = Some 21, ns_on_done = 10\<rparr>"
        sample_pid leb_ops sample_agent 20])
  qed (auto simp: negotiation_poll_def sample_service_def)
  then show ?thesis by (auto simp: peerset_new_def)
qed

lemma sample_env_fields [simp]:
  "ns_local_peer_id sample_service = 4"
  "env_pid sample_env = sample_pid" "env_varint sample_env = leb_ops" "env_agent sample_env = sample_agent"
  "env_oneshot sample_env = list_oneshot" "env_checks sample_env"
  "env_factory sample_env p = (if p = 1 then Some 0 else None)"
  by (simp_all add: sample_env_def sample_service_def)

lemma sample_requests_run:
  "\<exists>d effs. daemon_run sample_env id (\<lambda>_. True) sample_requests
     (daemon_new (runtime_init sample_env sample_rooms sample_runtime) no_files) = Some (Inr (d, effs)) \<and>
   daemon_held list_view d = [12]"
proof -
  obtain parties proxy b where start: "negotiation_poll sample_pid leb_ops sample_agent True (Suc (Suc 0)) 20 21
      (Some (Inr (9, []))) False (sample_asking (Some 21)) = (Ready (NStart 0 10 20 proxy parties [5]),
        [service_multicast (RoomId ''ab'') [9, 4] (agent_context sample_agent 0) b None])"
    and ps: "local_peer_id parties = 4" "session_peers parties = [4, 9]" using sample_starts by blast
  show ?thesis
    by (simp add: sample_requests_def list_oneshot_def phase1_new_def rpc_insert_def push_phase1_def
      runtime_new_def daemon_new_def daemon_loop_def runtime_step_def on_computation_request_def Let_def
      on_phase1_def phase1_poll_def on_phase1_msg_def remove_nth_def negotiation_new_def on_negotiation_def
      sample_asks start start_execution_def execution_new_def ps index_of_def peerset_size_def u16_sub_def
      daemon_computation_def begin_session_def session_new_def session_step_def session_poll_def exec_poll_def
      exec_agent_def wrap_start_def echo_gadget_new_def session_end_def daemon_held_def rt_held_def
      rooms_held_def list_view_def sending_def to_worker_def)
qed

theorem requests_settled_once_witness:
  "\<exists>d effs. daemon_run sample_env id (\<lambda>_. True) sample_requests
     (daemon_new (runtime_init sample_env sample_rooms sample_runtime) no_files) = Some (Inr (d, effs)) \<and>
   {#10, 11, 12#} = {#12#} + mset (concat (map settled effs))"
proof -
  have ok: "oneshot_ok (env_oneshot sample_env) list_view" by (simp add: sample_env_def list_oneshot_ok)
  obtain d effs where run: "daemon_run sample_env id (\<lambda>_. True) sample_requests
      (daemon_new (runtime_init sample_env sample_rooms sample_runtime) no_files) = Some (Inr (d, effs))"
    and held: "daemon_held list_view d = [12]" using sample_requests_run by blast
  have "concat (map asked sample_requests) = [10, 11, 12]" by (simp add: sample_requests_def)
  with requests_settled_once [OF ok run] run held show ?thesis by auto
qed

end
