(* ===== verification/Daemon_Panics.thy ===== *)
theory Daemon_Panics
  imports Daemon
begin

text \<open>
  What takes the daemon down: the causes of a panic of a running computation and of its echo gadget, the
  invariant of the daemon that rules out all others, and the causes of a panic of the whole daemon, the
  loop, its computations and the channel to the network worker together.
\<close>

section \<open>Panics of a computation\<close>










section \<open>The daemon's invariant\<close>











section \<open>Panics of the daemon\<close>


lemma rt_messages_append [simp]: "rt_messages (xs @ ys) = rt_messages xs @ rt_messages ys"
  by (induction xs rule: rt_messages.induct) simp_all

lemma rt_messages_forward [simp]: "rt_messages (map (\<lambda>(c, m). RtForward c m) sent) = []"
  by (induction sent) auto


lemma session_messages_append [simp]: "session_messages (xs @ ys) = session_messages xs @ session_messages ys"
  by (induction xs rule: session_messages.induct) simp_all

lemma session_messages_other [simp]:
  "session_messages (map (\<lambda>(tx, resp). SeAcked tx resp) sent) = []" "session_messages (dropped s) = []"
  by (induction sent) (auto simp: dropped_def split: option.splits)










end
