(* ===== verification/Party_Network.thy ===== *)
theory Party_Network
  imports Session
begin

text \<open>
  The echo broadcast of all parties of a computation together: \<open>n\<close> sessions, each the execution and
  the echo gadget of one party, and the network between them. The parties are honest, the network
  loses nothing and changes nothing, but it may deliver broadcasts and replies in any order.

  An agent sends the broadcast of a round when it has been handed the broadcasts of all parties of
  the rounds before, as the round-based protocols do. The flag \<open>ordered\<close> adds an assumption on the
  network: a broadcast arrives at a party only after that party has been handed all broadcasts of
  the earlier rounds. What a session does is computed by the definitions of \<open>Session\<close>.

  The agents also take what they are handed: the channel from the execution to the agent, which holds
  \<open>n - 1\<close> messages, has room in every poll (\<open>xi_agent_open\<close>). An agent that leaves \<open>n - 1\<close> messages
  waiting makes the next one panic the daemon, see \<open>Daemon_Panics\<close>.
\<close>

section \<open>The network\<close>

text \<open>
  What is fixed: the parties in their common order with their executions and receiver proxies, the hash,
  and what each agent broadcasts in a round. Channels are local to a party: the replies to its own
  broadcast of round \<open>r\<close> come on channel \<open>r\<close>, and its acknowledgement of party \<open>j\<close>'s broadcast of that
  round goes to channel \<open>r * n + j\<close>.
\<close>

record ('pid, 'done) net_env =
  ne_pid :: "'pid pid_ops"
  ne_hash :: "bytes \<Rightarrow> bytes"
  ne_checks :: bool
  ne_peers :: "'pid list"
  ne_states :: "nat \<Rightarrow> ('pid, 'done) exec_state"
  ne_proxies :: "nat \<Rightarrow> 'pid receiver_proxy"
  ne_body :: "nat \<Rightarrow> nat \<Rightarrow> bytes"
  ne_rounds :: nat
  ne_fs :: file_system

text \<open>
  What changes: the sessions, the broadcasts under way (from, to, round, payload), how many rounds each
  agent has sent, which broadcasts (from, round) each party has taken up in which order, its own
  among them, and the replies that are there for the broadcast of a party and a round.
\<close>

record ('pid, 'done) net =
  nt_sessions :: "nat \<Rightarrow> ('pid, 'done) session"
  nt_flight :: "(nat \<times> nat \<times> nat \<times> bytes) list"
  nt_sent :: "nat \<Rightarrow> nat"
  nt_taken :: "nat \<Rightarrow> (nat \<times> nat) list"
  nt_replies :: "nat \<Rightarrow> nat \<Rightarrow> 'pid reply list"

abbreviation parties :: "('pid, 'done) net_env \<Rightarrow> nat" where
  "parties N \<equiv> length (ne_peers N)"

definition net_start :: "('pid, 'done) net_env \<Rightarrow> ('pid, 'done) net" where
  "net_start N =
     \<lparr>nt_sessions = (\<lambda>i. \<lparr>se_n = parties N, se_queue = [], se_echo = wrap_start (parties N),
        se_exec = \<lparr>pe_state = Some (ne_states N i)\<rparr>\<rparr>),
      nt_flight = [], nt_sent = (\<lambda>_. 0), nt_taken = (\<lambda>_. []), nt_replies = (\<lambda>_ _. [])\<rparr>"

definition has_rounds :: "('pid, 'done) net_env \<Rightarrow> nat \<Rightarrow> (nat \<times> nat) list \<Rightarrow> bool" where
  "has_rounds N r taken \<longleftrightarrow> (\<forall>s \<in> set [0..<r]. \<forall>j \<in> set [0..<parties N]. (j, s) \<in> set taken)"

abbreviation no_input :: "'pid exec_input" where
  "no_input \<equiv> \<lparr>xi_cache = None, xi_outgoing = None, xi_incoming = None, xi_agent = None,
     xi_echo_free = 0, xi_agent_open = True, xi_chan = 0\<rparr>"

definition send_input :: "('pid, 'done) net_env \<Rightarrow> nat \<Rightarrow> nat \<Rightarrow> 'pid exec_input" where
  "send_input N i r = no_input\<lparr>xi_chan := r,
     xi_outgoing := Some \<lparr>po_body = ne_body N r i, po_to = RouteBroadcast, po_sent = None\<rparr>\<rparr>"

text \<open>The request as the receiver's behaviour hands it to the room, and what its proxy makes of it.\<close>

definition net_message :: "('pid, 'done) net_env \<Rightarrow> nat \<Rightarrow> nat \<Rightarrow> bytes \<Rightarrow> 'pid incoming_message" where
  "net_message N j r b =
     \<lparr>im_peer_id = ne_peers N ! j, im_peer_index = 0, im_payload = b, im_is_broadcast = True,
      im_pending_response = r * parties N + j,
      im_context = exec_context Coordination (ne_states N j)\<rparr>"

definition deliver_input ::
  "('pid, 'done) net_env \<Rightarrow> nat \<Rightarrow> nat \<Rightarrow> nat \<Rightarrow> bytes \<Rightarrow> 'pid exec_input option" where
  "deliver_input N i j r b =
     (case snd (receiver_proxy_poll 0 False (Some (net_message N j r b)) (ne_proxies N i)) of
        [] \<Rightarrow> None
      | (c, msg) # _ \<Rightarrow> Some (no_input\<lparr>xi_incoming := Some msg\<rparr>))"

text \<open>The multicasts of a poll, and what it hands to the agent.\<close>

fun multicasts :: "('pid, 'done) session_effect list \<Rightarrow> ('pid list \<times> bytes) list" where
  "multicasts [] = []"
| "multicasts (SeExec (Net (RequestResponse room ctx (Multicast peers b q))) # eff) =
     (peers, b) # multicasts eff"
| "multicasts (_ # eff) = multicasts eff"

definition under_way ::
  "('pid, 'done) net_env \<Rightarrow> nat \<Rightarrow> nat \<Rightarrow> ('pid, 'done) session_effect list \<Rightarrow>
   (nat \<times> nat \<times> nat \<times> bytes) list" where
  "under_way N i r eff =
     concat (map (\<lambda>(peers, b). map (\<lambda>k. (i, k, r, b))
       (filter (\<lambda>k. ne_peers N ! k \<in> set peers) [0..<parties N])) (multicasts eff))"

text \<open>An acknowledgement of party \<open>i\<close> becomes a reply for the sender and the round of its channel.\<close>

fun route_acks ::
  "('pid, 'done) net_env \<Rightarrow> nat \<Rightarrow> (chan \<times> outgoing_response) list \<Rightarrow>
   (nat \<Rightarrow> nat \<Rightarrow> 'pid reply list) \<Rightarrow> nat \<Rightarrow> nat \<Rightarrow> 'pid reply list" where
  "route_acks N i [] replies = replies"
| "route_acks N i ((tx, resp) # acks) replies =
     route_acks N i acks
       (case or_result resp of
          Inl _ \<Rightarrow> replies
        | Inr h \<Rightarrow> (let j = tx mod parties N; r = tx div parties N in
            replies(j := (replies j)(r := replies j r @ [Inr (ne_peers N ! i, h)]))))"

datatype net_event = NetSend nat | NetDeliver nat | NetReceive nat | NetReply nat nat

definition party_step ::
  "('pid, 'done) net_env \<Rightarrow> nat \<Rightarrow> 'pid session_event \<Rightarrow> ('pid, 'done) net \<Rightarrow>
   (('pid, 'done) net \<times> ('pid, 'done) session_effect list) option" where
  "party_step N i ev net =
     (case session_step (ne_pid N) (ne_hash N) (ne_checks N) (\<lambda>_. True) ev (nt_sessions net i, ne_fs N) of
        None \<Rightarrow> None
      | Some (s', fs', eff) \<Rightarrow> Some (net\<lparr>nt_sessions := (nt_sessions net)(i := s')\<rparr>, eff))"

definition taken_up ::
  "nat \<Rightarrow> nat \<Rightarrow> nat \<Rightarrow> ('pid, 'done) session_effect list \<Rightarrow> ('pid, 'done) net \<Rightarrow> ('pid, 'done) net" where
  "taken_up i j r eff net =
     net\<lparr>nt_taken := (nt_taken net)(i := nt_taken net i @ map (\<lambda>_. (j, r)) (broadcasts_handed eff))\<rparr>"

definition net_step ::
  "('pid, 'done) net_env \<Rightarrow> bool \<Rightarrow> net_event \<Rightarrow> ('pid, 'done) net \<Rightarrow> ('pid, 'done) net option" where
  "net_step N ordered ev net =
     (case ev of
        NetSend i \<Rightarrow>
          (let r = nt_sent net i in
           if i < parties N \<and> r < ne_rounds N \<and> has_rounds N r (nt_taken net i) then
             map_option (\<lambda>(net', eff).
                 taken_up i i r eff (net'\<lparr>nt_sent := (nt_sent net)(i := Suc r),
                   nt_flight := nt_flight net @ under_way N i r eff\<rparr>))
               (party_step N i (SePoll (send_input N i r)) net)
           else None)
      | NetDeliver k \<Rightarrow>
          (if k < length (nt_flight net) then
             (case nt_flight net ! k of
                (j, i, r, b) \<Rightarrow>
                  if ordered \<and> \<not> has_rounds N r (nt_taken net i) then None
                  else (case deliver_input N i j r b of
                      None \<Rightarrow> None
                    | Some inp \<Rightarrow>
                        map_option (\<lambda>(net', eff).
                            taken_up i j r eff (net'\<lparr>nt_flight := remove_nth k (nt_flight net)\<rparr>))
                          (party_step N i (SePoll inp) net)))
           else None)
      | NetReceive i \<Rightarrow>
          (if i < parties N then
             map_option (\<lambda>(net', eff). net'\<lparr>nt_replies := route_acks N i (acks_sent eff) (nt_replies net)\<rparr>)
               (party_step N i SeReceive net)
           else None)
      | NetReply i k \<Rightarrow>
          (case se_echo (nt_sessions net i) of
             Running g (Awaiting rx h hashes) \<Rightarrow>
               if i < parties N \<and> k < length (nt_replies net i rx) then
                 map_option (\<lambda>(net', eff). net'\<lparr>nt_replies := (nt_replies net)(i :=
                     (nt_replies net i)(rx := remove_nth k (nt_replies net i rx)))\<rparr>)
                   (party_step N i (SeReply (nt_replies net i rx ! k)) net)
               else None
           | _ \<Rightarrow> None))"

inductive net_reach :: "('pid, 'done) net_env \<Rightarrow> bool \<Rightarrow> ('pid, 'done) net \<Rightarrow> bool" for N ordered where
  net_reach_start: "net_reach N ordered (net_start N)"
| net_reach_step: "net_reach N ordered net \<Longrightarrow> net_step N ordered ev net = Some net' \<Longrightarrow>
     net_reach N ordered net'"

fun net_run ::
  "('pid, 'done) net_env \<Rightarrow> bool \<Rightarrow> net_event list \<Rightarrow> ('pid, 'done) net \<Rightarrow> ('pid, 'done) net option" where
  "net_run N ordered [] net = Some net"
| "net_run N ordered (ev # evs) net =
     (case net_step N ordered ev net of None \<Rightarrow> None | Some net' \<Rightarrow> net_run N ordered evs net')"

lemma net_run_reach:
  "net_run N ordered evs net = Some net' \<Longrightarrow> net_reach N ordered net \<Longrightarrow> net_reach N ordered net'"
  by (induction evs arbitrary: net) (auto split: option.splits intro: net_reach_step)

section \<open>Polls\<close>

text \<open>
  Executions of one computation: the same parties in the same order, each party knowing its own place.
\<close>

definition net_ok :: "('pid, 'done) net_env \<Rightarrow> bool" where
  "net_ok N \<longleftrightarrow>
     2 \<le> parties N \<and> ne_rounds N < 2 ^ 16 \<and>
     (\<forall>i < parties N. exec_wf (ne_states N i) \<and> session_peers (ex_parties (ne_states N i)) = ne_peers N \<and>
        local_peer_id (ex_parties (ne_states N i)) = ne_peers N ! i \<and>
        rp_rx (ne_proxies N i) \<noteq> None \<and> session_peers (rp_parties (ne_proxies N i)) = ne_peers N)"

lemma net_okD:
  assumes "net_ok N"
  shows "2 \<le> parties N" and "ne_rounds N < 65536" and "distinct (ne_peers N)" and "parties N < 65536"
    and "i < parties N \<Longrightarrow> exec_wf (ne_states N i)"
    and "i < parties N \<Longrightarrow> session_peers (ex_parties (ne_states N i)) = ne_peers N"
    and "i < parties N \<Longrightarrow> local_peer_id (ex_parties (ne_states N i)) = ne_peers N ! i"
    and "i < parties N \<Longrightarrow> \<exists>rx. rp_rx (ne_proxies N i) = Some rx"
    and "i < parties N \<Longrightarrow> session_peers (rp_parties (ne_proxies N i)) = ne_peers N"
proof -
  show n: "2 \<le> parties N" and "ne_rounds N < 65536"
    using assms by (auto simp: net_ok_def)
  show "i < parties N \<Longrightarrow> exec_wf (ne_states N i)"
    and "i < parties N \<Longrightarrow> session_peers (ex_parties (ne_states N i)) = ne_peers N"
    and "i < parties N \<Longrightarrow> local_peer_id (ex_parties (ne_states N i)) = ne_peers N ! i"
    and "i < parties N \<Longrightarrow> \<exists>rx. rp_rx (ne_proxies N i) = Some rx"
    and "i < parties N \<Longrightarrow> session_peers (rp_parties (ne_proxies N i)) = ne_peers N"
    using assms by (auto simp: net_ok_def)
  have "exec_wf (ne_states N 0)" "session_peers (ex_parties (ne_states N 0)) = ne_peers N"
    using assms n by (force simp: net_ok_def)+
  then show "distinct (ne_peers N)" "parties N < 65536"
    using exec_wfD(1,3) by metis+
qed

text \<open>The broadcast of party \<open>j\<close> and round \<open>r\<close> as the gadget of party \<open>i\<close> gets it.\<close>

definition echo_view :: "('pid, 'done) net_env \<Rightarrow> nat \<Rightarrow> nat \<times> nat \<Rightarrow> echo_message" where
  "echo_view N i jr =
     (case jr of (j, r) \<Rightarrow>
        \<lparr>em_sender = word_of_nat (Suc j), em_payload = ne_body N r j,
         em_response = (if j = i then EOutgoing r else EIncoming (r * parties N + j))\<rparr>)"

definition net_send :: "('pid, 'done) net_env \<Rightarrow> nat \<Rightarrow> nat \<Rightarrow> 'pid network_message" where
  "net_send N i r = RequestResponse (ex_room_id (ne_states N i)) (exec_context Coordination (ne_states N i))
     (Multicast (remotes_iter (ex_parties (ne_states N i))) (ne_body N r i) (Some r))"

lemma outgoing_broadcast:
  assumes "net_ok N" and "i < parties N"
    and "m = \<lparr>po_body = ne_body N r i, po_to = RouteBroadcast, po_sent = None\<rparr>"
  shows "exec_outgoing checks r free (ne_states N i) m =
    (if free = 0 then Inl ExpectFailed
     else Inr (free - 1, [ToEcho (echo_view N i (i, r)), Net (net_send N i r)]))"
proof -
  note wf = exec_wfD [OF net_okD(5) [OF assms(1,2)]]
  have "1 \<le> ex_n (ne_states N i)" using wf(2,4) by (simp add: word_le_nat_alt)
  then have n: "u16_sub checks (ex_n (ne_states N i)) 1 = Inr (ex_n (ne_states N i) - 1)"
    by (rule u16_sub_ok)
  have i: "ex_i (ne_states N i) = word_of_nat i"
    by (rule exec_wf_i) (use net_okD [OF assms(1)] assms(2) in auto)
  have add: "u16_add checks (word_of_nat i) 1 = Inr (word_of_nat (Suc i))"
    by (rule u16_add_nat) (use net_okD(4) [OF assms(1)] assms(2) in simp)
  show ?thesis
    using n i add by (simp add: assms(3) exec_outgoing_def service_multicast_def echo_view_def net_send_def
        del: of_nat_Suc)
qed

lemma remotes_are_others:
  assumes "net_ok N" and "i < parties N" and "k < parties N"
  shows "ne_peers N ! k \<in> set (remotes_iter (ex_parties (ne_states N i))) \<longleftrightarrow> k \<noteq> i"
proof -
  have "set (remotes_iter (ex_parties (ne_states N i))) = set (ne_peers N) - {ne_peers N ! i}"
    using net_okD(6,7) [OF assms(1,2)] by (auto simp: remotes_iter_def)
  then show ?thesis using net_okD(3) [OF assms(1)] assms(2,3) by (simp add: nth_eq_iff_index_eq)
qed

lemma deliver_input_eq:
  assumes "net_ok N" and "i < parties N" and "j < parties N"
  shows "deliver_input N i j r b =
    Some (no_input\<lparr>xi_incoming := Some ((net_message N j r b)\<lparr>im_peer_index := word_of_nat j\<rparr>)\<rparr>)"
proof -
  obtain rx where "rp_rx (ne_proxies N i) = Some rx" using net_okD(8) [OF assms(1,2)] by blast
  from proxy_forwards [OF this, of j "net_message N j r b" 0]
  show ?thesis using net_okD(3,9) [OF assms(1)] assms(2,3)
    by (simp add: deliver_input_def net_message_def)
qed

lemma incoming_broadcast:
  assumes "net_ok N" and "i < parties N" and "j < parties N" and "j \<noteq> i" and "b = ne_body N r j"
    and "msg = (net_message N j r b)\<lparr>im_peer_index := word_of_nat j\<rparr>"
  shows "exec_incoming checks free True (ne_states N i) msg =
    (if free = 0 then (Inl ExpectFailed, [])
     else (Inr (), [ToEcho (echo_view N i (j, r)),
       ToProtocol \<lparr>pi_from = word_of_nat (Suc j), pi_body = b, pi_to = RouteBroadcast\<rparr>]))"
proof -
  have "u16_add checks (word_of_nat j) 1 = Inr (word_of_nat (Suc j))"
    by (rule u16_add_nat) (use net_okD(4) [OF assms(1)] assms(3) in simp)
  then show ?thesis
    using assms(4-6) by (simp add: exec_incoming_def net_message_def echo_view_def Let_def del: of_nat_Suc)
qed

section \<open>Steps of one party\<close>

definition alive :: "('pid, 'done) net_env \<Rightarrow> nat \<Rightarrow> ('pid, 'done) session \<Rightarrow> bool" where
  "alive N i s \<longleftrightarrow> echo_running s \<and> se_n s = parties N \<and> se_exec s = \<lparr>pe_state = Some (ne_states N i)\<rparr>"

lemma aliveD:
  assumes "alive N i s"
  obtains g stage where "se_echo s = Running g stage" "se_n s = parties N"
    "se_exec s = \<lparr>pe_state = Some (ne_states N i)\<rparr>"
  using assms by (auto simp: alive_def split: wrapped.splits)

text \<open>A broadcast that is handed to the gadget, or a panic because its channel is full.\<close>

lemma poll_broadcast:
  assumes "alive N i s"
    and "\<And>free. exec_poll (ne_pid N) (ne_checks N) (inp\<lparr>xi_echo_free := free\<rparr>) (se_exec s) fs =
      (if free = 0 then (Panicked ExpectFailed, fs, [])
       else (Pending (se_exec s), fs, [ToEcho m, e]))" and "echo_handed [e] = []"
  shows "session_step (ne_pid N) (ne_hash N) (ne_checks N) open_tx (SePoll inp) (s, fs) =
    Some (if parties N < length (se_queue s) then (session_end (WrapPanicked ExpectFailed) s, fs, dropped s)
      else (s\<lparr>se_queue := se_queue s @ [m]\<rparr>, fs, [SeExec (ToEcho m), SeExec e]))"
proof -
  from assms(1) obtain g stage where s: "se_echo s = Running g stage" "se_n s = parties N"
    by (rule aliveD)
  have "s\<lparr>se_exec := se_exec s\<rparr> = s" by simp
  moreover have "echo_free s = 0 \<longleftrightarrow> parties N < length (se_queue s)" by (auto simp: echo_free_def s)
  ultimately show ?thesis using s(1) assms(2,3) by (simp add: session_step_def session_poll_def)
qed

lemma send_session:
  assumes "net_ok N" and "i < parties N" and "alive N i s"
  shows "session_step (ne_pid N) (ne_hash N) (ne_checks N) open_tx (SePoll (send_input N i r)) (s, fs) =
    Some (if parties N < length (se_queue s) then (session_end (WrapPanicked ExpectFailed) s, fs, dropped s)
      else (s\<lparr>se_queue := se_queue s @ [echo_view N i (i, r)]\<rparr>, fs,
        [SeExec (ToEcho (echo_view N i (i, r))), SeExec (Net (net_send N i r))]))"
proof (rule poll_broadcast [OF assms(3)])
  fix free
  from assms(3) obtain g stage where s: "se_exec s = \<lparr>pe_state = Some (ne_states N i)\<rparr>" by (rule aliveD)
  show "exec_poll (ne_pid N) (ne_checks N) ((send_input N i r)\<lparr>xi_echo_free := free\<rparr>) (se_exec s) fs =
      (if free = 0 then (Panicked ExpectFailed, fs, [])
       else (Pending (se_exec s), fs, [ToEcho (echo_view N i (i, r)), Net (net_send N i r)]))"
    using outgoing_broadcast [OF assms(1,2) refl, of "ne_checks N" r free]
    by (simp add: s exec_poll_def send_input_def exec_agent_def)
qed simp

lemma deliver_session:
  assumes "net_ok N" and "i < parties N" and "j < parties N" and "j \<noteq> i" and "alive N i s"
    and "deliver_input N i j r (ne_body N r j) = Some inp"
  shows "session_step (ne_pid N) (ne_hash N) (ne_checks N) open_tx (SePoll inp) (s, fs) =
    Some (if parties N < length (se_queue s) then (session_end (WrapPanicked ExpectFailed) s, fs, dropped s)
      else (s\<lparr>se_queue := se_queue s @ [echo_view N i (j, r)]\<rparr>, fs,
        [SeExec (ToEcho (echo_view N i (j, r))), SeExec (ToProtocol \<lparr>pi_from = word_of_nat (Suc j),
           pi_body = ne_body N r j, pi_to = RouteBroadcast\<rparr>)]))"
proof (rule poll_broadcast [OF assms(5)])
  fix free
  from assms(5) obtain g stage where s: "se_exec s = \<lparr>pe_state = Some (ne_states N i)\<rparr>" by (rule aliveD)
  have inp: "inp = no_input\<lparr>xi_incoming :=
      Some ((net_message N j r (ne_body N r j))\<lparr>im_peer_index := word_of_nat j\<rparr>)\<rparr>"
    using deliver_input_eq [OF assms(1-3), of r "ne_body N r j"] assms(6) by simp
  show "exec_poll (ne_pid N) (ne_checks N) (inp\<lparr>xi_echo_free := free\<rparr>) (se_exec s) fs =
      (if free = 0 then (Panicked ExpectFailed, fs, [])
       else (Pending (se_exec s), fs, [ToEcho (echo_view N i (j, r)), ToProtocol \<lparr>pi_from = word_of_nat (Suc j),
           pi_body = ne_body N r j, pi_to = RouteBroadcast\<rparr>]))"
    using incoming_broadcast [OF assms(1-4) refl refl, of "ne_checks N" free]
    by (simp add: s inp exec_poll_def exec_agent_def)
qed simp

lemma under_way_send:
  assumes "net_ok N" and "i < parties N"
  shows "under_way N i r [SeExec (ToEcho m), SeExec (Net (net_send N i r))] =
    map (\<lambda>k. (i, k, r, ne_body N r i)) (filter (\<lambda>k. k \<noteq> i) [0..<parties N])"
proof -
  have "filter (\<lambda>k. ne_peers N ! k \<in> set (remotes_iter (ex_parties (ne_states N i)))) [0..<parties N] =
      filter (\<lambda>k. k \<noteq> i) [0..<parties N]"
    by (rule filter_cong [OF refl]) (simp add: remotes_are_others [OF assms])
  then show ?thesis by (simp add: under_way_def net_send_def)
qed

section \<open>Rounds in what a party takes up\<close>

definition round_view :: "('pid, 'done) net_env \<Rightarrow> nat \<Rightarrow> nat \<Rightarrow> echo_message list" where
  "round_view N i r = map (\<lambda>j. echo_view N i (j, r)) [0..<parties N]"

text \<open>What every party hashes in a round.\<close>

definition round_input :: "('pid, 'done) net_env \<Rightarrow> nat \<Rightarrow> bytes" where
  "round_input N r = concat (map (ne_body N r) (rev [0..<parties N]))"

lemma unat_Suc_party: "parties N < 65536 \<Longrightarrow> j < parties N \<Longrightarrow> unat (word_of_nat (Suc j) :: u16) = Suc j"
  by (rule unat_of_nat_u16) simp

lemma round_view_senders:
  assumes "parties N < 65536"
  shows "distinct (map em_sender (round_view N i r))" and "sorted (map em_sender (round_view N i r))"
proof -
  have eq: "map em_sender (round_view N i r) = map (\<lambda>j. word_of_nat (Suc j)) [0..<parties N]"
    by (simp add: round_view_def echo_view_def)
  have "inj_on (\<lambda>j. word_of_nat (Suc j) :: u16) {0..<parties N}"
    by (rule inj_onI) (metis assms atLeastLessThan_iff nat.inject unat_Suc_party)
  then show "distinct (map em_sender (round_view N i r))" by (simp add: eq distinct_map)
  show "sorted (map em_sender (round_view N i r))"
    by (auto simp: eq sorted_iff_nth_mono word_le_nat_alt unat_Suc_party [OF assms] simp del: of_nat_Suc)
qed

lemma concat_map_single:
  "distinct xs \<Longrightarrow> concat (map (\<lambda>j. if j = i then [r] else []) xs) = (if i \<in> set xs then [r] else [])"
  by (induction xs) auto

lemma round_view_echo:
  assumes "net_ok N" and "i < parties N" and "mset ms = mset (round_view N i r)"
  shows "echo_input ms = round_input N r" and "round_msgs (parties N) (\<lambda>_. True) r ms"
proof -
  note senders = round_view_senders [OF net_okD(4) [OF assms(1)], of i r]
  have dist: "distinct (map em_sender ms)"
    using senders(1) assms(3) by (metis mset_eq_imp_distinct_iff mset_map)
  have "echo_order ms = echo_order (round_view N i r)" by (rule echo_order_perm [OF assms(3) dist])
  also have "\<dots> = rev (round_view N i r)" using senders(2) by (simp add: echo_order_def sort_key_id_if_sorted)
  finally show "echo_input ms = round_input N r"
    by (simp add: echo_input_def round_input_def round_view_def echo_view_def rev_map comp_def)
  have "outgoing_rx (echo_view N i (j, r)) = (if j = i then [r] else [])" for j
    by (simp add: echo_view_def outgoing_rx_def)
  then have "concat (map outgoing_rx (round_view N i r)) =
      concat (map (\<lambda>j. if j = i then [r] else []) [0..<parties N])"
    by (simp add: round_view_def comp_def)
  also have "\<dots> = [r]" using assms(2) by (simp add: concat_map_single)
  finally have "mset (concat (map outgoing_rx ms)) = {#r#}"
    by (metis assms(3) mset_concat_map mset_single_iff_right)
  moreover have "length ms = parties N" using mset_eq_length [OF assms(3)] by (simp add: round_view_def)
  ultimately show "round_msgs (parties N) (\<lambda>_. True) r ms" using dist by (simp add: round_msgs_def)
qed

text \<open>
  What a party takes up while the rounds stay in order: all broadcasts of one round, each once, before
  the first of the next.
\<close>

definition taken_ok :: "('pid, 'done) net_env \<Rightarrow> (nat \<times> nat) list \<Rightarrow> bool" where
  "taken_ok N taken \<longleftrightarrow> distinct taken \<and>
     (\<forall>m < length taken. fst (taken ! m) < parties N \<and> snd (taken ! m) = m div parties N \<and>
        snd (taken ! m) < ne_rounds N)"

lemma taken_round:
  assumes "taken_ok N taken" and "0 < parties N" and "Suc r * parties N \<le> length taken"
  shows "mset (take (parties N) (drop (r * parties N) taken)) = mset (map (\<lambda>j. (j, r)) [0..<parties N])"
proof -
  let ?n = "parties N" let ?xs = "take ?n (drop (r * ?n) taken)"
  have len: "length ?xs = ?n" using assms(3) by simp
  have dist: "distinct ?xs" using assms(1) by (simp add: taken_ok_def)
  have "fst x < ?n \<and> snd x = r" if "x \<in> set ?xs" for x
  proof -
    from that len obtain k where k: "k < ?n" "x = ?xs ! k" by (metis in_set_conv_nth)
    then have x: "x = taken ! (r * ?n + k)" and m: "r * ?n + k < length taken" using assms(3) by auto
    have "(r * ?n + k) div ?n = r" using k(1) assms(2) by (simp add: div_mult_self3)
    with assms(1) x m show ?thesis by (auto simp: taken_ok_def)
  qed
  then have sub: "set ?xs \<subseteq> set (map (\<lambda>j. (j, r)) [0..<?n])" by force
  have dist2: "distinct (map (\<lambda>j. (j, r)) [0..<?n])" by (simp add: distinct_map inj_on_def)
  have "card (set ?xs) = card (set (map (\<lambda>j. (j, r)) [0..<?n]))"
    using distinct_card [OF dist] distinct_card [OF dist2] len by simp
  then have "set ?xs = set (map (\<lambda>j. (j, r)) [0..<?n])" using sub by (intro card_subset_eq) auto
  with set_eq_iff_mset_eq_distinct [OF dist dist2] show ?thesis by blast
qed

section \<open>The gadget of one party\<close>

definition agreed :: "('pid, 'done) net_env \<Rightarrow> nat \<Rightarrow> 'pid reply \<Rightarrow> bool" where
  "agreed N r x \<longleftrightarrow> (\<exists>p. x = Inr (p, ne_hash N (round_input N r)))"

text \<open>
  The gadget has taken the first \<open>c\<close> broadcasts from its channel. While it collects, it has those of the
  current round; while it waits for replies, it has taken the whole round.
\<close>

definition gadget_at ::
  "('pid, 'done) net_env \<Rightarrow> nat \<Rightarrow> (nat \<times> nat) list \<Rightarrow> ('pid, 'done) session \<Rightarrow> nat \<Rightarrow> bool" where
  "gadget_at N i taken s c \<longleftrightarrow>
     c \<le> length taken \<and> se_queue s = map (echo_view N i) (drop c taken) \<and>
     (case se_echo s of
        Running g Collecting \<Rightarrow>
          g = \<lparr>eg_r = word_of_nat (c div parties N), eg_n = parties N,
            eg_msgs = rev (map (echo_view N i) (drop (c div parties N * parties N) (take c taken)))\<rparr>
      | Running g (Awaiting rx h hashes) \<Rightarrow>
          c = Suc rx * parties N \<and> g = \<lparr>eg_r = word_of_nat rx, eg_n = parties N, eg_msgs = []\<rparr> \<and>
          h = ne_hash N (round_input N rx) \<and> length hashes < parties N - 1 \<and>
          (\<forall>x \<in> set hashes. agreed N rx x)
      | _ \<Rightarrow> False)"

lemma receive_session:
  fixes s :: "('pid, 'done) session"
  assumes ok: "net_ok N" "i < parties N" "taken_ok N taken" and live: "alive N i s"
    and at: "gadget_at N i taken s c"
    and step: "session_step P (ne_hash N) checks (\<lambda>_. True) SeReceive (s, fs) = Some (s', fs', eff)"
  shows "alive N i s' \<and> gadget_at N i taken s' (Suc c) \<and> c < length taken \<and>
    (\<exists>g. se_echo s = Running g Collecting) \<and>
    (\<exists>g. se_echo s' = Running g (if Suc c mod parties N = 0
       then Awaiting (c div parties N) (ne_hash N (round_input N (c div parties N))) [] else Collecting)) \<and>
    (\<exists>ms. mset ms = mset (round_view N i (c div parties N)) \<and>
       acks_sent eff = (if Suc c mod parties N = 0
         then echo_acks (ne_hash N (round_input N (c div parties N))) ms else []))"
proof -
  let ?n = "parties N" let ?r = "c div ?n"
  have n: "2 \<le> ?n" by (rule net_okD(1) [OF ok(1)])
  from live obtain g stage where s: "se_echo s = Running g stage" "se_n s = ?n"
    "se_exec s = \<lparr>pe_state = Some (ne_states N i)\<rparr>" by (rule aliveD)
  from step s(1) have stage: "stage = Collecting" and "se_queue s \<noteq> []"
    by (auto simp: session_step_def split: echo_stage.splits list.splits)
  with at have c: "c < length taken" and queue: "se_queue s = map (echo_view N i) (drop c taken)"
    by (auto simp: gadget_at_def)
  let ?m = "echo_view N i (taken ! c)"
  let ?seen = "drop (?r * ?n) (take c taken)"
  from at s(1) stage have g: "g = \<lparr>eg_r = word_of_nat ?r, eg_n = ?n, eg_msgs = rev (map (echo_view N i) ?seen)\<rparr>"
    by (simp add: gadget_at_def)
  have q: "se_queue s = ?m # map (echo_view N i) (drop (Suc c) taken)"
    using queue c by (simp add: Cons_nth_drop_Suc [symmetric])
  have seen: "length ?seen = c mod ?n"
    using c by (simp add: modulo_nat_def)
  have ext: "drop (?r * ?n) (take (Suc c) taken) = ?seen @ [taken ! c]"
    using c by (simp add: take_Suc_conv_app_nth)
  let ?g = "g\<lparr>eg_msgs := ?m # rev (map (echo_view N i) ?seen)\<rparr>"
  let ?s = "s\<lparr>se_queue := map (echo_view N i) (drop (Suc c) taken)\<rparr>"
  show ?thesis
  proof (cases "Suc (c mod ?n) = ?n")
    case False
    then have full: "Suc c mod ?n \<noteq> 0" and div: "Suc c div ?n = ?r"
      by (simp_all add: mod_Suc div_Suc)
    have "session_step P (ne_hash N) checks (\<lambda>_. True) SeReceive (s, fs) =
        Some (?s\<lparr>se_echo := Running ?g Collecting\<rparr>, fs, [])"
      using s(1) stage q g False seen
      by (simp add: session_step_def proceed_message_def heap_push_def Let_def after_round_def
          session_wrapped_def)
    with step have s': "s' = ?s\<lparr>se_echo := Running ?g Collecting\<rparr>" "eff = []" by simp_all
    have "gadget_at N i taken s' (Suc c)"
      using c by (simp add: s' gadget_at_def g div ext [simplified])
    moreover have "alive N i s'" using s by (simp add: s' alive_def)
    ultimately show ?thesis
      using full c s'(2) s(1) stage
      by (intro conjI exI [of _ "round_view N i ?r"] exI [of _ ?g] exI [of _ g]) (simp_all add: s'(1))
  next
    case True
    then have full: "Suc c mod ?n = 0" and div: "Suc c div ?n = Suc ?r" by (simp_all add: mod_Suc div_Suc)
    have Suc_c: "Suc c = Suc ?r * ?n" using True by (metis div full mod_div_trivial add_0_right div_mult_mod_eq)
    let ?ms = "map (echo_view N i) (?seen @ [taken ! c])"
    have "mset (?seen @ [taken ! c]) = mset (map (\<lambda>j. (j, ?r)) [0..<?n])"
    proof -
      have "?seen @ [taken ! c] = take ?n (drop (?r * ?n) taken)"
        using ext by (simp add: Suc_c take_drop add.commute)
      moreover have "0 < ?n" "Suc ?r * ?n \<le> length taken" using n c Suc_c by linarith+
      ultimately show ?thesis using taken_round [OF ok(3), of ?r] by simp
    qed
    then have ms: "mset ?ms = mset (round_view N i ?r)"
      by (simp only: mset_map round_view_def) (simp add: image_mset.compositionality comp_def)
    note view = round_view_echo [OF ok(1,2) ms]
    have "mset ?ms = mset (eg_msgs ?g)" by simp
    from emit_echo_eq [OF view(2) this, of "ne_hash N", unfolded view(1)]
    have emit: "emit_echo (ne_hash N) (\<lambda>_. True) ?g =
        (Inr (?g\<lparr>eg_msgs := []\<rparr>, Awaiting ?r (ne_hash N (round_input N ?r)) [] :: 'pid echo_stage),
         echo_acks (ne_hash N (round_input N ?r)) ?ms)" .
    have "length (eg_msgs ?g) = eg_n ?g" using True seen g by simp
    then have "proceed_message (ne_hash N) (\<lambda>_. True) ?m g =
        (Waiting (?g\<lparr>eg_msgs := []\<rparr>) (Awaiting ?r (ne_hash N (round_input N ?r)) []) ::
           ('pid, string) echo_result, echo_acks (ne_hash N (round_input N ?r)) ?ms)"
      unfolding proceed_message_def heap_push_def Let_def using g emit by simp
    then have "session_step P (ne_hash N) checks (\<lambda>_. True) SeReceive (s, fs) =
        Some (?s\<lparr>se_echo := Running (?g\<lparr>eg_msgs := []\<rparr>) (Awaiting ?r (ne_hash N (round_input N ?r)) [])\<rparr>,
          fs, map (\<lambda>(tx, resp). SeAcked tx resp) (echo_acks (ne_hash N (round_input N ?r)) ?ms))"
      using s(1) stage q by (simp add: session_step_def after_round_def session_wrapped_def)
    with step have s': "s' = ?s\<lparr>se_echo := Running (?g\<lparr>eg_msgs := []\<rparr>)
        (Awaiting ?r (ne_hash N (round_input N ?r)) [])\<rparr>"
      "eff = map (\<lambda>(tx, resp). SeAcked tx resp) (echo_acks (ne_hash N (round_input N ?r)) ?ms)" by simp_all
    have "gadget_at N i taken s' (Suc c)"
      using c n Suc_c by (simp add: s' gadget_at_def g)
    moreover have "alive N i s'" using s by (simp add: s' alive_def)
    moreover have "acks_sent eff = echo_acks (ne_hash N (round_input N ?r)) ?ms" by (simp add: s'(2))
    ultimately show ?thesis
      using full c ms s(1) stage
      by (intro conjI exI [of _ ?ms] exI [of _ "?g\<lparr>eg_msgs := []\<rparr>"] exI [of _ g]) (simp_all add: s'(1))
  qed
qed

lemma taken_round_bound:
  assumes "taken_ok N taken" and "0 < parties N" and "Suc r * parties N \<le> length taken"
  shows "r < ne_rounds N"
proof -
  have "r * parties N < length taken" using assms(2,3) unfolding mult_Suc by linarith
  with assms(1,2) show ?thesis by (auto simp: taken_ok_def)
qed

lemma reply_session:
  fixes s :: "('pid, 'done) session"
  assumes ok: "net_ok N" "i < parties N" "taken_ok N taken" and live: "alive N i s"
    and at: "gadget_at N i taken s c"
    and stage: "se_echo s = Running g (Awaiting rx h hashes)" and x: "agreed N rx x"
    and step: "session_step P H (ne_checks N) (\<lambda>_. True) (SeReply x) (s, fs) = Some (s', fs', eff)"
  shows "alive N i s' \<and> gadget_at N i taken s' c \<and> eff = [] \<and> rx < ne_rounds N \<and>
    se_queue s' = se_queue s \<and> c = Suc rx * parties N \<and>
    (if Suc (length hashes) = parties N - 1 then \<exists>g'. se_echo s' = Running g' Collecting
     else se_echo s' = Running g (Awaiting rx h (hashes @ [x])))"
proof -
  let ?n = "parties N"
  have n: "2 \<le> ?n" by (rule net_okD(1) [OF ok(1)])
  from live have s: "se_n s = ?n" "se_exec s = \<lparr>pe_state = Some (ne_states N i)\<rparr>" by (auto simp: alive_def)
  from at stage have c: "c = Suc rx * ?n" "c \<le> length taken"
    and g: "g = \<lparr>eg_r = word_of_nat rx, eg_n = ?n, eg_msgs = []\<rparr>"
    and h: "h = ne_hash N (round_input N rx)" and len: "length hashes < ?n - 1"
    and hs: "\<forall>x \<in> set hashes. agreed N rx x"
    by (simp_all add: gadget_at_def)
  have rx: "rx < ne_rounds N" by (rule taken_round_bound [OF ok(3)]) (use n c in auto)
  then have add: "u16_add (ne_checks N) (word_of_nat rx) 1 = Inr (word_of_nat (Suc rx))"
    using net_okD(2) [OF ok(1)] by (intro u16_add_nat) simp
  show ?thesis
  proof (cases "Suc (length hashes) = ?n - 1")
    case False
    have "session_step P H (ne_checks N) (\<lambda>_. True) (SeReply x) (s, fs) =
        Some (s\<lparr>se_echo := Running g (Awaiting rx h (hashes @ [x]))\<rparr>, fs, [])"
      using stage False g by (simp add: session_step_def proceed_reply_def Let_def after_round_def
          session_wrapped_def)
    with step have s': "s' = s\<lparr>se_echo := Running g (Awaiting rx h (hashes @ [x]))\<rparr>" "eff = []" by simp_all
    have "gadget_at N i taken s' c" using at stage False len x hs by (simp add: gadget_at_def s')
    moreover have "alive N i s'" using s by (simp add: s' alive_def)
    ultimately show ?thesis using s' False rx c by simp
  next
    case True
    have "check_echoes h 0 (hashes @ [x]) = (Inr () :: string rt_error + unit)"
      using hs x by (auto simp: check_echoes_ok agreed_def h)
    then have "session_step P H (ne_checks N) (\<lambda>_. True) (SeReply x) (s, fs) =
        Some (s\<lparr>se_echo := Running (g\<lparr>eg_r := word_of_nat (Suc rx)\<rparr>) Collecting\<rparr>, fs, [])"
      using stage True g add by (simp add: session_step_def proceed_reply_def Let_def after_round_def
          session_wrapped_def del: of_nat_Suc)
    with step have s': "s' = s\<lparr>se_echo := Running (g\<lparr>eg_r := word_of_nat (Suc rx)\<rparr>) Collecting\<rparr>" "eff = []"
      by simp_all
    have "0 < ?n" using n by linarith
    then have "c div ?n = Suc rx" using c(1) by (metis nonzero_mult_div_cancel_right less_numeral_extra(3))
    moreover have "drop (Suc rx * ?n) (take c taken) = []" using c by simp
    ultimately have "gadget_at N i taken s' c" using at by (simp add: gadget_at_def s' g del: of_nat_Suc)
    moreover have "alive N i s'" using s by (simp add: s' alive_def)
    ultimately show ?thesis using s' True rx c by simp
  qed
qed

section \<open>Steps as equations\<close>

lemma net_send_eq:
  assumes "net_ok N" and "i < parties N" and "nt_sent net i < ne_rounds N"
    and "has_rounds N (nt_sent net i) (nt_taken net i)" and "alive N i (nt_sessions net i)"
    and "length (se_queue (nt_sessions net i)) \<le> parties N"
  shows "net_step N ordered (NetSend i) net = Some (net
    \<lparr>nt_sessions := (nt_sessions net)(i := (nt_sessions net i)\<lparr>se_queue :=
       se_queue (nt_sessions net i) @ [echo_view N i (i, nt_sent net i)]\<rparr>),
     nt_flight := nt_flight net @ map (\<lambda>k. (i, k, nt_sent net i, ne_body N (nt_sent net i) i))
       (filter (\<lambda>k. k \<noteq> i) [0..<parties N]),
     nt_sent := (nt_sent net)(i := Suc (nt_sent net i)),
     nt_taken := (nt_taken net)(i := nt_taken net i @ [(i, nt_sent net i)])\<rparr>)"
  using assms(2-4,6) send_session [OF assms(1,2,5), of "\<lambda>_. True" "nt_sent net i" "ne_fs N"]
    under_way_send [OF assms(1,2)]
  by (simp add: net_step_def party_step_def taken_up_def Let_def)

lemma net_deliver_eq:
  assumes "net_ok N" and "k < length (nt_flight net)" and "nt_flight net ! k = (j, i, r, b)"
    and "i < parties N" and "j < parties N" and "j \<noteq> i \<and> b = ne_body N r j" and "ordered \<longrightarrow> has_rounds N r (nt_taken net i)"
    and "alive N i (nt_sessions net i)" and "length (se_queue (nt_sessions net i)) \<le> parties N"
  shows "net_step N ordered (NetDeliver k) net = Some (net
    \<lparr>nt_sessions := (nt_sessions net)(i := (nt_sessions net i)\<lparr>se_queue :=
       se_queue (nt_sessions net i) @ [echo_view N i (j, r)]\<rparr>),
     nt_flight := remove_nth k (nt_flight net),
     nt_taken := (nt_taken net)(i := nt_taken net i @ [(j, r)])\<rparr>)"
proof -
  obtain inp where inp: "deliver_input N i j r (ne_body N r j) = Some inp"
    using deliver_input_eq [OF assms(1,4,5)] by blast
  show ?thesis
    using assms(2,3,6,7,9) inp
      deliver_session [OF assms(1,4,5) conjunct1 [OF assms(6)] assms(8) inp, of "\<lambda>_. True" "ne_fs N"]
    by (auto simp: net_step_def party_step_def taken_up_def)
qed

lemma net_receive_eq:
  fixes net :: "('pid, 'done) net"
  assumes "i < parties N" and "se_echo (nt_sessions net i) = Running g Collecting"
    and "se_queue (nt_sessions net i) = m # ms"
    and "wrap_step (ne_hash N) (ne_checks N) (\<lambda>_. True) (EvMessage m) (Running g Collecting) =
      (Running g' stage :: ('pid, string) wrapped, sent)"
  shows "net_step N ordered (NetReceive i) net = Some (net
    \<lparr>nt_sessions := (nt_sessions net)(i := (nt_sessions net i)\<lparr>se_queue := ms, se_echo := Running g' stage\<rparr>),
     nt_replies := route_acks N i sent (nt_replies net)\<rparr>)"
  using assms
  by (simp add: net_step_def party_step_def session_step_def session_wrapped_def del: wrap_step.simps)

lemma net_reply_eq:
  fixes net :: "('pid, 'done) net"
  assumes "i < parties N" and "se_echo (nt_sessions net i) = Running g (Awaiting rx h hashes)"
    and "k < length (nt_replies net i rx)"
    and "wrap_step (ne_hash N) (ne_checks N) (\<lambda>_. True) (EvReply (nt_replies net i rx ! k))
      (Running g (Awaiting rx h hashes)) = (w, [])"
  shows "net_step N ordered (NetReply i k) net = Some (net
    \<lparr>nt_sessions := (nt_sessions net)(i := fst (session_wrapped (w, []) (nt_sessions net i) ::
       ('pid, 'done) session \<times> ('pid, 'done) session_effect list)),
     nt_replies := (nt_replies net)(i := (nt_replies net i)(rx := remove_nth k (nt_replies net i rx)))\<rparr>)"
  using assms by (auto simp: net_step_def party_step_def session_step_def split: prod.splits)

text \<open>A sample computation of the parties \<open>ps\<close>.\<close>

definition sample_net :: "(bytes \<Rightarrow> bytes) \<Rightarrow> byte list \<Rightarrow> (nat \<Rightarrow> nat \<Rightarrow> bytes) \<Rightarrow> nat \<Rightarrow> (byte, nat) net_env" where
  "sample_net H ps body R =
     \<lparr>ne_pid = sample_pid, ne_hash = H, ne_checks = True, ne_peers = ps,
      ne_states = (\<lambda>i. \<lparr>ex_room_id = RoomId ''ab'', ex_local_peer_id = ps ! i, ex_protocol_id = 1,
        ex_session_id = 0, ex_parties = peerset_new sample_pid ps (ps ! i),
        ex_cacher = persistent_new [''tmp''] (ps ! i), ex_on_done = None, ex_i = word_of_nat i,
        ex_n = word_of_nat (length ps)\<rparr>),
      ne_proxies = (\<lambda>i. \<lparr>rp_id = RoomId ''ab'', rp_rx = Some 1, rp_tx = 11,
        rp_service = \<lparr>ns_local_peer_id = ps ! i\<rparr>, rp_parties = peerset_new sample_pid ps (ps ! i)\<rparr>),
      ne_body = body, ne_rounds = R, ne_fs = no_files\<rparr>"

lemma sample_net_ok: "net_ok (sample_net H [4, 9] body 1)" "net_ok (sample_net H [4, 9, 12] body 2)"
proof -
  have two: "i = 0 \<or> i = 1" if "i < Suc (Suc 0)" for i using that by linarith
  have three: "i = 0 \<or> i = 1 \<or> i = 2" if "i < Suc (Suc (Suc 0))" for i using that by linarith
  show "net_ok (sample_net H [4, 9] body 1)"
    by (auto simp: net_ok_def sample_net_def exec_wf_def Let_def dest!: two)
  show "net_ok (sample_net H [4, 9, 12] body 2)"
    by (auto simp: net_ok_def sample_net_def exec_wf_def Let_def dest!: three)
qed

lemma sample_fields [simp]:
  "ne_peers (sample_net H ps body R) = ps" "ne_hash (sample_net H ps body R) = H"
  "ne_checks (sample_net H ps body R)" "ne_body (sample_net H ps body R) = body"
  "ne_rounds (sample_net H ps body R) = R"
  by (simp_all add: sample_net_def)

lemma alive_sample:
  "alive N i \<lparr>se_n = n, se_queue = q, se_echo = w, se_exec = e\<rparr> \<longleftrightarrow>
     (\<exists>g stage. w = Running g stage) \<and> n = parties N \<and> e = \<lparr>pe_state = Some (ne_states N i)\<rparr>"
  by (cases w) (auto simp: alive_def)

lemma em_cmp_unat: "em_cmp a b \<longleftrightarrow> unat (em_sender a) \<le> unat (em_sender b)"
  by (simp add: em_cmp_def word_le_nat_alt)

lemmas run_simps = net_receive_eq net_reply_eq net_start_def has_rounds_def alive_sample wrap_start_def
  remove_nth_def proceed_message_def heap_push_def Let_def after_round_def echo_gadget_new_def emit_echo_def
  drain_heap.simps drain_one_def em_cmp_unat echo_view_def proceed_reply_def u16_add_def session_wrapped_def

end
