(* ===== verification/Rounds.thy ===== *)
theory Rounds
  imports Party_Network
begin

text \<open>
  The rounds of the echo among honest parties, if the network delivers the broadcasts of a round
  before those of the next: an invariant of the network, the accounting of broadcasts and replies,
  and that all rounds complete if the parties keep the pace as well, so that no channel overflows.
\<close>

section \<open>The network's invariant\<close>

text \<open>How many broadcasts the gadget of a party has taken from its channel.\<close>

definition consumed :: "('pid, 'done) net \<Rightarrow> nat \<Rightarrow> nat" where
  "consumed net i = length (nt_taken net i) - length (se_queue (nt_sessions net i))"

definition overflowed :: "('pid, 'done) net_env \<Rightarrow> ('pid, 'done) session \<Rightarrow> bool" where
  "overflowed N s \<longleftrightarrow> se_echo s = WrapPanicked ExpectFailed \<and> 1 < ne_rounds N"

definition party_ok :: "('pid, 'done) net_env \<Rightarrow> ('pid, 'done) net \<Rightarrow> nat \<Rightarrow> bool" where
  "party_ok N net i \<longleftrightarrow>
     taken_ok N (nt_taken net i) \<and> (\<forall>(j, r) \<in> set (nt_taken net i). r < nt_sent net j) \<and>
     (overflowed N (nt_sessions net i) \<or>
      alive N i (nt_sessions net i) \<and>
        gadget_at N i (nt_taken net i) (nt_sessions net i) (consumed net i))"

definition flight_ok :: "('pid, 'done) net_env \<Rightarrow> ('pid, 'done) net \<Rightarrow> bool" where
  "flight_ok N net \<longleftrightarrow> distinct (nt_flight net) \<and>
     (\<forall>(j, i, r, b) \<in> set (nt_flight net). j < parties N \<and> i < parties N \<and> j \<noteq> i \<and> r < nt_sent net j \<and>
        r < ne_rounds N \<and> b = ne_body N r j \<and> (j, r) \<notin> set (nt_taken net i))"

definition replies_ok :: "('pid, 'done) net_env \<Rightarrow> ('pid, 'done) net \<Rightarrow> bool" where
  "replies_ok N net \<longleftrightarrow> (\<forall>j r. \<forall>x \<in> set (nt_replies net j r). agreed N r x)"

definition net_inv :: "('pid, 'done) net_env \<Rightarrow> ('pid, 'done) net \<Rightarrow> bool" where
  "net_inv N net \<longleftrightarrow> (\<forall>i < parties N. party_ok N net i) \<and> flight_ok N net \<and> replies_ok N net"

lemma gadget_at_consumed: "gadget_at N i (nt_taken net i) (nt_sessions net i) c \<Longrightarrow> consumed net i = c"
  by (simp add: gadget_at_def consumed_def)

lemma party_okI:
  assumes "taken_ok N (nt_taken net i)" and "\<forall>(j, r) \<in> set (nt_taken net i). r < nt_sent net j"
    and "alive N i (nt_sessions net i)" and "gadget_at N i (nt_taken net i) (nt_sessions net i) c"
  shows "party_ok N net i"
  using assms gadget_at_consumed [OF assms(4)] by (simp add: party_ok_def)

lemma party_ok_frame:
  assumes "party_ok N net i" and "nt_taken net' i = nt_taken net i"
    and "nt_sessions net' i = nt_sessions net i" and "\<And>j. nt_sent net j \<le> nt_sent net' j"
  shows "party_ok N net' i"
  using assms by (fastforce simp: party_ok_def consumed_def dest: order_less_le_trans)

lemma has_rounds_length:
  assumes "has_rounds N r taken" and "distinct taken"
  shows "r * parties N \<le> length taken"
proof -
  have "{0..<parties N} \<times> {0..<r} \<subseteq> set taken" using assms(1) by (auto simp: has_rounds_def)
  then have "card ({0..<parties N} \<times> {0..<r}) \<le> card (set taken)" by (rule card_mono [rotated]) simp
  then show ?thesis using distinct_card [OF assms(2)] by (simp add: mult.commute)
qed

lemma taken_snoc:
  assumes "taken_ok N taken" and "has_rounds N r taken" and "(j, r) \<notin> set taken" and "j < parties N"
    and "r < ne_rounds N"
  shows "taken_ok N (taken @ [(j, r)])" and "length taken < Suc r * parties N"
proof -
  have lower: "r * parties N \<le> length taken"
    using has_rounds_length [OF assms(2)] assms(1) by (simp add: taken_ok_def)
  show upper: "length taken < Suc r * parties N"
  proof (rule ccontr)
    assume "\<not> length taken < Suc r * parties N"
    then have "mset (take (parties N) (drop (r * parties N) taken)) = mset (map (\<lambda>j. (j, r)) [0..<parties N])"
      using assms(1,4) by (intro taken_round) auto
    then have "set (take (parties N) (drop (r * parties N) taken)) = set (map (\<lambda>j. (j, r)) [0..<parties N])"
      by (rule mset_eq_setD)
    then have "(j, r) \<in> set (take (parties N) (drop (r * parties N) taken))" using assms(4) by auto
    then show False using assms(3) by (meson in_set_dropD in_set_takeD)
  qed
  have "length taken div parties N = r"
    using lower upper by (intro div_nat_eqI) (simp_all add: mult.commute)
  then show "taken_ok N (taken @ [(j, r)])"
    using assms by (auto simp: taken_ok_def nth_append less_Suc_eq)
qed

lemma gadget_at_snoc:
  "gadget_at N i taken s c \<Longrightarrow>
   gadget_at N i (taken @ [x]) (s\<lparr>se_queue := se_queue s @ [echo_view N i x]\<rparr>) c"
  by (auto simp: gadget_at_def split: wrapped.splits echo_stage.splits)

lemma alive_queue [simp]: "alive N i (s\<lparr>se_queue := q\<rparr>) = alive N i s"
  by (simp add: alive_def)

text \<open>A broadcast is handed to the gadget of party \<open>i\<close>, or the channel is full.\<close>

definition handed_on ::
  "('pid, 'done) net_env \<Rightarrow> nat \<Rightarrow> nat \<times> nat \<Rightarrow> ('pid, 'done) net \<Rightarrow> ('pid, 'done) net \<Rightarrow> bool" where
  "handed_on N i x net net' \<longleftrightarrow>
     (\<forall>k. k \<noteq> i \<longrightarrow> nt_sessions net' k = nt_sessions net k \<and> nt_taken net' k = nt_taken net k) \<and>
     (if parties N < length (se_queue (nt_sessions net i)) then
        nt_sessions net' i = session_end (WrapPanicked ExpectFailed) (nt_sessions net i) \<and>
        nt_taken net' i = nt_taken net i
      else nt_sessions net' i = (nt_sessions net i)\<lparr>se_queue := se_queue (nt_sessions net i) @ [echo_view N i x]\<rparr> \<and>
        nt_taken net' i = nt_taken net i @ [x])"

lemma handed_on_party_ok:
  assumes "party_ok N net i" and "alive N i (nt_sessions net i)" and "handed_on N i (j, r) net net'"
    and "has_rounds N r (nt_taken net i)" and "(j, r) \<notin> set (nt_taken net i)" and "j < parties N"
    and "r < ne_rounds N" and "r < nt_sent net' j" and "\<And>k. nt_sent net k \<le> nt_sent net' k"
  shows "party_ok N net' i"
proof -
  let ?s = "nt_sessions net i" and ?taken = "nt_taken net i"
  from assms(2) have "\<not> overflowed N ?s" by (auto simp: alive_def overflowed_def)
  with assms(1) have taken: "taken_ok N ?taken" "\<forall>(j, r) \<in> set ?taken. r < nt_sent net j"
    and at: "gadget_at N i ?taken ?s (consumed net i)" by (auto simp: party_ok_def)
  note snoc = taken_snoc [OF taken(1) assms(4-7)]
  have sent: "\<forall>(j, r) \<in> set ?taken. r < nt_sent net' j"
    using taken(2) assms(9) by (fastforce dest: order_less_le_trans)
  show ?thesis
  proof (cases "parties N < length (se_queue ?s)")
    case True
    have "length (se_queue ?s) \<le> length ?taken" using at by (simp add: gadget_at_def)
    with True snoc(2) have "r \<noteq> 0" by (cases r) auto
    then have "1 < ne_rounds N" using assms(7) by simp
    with True assms(3) taken(1) sent show ?thesis by (simp add: handed_on_def party_ok_def overflowed_def)
  next
    case False
    with assms(3) have net': "nt_sessions net' i = ?s\<lparr>se_queue := se_queue ?s @ [echo_view N i (j, r)]\<rparr>"
      "nt_taken net' i = ?taken @ [(j, r)]" by (simp_all add: handed_on_def)
    show ?thesis
      by (rule party_okI [where c = "consumed net i"])
         (use net' snoc(1) sent assms(2,8) gadget_at_snoc [OF at] in auto)
  qed
qed

lemma alive_of_step:
  assumes "party_ok N net i" and "session_step P H checks open_tx ev (nt_sessions net i, fs) \<noteq> None"
  shows "alive N i (nt_sessions net i)"
    and "gadget_at N i (nt_taken net i) (nt_sessions net i) (consumed net i)"
    and "taken_ok N (nt_taken net i)"
proof -
  from assms(2) have "echo_running (nt_sessions net i)"
    by (rule contrapos_np) (rule session_step_not_running)
  then have "\<not> overflowed N (nt_sessions net i)" by (auto simp: overflowed_def)
  with assms(1) show "alive N i (nt_sessions net i)"
    and "gadget_at N i (nt_taken net i) (nt_sessions net i) (consumed net i)"
    and "taken_ok N (nt_taken net i)" by (auto simp: party_ok_def)
qed

text \<open>What a send and a delivery do, in any state whose running sessions are alive.\<close>

definition sessions_ok :: "('pid, 'done) net_env \<Rightarrow> ('pid, 'done) net \<Rightarrow> bool" where
  "sessions_ok N net \<longleftrightarrow>
     (\<forall>i < parties N. echo_running (nt_sessions net i) \<longrightarrow> alive N i (nt_sessions net i))"

lemma sessions_ok_step:
  assumes "sessions_ok N net" and "i < parties N"
    and "session_step P H checks open_tx ev (nt_sessions net i, fs) \<noteq> None"
  shows "alive N i (nt_sessions net i)"
proof -
  from assms(3) have "echo_running (nt_sessions net i)"
    by (rule contrapos_np) (rule session_step_not_running)
  with assms(1,2) show ?thesis by (simp add: sessions_ok_def)
qed

lemma net_inv_sessions: "net_inv N net \<Longrightarrow> sessions_ok N net"
  by (fastforce simp: net_inv_def sessions_ok_def party_ok_def overflowed_def)

lemma send_step:
  assumes "net_ok N" and "sessions_ok N net" and "net_step N ordered (NetSend i) net = Some net'"
  defines "r \<equiv> nt_sent net i"
  shows "i < parties N" and "r < ne_rounds N" and "has_rounds N r (nt_taken net i)"
    and "alive N i (nt_sessions net i)" and "handed_on N i (i, r) net net'"
    and "nt_sent net' = (nt_sent net)(i := Suc r)" and "nt_replies net' = nt_replies net"
    and "nt_flight net' = nt_flight net @ (if parties N < length (se_queue (nt_sessions net i)) then []
      else map (\<lambda>k. (i, k, r, ne_body N r i)) (filter (\<lambda>k. k \<noteq> i) [0..<parties N]))"
proof -
  let ?s = "nt_sessions net i"
  from assms(3) show i: "i < parties N" and "r < ne_rounds N" and "has_rounds N r (nt_taken net i)"
    by (auto simp: net_step_def Let_def r_def split: if_splits)
  from assms(3) have "session_step (ne_pid N) (ne_hash N) (ne_checks N) (\<lambda>_. True)
      (SePoll (send_input N i r)) (?s, ne_fs N) \<noteq> None"
    by (auto simp: net_step_def Let_def r_def party_step_def split: if_splits option.splits)
  then show live: "alive N i ?s" by (rule sessions_ok_step [OF assms(2) i])
  note step = send_session [OF assms(1) i live, of "\<lambda>_. True" r "ne_fs N"]
  note under = under_way_send [OF assms(1) i, of r]
  from assms(3) step under show "handed_on N i (i, r) net net'"
    and "nt_sent net' = (nt_sent net)(i := Suc r)" and "nt_replies net' = nt_replies net"
    and "nt_flight net' = nt_flight net @ (if parties N < length (se_queue ?s) then []
      else map (\<lambda>k. (i, k, r, ne_body N r i)) (filter (\<lambda>k. k \<noteq> i) [0..<parties N]))"
    by (auto simp: net_step_def Let_def r_def [symmetric] party_step_def handed_on_def taken_up_def
        dropped_def under_way_def split: if_splits option.splits)
qed

lemmas net_send_step = send_step [OF _ net_inv_sessions]

lemma deliver_step:
  assumes "net_ok N" and "sessions_ok N net" and "flight_ok N net"
    and "net_step N ordered (NetDeliver k) net = Some net'"
  obtains j i r where "k < length (nt_flight net)" "nt_flight net ! k = (j, i, r, ne_body N r j)"
    "i < parties N" "j < parties N" "r < nt_sent net j" "r < ne_rounds N" "(j, r) \<notin> set (nt_taken net i)"
    "alive N i (nt_sessions net i)" "ordered \<longrightarrow> has_rounds N r (nt_taken net i)"
    "handed_on N i (j, r) net net'" "nt_flight net' = remove_nth k (nt_flight net)"
    "nt_sent net' = nt_sent net" "nt_replies net' = nt_replies net" "j \<noteq> i"
proof -
  obtain j i r b where k: "k < length (nt_flight net)" "nt_flight net ! k = (j, i, r, b)"
    using assms(4) by (auto simp: net_step_def split: if_splits prod.splits)
  then have "(j, i, r, b) \<in> set (nt_flight net)" by (metis nth_mem)
  with assms(3) have f: "j < parties N" "i < parties N" "j \<noteq> i" "r < nt_sent net j" "r < ne_rounds N"
    "b = ne_body N r j" "(j, r) \<notin> set (nt_taken net i)"
    by (auto simp: flight_ok_def)
  let ?s = "nt_sessions net i"
  obtain inp where inp: "deliver_input N i j r (ne_body N r j) = Some inp"
    using deliver_input_eq [OF assms(1) f(2,1)] by blast
  from assms(4) k f(6) inp have ord: "ordered \<longrightarrow> has_rounds N r (nt_taken net i)"
    and "session_step (ne_pid N) (ne_hash N) (ne_checks N) (\<lambda>_. True) (SePoll inp) (?s, ne_fs N) \<noteq> None"
    by (auto simp: net_step_def party_step_def split: if_splits option.splits)
  from this(2) have live: "alive N i ?s" by (rule sessions_ok_step [OF assms(2) f(2)])
  note step = deliver_session [OF assms(1) f(2,1,3) live inp, of "\<lambda>_. True" "ne_fs N"]
  from assms(4) step k f(6) inp have "handed_on N i (j, r) net net'"
    and "nt_flight net' = remove_nth k (nt_flight net)"
    and "nt_sent net' = nt_sent net" and "nt_replies net' = nt_replies net"
    by (auto simp: net_step_def party_step_def handed_on_def taken_up_def dropped_def
        split: if_splits option.splits)
  with that k f ord live show thesis by blast
qed

lemma net_deliver_step:
  assumes "net_ok N" and "net_inv N net" and "net_step N ordered (NetDeliver k) net = Some net'"
  obtains j i r where "k < length (nt_flight net)" "nt_flight net ! k = (j, i, r, ne_body N r j)"
    "i < parties N" "j < parties N" "r < nt_sent net j" "r < ne_rounds N" "(j, r) \<notin> set (nt_taken net i)"
    "alive N i (nt_sessions net i)" "ordered \<longrightarrow> has_rounds N r (nt_taken net i)"
    "handed_on N i (j, r) net net'" "nt_flight net' = remove_nth k (nt_flight net)"
    "nt_sent net' = nt_sent net" "nt_replies net' = nt_replies net"
proof -
  have "flight_ok N net" using assms(2) by (simp add: net_inv_def)
  from deliver_step [OF assms(1) net_inv_sessions [OF assms(2)] this assms(3)] that show thesis by metis
qed

text \<open>What is under way stays as it should be.\<close>

lemma flight_ok_send:
  assumes "flight_ok N net" and i: "i < parties N" "r < ne_rounds N" and r: "r = nt_sent net i"
    and new: "\<And>k. k < parties N \<Longrightarrow> (i, r) \<notin> set (nt_taken net k)"
    and hand: "handed_on N i (i, r) net net'" and sent': "nt_sent net' = (nt_sent net)(i := Suc r)"
    and flight': "nt_flight net' = nt_flight net @ (if full then []
      else map (\<lambda>k. (i, k, r, ne_body N r i)) (filter (\<lambda>k. k \<noteq> i) [0..<parties N]))"
  shows "flight_ok N net'"
proof -
  let ?new = "map (\<lambda>k. (i, k, r, ne_body N r i)) (filter (\<lambda>k. k \<noteq> i) [0..<parties N])"
  have "distinct ?new" by (simp add: distinct_map inj_on_def)
  moreover have "set (nt_flight net) \<inter> set ?new = {}" using assms(1) r by (fastforce simp: flight_ok_def)
  ultimately have "distinct (nt_flight net')" using assms(1) by (simp add: flight' flight_ok_def)
  moreover have "j < parties N \<and> m < parties N \<and> j \<noteq> m \<and>
      s < nt_sent net' j \<and> s < ne_rounds N \<and> b = ne_body N s j \<and> (j, s) \<notin> set (nt_taken net' m)"
    if f: "(j, m, s, b) \<in> set (nt_flight net')" for j m s b
  proof -
    from f consider "(j, m, s, b) \<in> set (nt_flight net)"
      | "j = i" "m < parties N" "m \<noteq> i" "s = r" "b = ne_body N r i"
      by (auto simp: flight' split: if_splits)
    then show ?thesis
    proof cases
      case 1
      with assms(1) have old: "j < parties N" "m < parties N" "j \<noteq> m" "s < nt_sent net j" "s < ne_rounds N"
        "b = ne_body N s j" "(j, s) \<notin> set (nt_taken net m)" by (auto simp: flight_ok_def)
      moreover have "(j, s) \<notin> set (nt_taken net' m)"
        using hand old(3,4,7) r by (cases "m = i") (auto simp: handed_on_def split: if_splits)
      ultimately show ?thesis using r by (auto simp: sent')
    next
      case 2
      with new [of m] hand have "(j, s) \<notin> set (nt_taken net' m)" by (auto simp: handed_on_def)
      with 2 i show ?thesis by (simp add: sent')
    qed
  qed
  ultimately show ?thesis by (auto simp: flight_ok_def)
qed

lemma flight_ok_deliver:
  assumes "flight_ok N net" and k: "k < length (nt_flight net)" "nt_flight net ! k = (j, i, r, ne_body N r j)"
    and hand: "handed_on N i (j, r) net net'" and flight': "nt_flight net' = remove_nth k (nt_flight net)"
    and sent': "nt_sent net' = nt_sent net"
  shows "flight_ok N net'"
proof -
  let ?x = "(j, i, r, ne_body N r j)"
  have mset: "mset (nt_flight net) = mset (?x # nt_flight net')"
    using mset_remove_nth [OF k(1)] k(2) flight' by simp
  have "distinct (?x # nt_flight net')"
    using assms(1) mset_eq_imp_distinct_iff [OF mset] by (simp add: flight_ok_def)
  then have dist: "distinct (nt_flight net')" and fresh: "?x \<notin> set (nt_flight net')" by simp_all
  have "j' < parties N \<and> m < parties N \<and> j' \<noteq> m \<and> r' < nt_sent net' j' \<and> r' < ne_rounds N \<and>
      b = ne_body N r' j' \<and> (j', r') \<notin> set (nt_taken net' m)"
    if x: "(j', m, r', b) \<in> set (nt_flight net')" for j' m r' b
  proof -
    from x mset_eq_setD [OF mset] have "(j', m, r', b) \<in> set (nt_flight net)" by auto
    with assms(1) have old: "j' < parties N" "m < parties N" "j' \<noteq> m" "r' < nt_sent net j'" "r' < ne_rounds N"
      "b = ne_body N r' j'" "(j', r') \<notin> set (nt_taken net m)" by (auto simp: flight_ok_def)
    moreover have "(j', r') \<notin> set (nt_taken net' m)"
      using hand old(6,7) fresh x by (cases "m = i") (auto simp: handed_on_def split: if_splits)
    ultimately show ?thesis by (simp add: sent')
  qed
  with dist show ?thesis by (auto simp: flight_ok_def)
qed

text \<open>Acknowledgements of party \<open>i\<close> for a round reach the other parties, each once.\<close>

lemma route_acks_map:
  "route_acks N i (map (\<lambda>tx. (tx, \<lparr>or_result = Inr h, or_sent_feedback = fb\<rparr>)) txs) replies j r =
   replies j r @ concat (map (\<lambda>tx. if tx mod parties N = j \<and> tx div parties N = r
     then [Inr (ne_peers N ! i, h)] else []) txs)"
  by (induction txs arbitrary: replies) (auto simp: Let_def)

lemma round_acks:
  assumes "net_ok N" and "mset ms = mset (round_view N i r)"
  shows "route_acks N i (echo_acks h ms) replies j r' =
    replies j r' @ (if j < parties N \<and> j \<noteq> i \<and> r' = r then [Inr (ne_peers N ! i, h)] else [])"
proof -
  let ?n = "parties N" and ?txs = "concat (map incoming_ack (echo_order ms))"
  let ?all = "map (\<lambda>j. r * ?n + j) (filter (\<lambda>j. j \<noteq> i) [0..<?n])"
  have n: "0 < ?n" using net_okD(1) [OF assms(1)] by linarith
  have "incoming_ack (echo_view N i (j, r)) = (if j \<noteq> i then [r * ?n + j] else [])" for j
    by (simp add: echo_view_def incoming_ack_def)
  then have "concat (map incoming_ack (round_view N i r)) =
      concat (map (\<lambda>j. if j \<noteq> i then [r * ?n + j] else []) [0..<?n])"
    by (simp add: round_view_def comp_def)
  also have "\<dots> = ?all"
  proof -
    have "concat (map (\<lambda>j. if j \<noteq> i then [r * ?n + j] else []) xs) =
        map (\<lambda>j. r * ?n + j) (filter (\<lambda>j. j \<noteq> i) xs)" for xs by (induction xs) auto
    then show ?thesis .
  qed
  finally have "mset ?txs = mset ?all"
    by (metis assms(2) concat_map_order mset_concat_map)
  moreover have "distinct ?all" by (simp add: distinct_map inj_on_def)
  ultimately have dist: "distinct ?txs" and set: "set ?txs = set ?all"
    by (metis mset_eq_imp_distinct_iff, metis mset_eq_setD)
  have routed: "concat (map (\<lambda>tx. if tx = t then [x] else []) ?txs) = (if t \<in> set ?all then [x] else [])"
    for t and x :: "'a reply" using concat_map_single [OF dist, of t x] unfolding set .
  show ?thesis
  proof (cases "j < ?n")
    case True
    have "(tx mod ?n = j \<and> tx div ?n = r') = (tx = r' * ?n + j)" for tx
    proof
      assume "tx mod ?n = j \<and> tx div ?n = r'"
      then show "tx = r' * ?n + j" by (metis div_mult_mod_eq)
    next
      assume "tx = r' * ?n + j"
      then show "tx mod ?n = j \<and> tx div ?n = r'" using True n by (simp add: div_mult_self3)
    qed
    moreover have "r' * ?n + j \<in> set ?all \<longleftrightarrow> j \<noteq> i \<and> r' = r"
    proof
      assume "r' * ?n + j \<in> set ?all"
      then obtain k where k: "k < ?n" "k \<noteq> i" "r' * ?n + j = r * ?n + k" by auto
      from k(3) have "(r' * ?n + j) mod ?n = (r * ?n + k) mod ?n" and "(r' * ?n + j) div ?n = (r * ?n + k) div ?n"
        by simp_all
      with True k(1,2) n show "j \<noteq> i \<and> r' = r" by (simp add: div_mult_self3)
    next
      assume "j \<noteq> i \<and> r' = r"
      with True show "r' * ?n + j \<in> set ?all" by auto
    qed
    ultimately show ?thesis using True by (simp add: echo_acks_def route_acks_map routed)
  next
    case False
    then have "tx mod ?n \<noteq> j" for tx using mod_less_divisor [OF n] by metis
    then show ?thesis using False by (simp add: echo_acks_def route_acks_map)
  qed
qed

lemma net_receive_step:
  assumes "net_ok N" and "net_inv N net" and "net_step N ordered (NetReceive i) net = Some net'"
  defines "c \<equiv> consumed net i"
  shows "i < parties N" and "alive N i (nt_sessions net' i)" and "c < length (nt_taken net i)"
    and "gadget_at N i (nt_taken net i) (nt_sessions net' i) (Suc c)"
    and "\<forall>k. k \<noteq> i \<longrightarrow> nt_sessions net' k = nt_sessions net k"
    and "nt_taken net' = nt_taken net" and "nt_sent net' = nt_sent net" and "nt_flight net' = nt_flight net"
    and "nt_replies net' j r = nt_replies net j r @
      (if Suc c mod parties N = 0 \<and> j < parties N \<and> j \<noteq> i \<and> r = c div parties N
       then [Inr (ne_peers N ! i, ne_hash N (round_input N r))] else [])"
    and "\<exists>g. se_echo (nt_sessions net i) = Running g Collecting"
    and "\<exists>g h. se_echo (nt_sessions net' i) = Running g (if Suc c mod parties N = 0
       then Awaiting (c div parties N) h [] else Collecting)"
proof -
  let ?s = "nt_sessions net i"
  from assms(3) show i: "i < parties N" by (simp add: net_step_def split: if_splits)
  with assms(2) have party: "party_ok N net i" by (simp add: net_inv_def)
  from assms(3) obtain s' fs' eff where
    step: "session_step (ne_pid N) (ne_hash N) (ne_checks N) (\<lambda>_. True) SeReceive (?s, ne_fs N) = Some (s', fs', eff)"
    and net': "net' = net\<lparr>nt_sessions := (nt_sessions net)(i := s'),
      nt_replies := route_acks N i (acks_sent eff) (nt_replies net)\<rparr>"
    by (auto simp: net_step_def party_step_def split: if_splits option.splits)
  then have "session_step (ne_pid N) (ne_hash N) (ne_checks N) (\<lambda>_. True) SeReceive (?s, ne_fs N) \<noteq> None"
    by simp
  note live = alive_of_step [OF party this]
  from receive_session [OF assms(1) i live(3,1,2) step] c_def obtain ms where
    s': "alive N i s'" "gadget_at N i (nt_taken net i) s' (Suc c)" "c < length (nt_taken net i)"
    and stages: "\<exists>g. se_echo ?s = Running g Collecting" "\<exists>g. se_echo s' = Running g (if Suc c mod parties N = 0
       then Awaiting (c div parties N) (ne_hash N (round_input N (c div parties N))) [] else Collecting)"
    and ms: "mset ms = mset (round_view N i (c div parties N))"
    and acks: "acks_sent eff = (if Suc c mod parties N = 0
         then echo_acks (ne_hash N (round_input N (c div parties N))) ms else [])"
    by blast
  show "\<exists>g. se_echo ?s = Running g Collecting" by (rule stages(1))
  show "\<exists>g h. se_echo (nt_sessions net' i) = Running g (if Suc c mod parties N = 0
       then Awaiting (c div parties N) h [] else Collecting)"
    using stages(2) by (auto simp: net')
  show "alive N i (nt_sessions net' i)" and "c < length (nt_taken net i)"
    and "gadget_at N i (nt_taken net i) (nt_sessions net' i) (Suc c)"
    and "\<forall>k. k \<noteq> i \<longrightarrow> nt_sessions net' k = nt_sessions net k"
    and "nt_taken net' = nt_taken net" and "nt_sent net' = nt_sent net" and "nt_flight net' = nt_flight net"
    using s' by (simp_all add: net')
  show "nt_replies net' j r = nt_replies net j r @
      (if Suc c mod parties N = 0 \<and> j < parties N \<and> j \<noteq> i \<and> r = c div parties N
       then [Inr (ne_peers N ! i, ne_hash N (round_input N r))] else [])"
    by (simp add: net' acks round_acks [OF assms(1) ms])
qed

lemma net_reply_step:
  assumes "net_ok N" and "net_inv N net" and "net_step N ordered (NetReply i k) net = Some net'"
  obtains g rx h hashes where "i < parties N"
    "se_echo (nt_sessions net i) = Running g (Awaiting rx h hashes)" "k < length (nt_replies net i rx)"
    "alive N i (nt_sessions net' i)" "consumed net i = Suc rx * parties N" "rx < ne_rounds N"
    "gadget_at N i (nt_taken net i) (nt_sessions net' i) (consumed net i)"
    "\<forall>k. k \<noteq> i \<longrightarrow> nt_sessions net' k = nt_sessions net k"
    "nt_taken net' = nt_taken net" "nt_sent net' = nt_sent net" "nt_flight net' = nt_flight net"
    "nt_replies net' = (nt_replies net)(i := (nt_replies net i)(rx := remove_nth k (nt_replies net i rx)))"
    "if Suc (length hashes) = parties N - 1 then \<exists>g'. se_echo (nt_sessions net' i) = Running g' Collecting
     else \<exists>x. se_echo (nt_sessions net' i) = Running g (Awaiting rx h (hashes @ [x]))"
proof -
  let ?s = "nt_sessions net i"
  from assms(3) obtain g rx h hashes where stage: "se_echo ?s = Running g (Awaiting rx h hashes)"
    and ik: "i < parties N" "k < length (nt_replies net i rx)"
    by (auto simp: net_step_def split: wrapped.splits echo_stage.splits if_splits)
  let ?x = "nt_replies net i rx ! k"
  from assms(2) ik(1) have party: "party_ok N net i" by (simp add: net_inv_def)
  have x: "agreed N rx ?x" using nth_mem [OF ik(2)] assms(2) by (auto simp: net_inv_def replies_ok_def)
  from assms(3) stage ik obtain s' fs' eff where
    step: "session_step (ne_pid N) (ne_hash N) (ne_checks N) (\<lambda>_. True) (SeReply ?x) (?s, ne_fs N) = Some (s', fs', eff)"
    and net': "net' = net\<lparr>nt_sessions := (nt_sessions net)(i := s'),
      nt_replies := (nt_replies net)(i := (nt_replies net i)(rx := remove_nth k (nt_replies net i rx)))\<rparr>"
    by (auto simp: net_step_def party_step_def split: option.splits)
  then have "session_step (ne_pid N) (ne_hash N) (ne_checks N) (\<lambda>_. True) (SeReply ?x) (?s, ne_fs N) \<noteq> None"
    by simp
  note live = alive_of_step [OF party this]
  from reply_session [OF assms(1) ik(1) live(3,1,2) stage x step]
  show thesis by (intro that [OF ik(1) stage ik(2)]) (auto simp: net')
qed

lemma replies_agreed: "agreed N r (Inr (p, ne_hash N (round_input N r)))"
  by (simp add: agreed_def)

text \<open>The invariant holds in every state that a network with ordered rounds reaches.\<close>

lemma net_inv_step:
  assumes "net_ok N" and "net_inv N net" and "net_step N True ev net = Some net'"
  shows "net_inv N net'"
proof (cases ev)
  case (NetSend i)
  note step = net_send_step [OF assms(1,2) assms(3) [unfolded NetSend]]
  let ?r = "nt_sent net i"
  from assms(2) have inv: "\<forall>k < parties N. party_ok N net k" "flight_ok N net" "replies_ok N net"
    by (simp_all add: net_inv_def)
  have sent: "nt_sent net k \<le> nt_sent net' k" for k by (simp add: step(6))
  have new: "(i, ?r) \<notin> set (nt_taken net k)" if "k < parties N" for k
    using inv(1) that by (fastforce simp: party_ok_def)
  have "party_ok N net' i"
    by (rule handed_on_party_ok [OF _ step(4,5,3) new step(1,2) _ sent]) (use inv(1) step(1,6) in auto)
  moreover have "party_ok N net' k" if "k < parties N" "k \<noteq> i" for k
    by (rule party_ok_frame [of N net]) (use inv(1) that step(5) sent in \<open>auto simp: handed_on_def\<close>)
  moreover have "flight_ok N net'"
    by (rule flight_ok_send [OF inv(2) step(1,2) refl new step(5,6,8)])
  moreover have "replies_ok N net'" using inv(3) step(7) by (simp add: replies_ok_def)
  ultimately show ?thesis unfolding net_inv_def by blast
next
  case (NetReceive i)
  note step = net_receive_step [OF assms(1,2) assms(3) [unfolded NetReceive]]
  from assms(2) have inv: "\<forall>k < parties N. party_ok N net k" "flight_ok N net" "replies_ok N net"
    by (simp_all add: net_inv_def)
  have "party_ok N net' i"
    by (rule party_okI) (use step inv(1) in \<open>auto simp: party_ok_def\<close>)
  moreover have "party_ok N net' k" if "k < parties N" "k \<noteq> i" for k
    by (rule party_ok_frame [of N net]) (use inv(1) that step in auto)
  moreover have "replies_ok N net'"
    using inv(3) step(9) replies_agreed by (auto simp: replies_ok_def split: if_splits)
  moreover have "flight_ok N net'" using inv(2) step by (simp add: flight_ok_def)
  ultimately show ?thesis unfolding net_inv_def by blast
next
  case (NetReply i k)
  from assms(2) have inv: "\<forall>k < parties N. party_ok N net k" "flight_ok N net" "replies_ok N net"
    by (simp_all add: net_inv_def)
  from assms(3) [unfolded NetReply] show ?thesis
  proof (rule net_reply_step [OF assms(1,2)])
    fix g rx h hashes
    assume step: "i < parties N" "alive N i (nt_sessions net' i)"
      "gadget_at N i (nt_taken net i) (nt_sessions net' i) (consumed net i)"
      "\<forall>k. k \<noteq> i \<longrightarrow> nt_sessions net' k = nt_sessions net k"
      "nt_taken net' = nt_taken net" "nt_sent net' = nt_sent net" "nt_flight net' = nt_flight net"
      "nt_replies net' = (nt_replies net)(i := (nt_replies net i)(rx := remove_nth k (nt_replies net i rx)))"
    have "party_ok N net' i"
      by (rule party_okI) (use step inv(1) in \<open>auto simp: party_ok_def\<close>)
    moreover have "party_ok N net' m" if "m < parties N" "m \<noteq> i" for m
      by (rule party_ok_frame [of N net]) (use inv(1) that step in auto)
    moreover have "replies_ok N net'"
      using inv(3) step(8) by (auto simp: replies_ok_def remove_nth_def dest: in_set_takeD in_set_dropD)
    moreover have "flight_ok N net'" using inv(2) step by (simp add: flight_ok_def)
    ultimately show ?thesis unfolding net_inv_def by blast
  qed
next
  case (NetDeliver k)
  from assms(2) have inv: "\<forall>k < parties N. party_ok N net k" "flight_ok N net" "replies_ok N net"
    by (simp_all add: net_inv_def)
  from assms(3) [unfolded NetDeliver] show ?thesis
  proof (rule net_deliver_step [OF assms(1,2)])
    fix j i r
    assume k: "k < length (nt_flight net)" "nt_flight net ! k = (j, i, r, ne_body N r j)"
      and ij: "i < parties N" "j < parties N" "r < nt_sent net j" "r < ne_rounds N" "(j, r) \<notin> set (nt_taken net i)"
      and live: "alive N i (nt_sessions net i)" and ord: "True \<longrightarrow> has_rounds N r (nt_taken net i)"
      and step: "handed_on N i (j, r) net net'" "nt_flight net' = remove_nth k (nt_flight net)"
        "nt_sent net' = nt_sent net" "nt_replies net' = nt_replies net"
    have "party_ok N net' i"
      by (rule handed_on_party_ok [OF _ live step(1) _ ij(5,2,4)]) (use inv(1) ij ord step(3) in auto)
    moreover have "party_ok N net' m" if "m < parties N" "m \<noteq> i" for m
      by (rule party_ok_frame [of N net]) (use inv(1) that step in \<open>auto simp: handed_on_def\<close>)
    moreover have "replies_ok N net'" using inv(3) step(4) by (simp add: replies_ok_def)
    moreover have "flight_ok N net'" by (rule flight_ok_deliver [OF inv(2) k step(1-3)])
    ultimately show ?thesis unfolding net_inv_def by blast
  qed
qed

lemma net_inv_start:
  assumes "net_ok N"
  shows "net_inv N (net_start N)"
proof -
  have "party_ok N (net_start N) i" for i
    by (rule party_okI [where c = 0])
       (simp_all add: net_start_def taken_ok_def alive_def gadget_at_def wrap_start_def echo_gadget_new_def)
  then show ?thesis by (simp add: net_inv_def flight_ok_def replies_ok_def net_start_def)
qed

lemma net_reach_inv: "net_reach N True net \<Longrightarrow> net_ok N \<Longrightarrow> net_inv N net"
  by (induction rule: net_reach.induct) (auto intro: net_inv_start net_inv_step)

section \<open>Nothing is lost\<close>

text \<open>
  As long as no channel has overflowed, a broadcast that was sent is under way or taken up, and the
  replies for it, those that were looked at included, are as many as the parties that have taken up
  its whole round.
\<close>

definition all_alive :: "('pid, 'done) net_env \<Rightarrow> ('pid, 'done) net \<Rightarrow> bool" where
  "all_alive N net \<longleftrightarrow> (\<forall>i < parties N. alive N i (nt_sessions net i))"

definition sent_ok :: "('pid, 'done) net_env \<Rightarrow> ('pid, 'done) net \<Rightarrow> bool" where
  "sent_ok N net \<longleftrightarrow> (\<forall>i < parties N. \<forall>j < parties N. \<forall>r < nt_sent net j.
     (j, r) \<in> set (nt_taken net i) \<or> i \<noteq> j \<and> (j, i, r, ne_body N r j) \<in> set (nt_flight net))"

definition looked_at ::
  "('pid, 'done) net_env \<Rightarrow> ('pid, string) wrapped \<Rightarrow> nat \<Rightarrow> nat \<Rightarrow> nat" where
  "looked_at N w c r =
     (case w of
        Running g (Awaiting rx h hashes) \<Rightarrow>
          if rx = r then length hashes else if Suc r * parties N \<le> c then parties N - 1 else 0
      | _ \<Rightarrow> if Suc r * parties N \<le> c then parties N - 1 else 0)"

definition past_round :: "('pid, 'done) net_env \<Rightarrow> ('pid, 'done) net \<Rightarrow> nat \<Rightarrow> nat \<Rightarrow> nat set" where
  "past_round N net j r = {i. i < parties N \<and> i \<noteq> j \<and> Suc r * parties N \<le> consumed net i}"

definition counted :: "('pid, 'done) net_env \<Rightarrow> ('pid, 'done) net \<Rightarrow> bool" where
  "counted N net \<longleftrightarrow> (\<forall>j < parties N. \<forall>r.
     length (nt_replies net j r) + looked_at N (se_echo (nt_sessions net j)) (consumed net j) r =
       card (past_round N net j r))"

lemma finite_past_round [simp]: "finite (past_round N net j r)"
  by (simp add: past_round_def)

lemma handed_on_counted:
  assumes "counted N net" and "handed_on N i x net net'" and "alive N i (nt_sessions net' i)"
    and "nt_replies net' = nt_replies net" and "length (se_queue (nt_sessions net i)) \<le> length (nt_taken net i)"
  shows "counted N net'"
proof -
  have "\<not> parties N < length (se_queue (nt_sessions net i))"
    using assms(2,3) by (auto simp: handed_on_def alive_def)
  with assms(2,5) have same: "consumed net' k = consumed net k"
    "se_echo (nt_sessions net' k) = se_echo (nt_sessions net k)" for k
    by (cases "k = i"; auto simp: handed_on_def consumed_def)+
  with assms(1,4) show ?thesis by (simp add: counted_def past_round_def)
qed

lemma multiple_le_Suc: "Suc c mod n \<noteq> 0 \<or> Suc c \<noteq> k * n \<Longrightarrow> k * n \<le> Suc c \<longleftrightarrow> k * (n :: nat) \<le> c"
  by (metis le_Suc_eq mod_mult_self2_is_0 mult.commute)

lemma receive_counted:
  assumes "net_ok N" and "net_inv N net" and "counted N net"
    and "net_step N ordered (NetReceive i) net = Some net'"
  shows "counted N net'"
  unfolding counted_def
proof (intro allI impI)
  fix j r assume j: "j < parties N"
  let ?n = "parties N" and ?c = "consumed net i"
  note step = net_receive_step [OF assms(1,2,4)]
  have n: "2 \<le> ?n" by (rule net_okD(1) [OF assms(1)])
  have c': "consumed net' i = Suc ?c"
    using gadget_at_consumed [of N i net'] step(4,6) by simp
  have others: "consumed net' k = consumed net k" if "k \<noteq> i" for k
    using step(5,6) that by (simp add: consumed_def)
  have old: "length (nt_replies net j r) + looked_at N (se_echo (nt_sessions net j)) (consumed net j) r =
      card (past_round N net j r)" using assms(3) j by (simp add: counted_def)
  obtain g g' h where before: "se_echo (nt_sessions net i) = Running g Collecting"
    and after: "se_echo (nt_sessions net' i) = Running g' (if Suc ?c mod ?n = 0
      then Awaiting (?c div ?n) h [] else Collecting)" using step(10,11) by blast
  have full: "Suc ?c = Suc (?c div ?n) * ?n" if "Suc ?c mod ?n = 0"
    using that by (metis add_0_right div_Suc div_mult_mod_eq)
  show "length (nt_replies net' j r) + looked_at N (se_echo (nt_sessions net' j)) (consumed net' j) r =
      card (past_round N net' j r)"
  proof (cases "Suc ?c = Suc r * ?n")
    case False
    have le: "Suc r * ?n \<le> Suc ?c \<longleftrightarrow> Suc r * ?n \<le> ?c" by (rule multiple_le_Suc) (use False in simp)
    have "Suc r * ?n \<le> consumed net' k \<longleftrightarrow> Suc r * ?n \<le> consumed net k" for k
      using le others c' by (cases "k = i") simp_all
    then have "past_round N net' j r = past_round N net j r" by (simp only: past_round_def)
    moreover have not_r: "Suc ?c mod ?n = 0 \<longrightarrow> r \<noteq> ?c div ?n"
      using full False by (metis mult_Suc)
    then have "nt_replies net' j r = nt_replies net j r" using step(9) [of j r] by auto
    moreover have "looked_at N (se_echo (nt_sessions net' j)) (consumed net' j) r =
        looked_at N (se_echo (nt_sessions net j)) (consumed net j) r"
    proof (cases "j = i")
      case True
      then show ?thesis
        using before after c' le not_r
        by (cases "Suc ?c mod ?n = 0") (auto simp: looked_at_def simp del: mult_Suc)
    next
      case False
      then show ?thesis using step(5) others by simp
    qed
    ultimately show ?thesis using old by simp
  next
    case True
    then have mod: "Suc ?c mod ?n = 0" by (metis mod_mult_self2_is_0)
    with full True n have r: "?c div ?n = r" by (metis Suc_inject mult_cancel2 not_numeral_le_zero)
    have above: "\<not> Suc r * ?n \<le> ?c" using True by linarith
    show ?thesis
    proof (cases "j = i")
      case True
      have "past_round N net' j r = past_round N net j r"
        using others True by (auto simp: past_round_def)
      moreover have "nt_replies net' j r = nt_replies net j r" using step(9) [of j r] True by simp
      ultimately show ?thesis
        using old True before after above r mod by (simp add: looked_at_def del: mult_Suc)
    next
      case False
      have "past_round N net' j r = insert i (past_round N net j r)"
        using others False c' True step(1) above by (fastforce simp: past_round_def simp del: mult_Suc)
      moreover have "i \<notin> past_round N net j r" using above by (simp add: past_round_def)
      moreover have "length (nt_replies net' j r) = Suc (length (nt_replies net j r))"
        using step(9) [of j r] False mod r j by simp
      ultimately show ?thesis using old step(5) others False by simp
    qed
  qed
qed

lemma reply_counted:
  assumes "net_ok N" and "net_inv N net" and "counted N net"
    and "net_step N ordered (NetReply i k) net = Some net'"
  shows "counted N net'"
  using assms(4)
proof (rule net_reply_step [OF assms(1,2)])
  fix g rx h hashes
  let ?n = "parties N"
  assume step: "i < ?n" "se_echo (nt_sessions net i) = Running g (Awaiting rx h hashes)"
    "k < length (nt_replies net i rx)" "consumed net i = Suc rx * ?n"
    "gadget_at N i (nt_taken net i) (nt_sessions net' i) (consumed net i)"
    "\<forall>k. k \<noteq> i \<longrightarrow> nt_sessions net' k = nt_sessions net k" "nt_taken net' = nt_taken net"
    "nt_replies net' = (nt_replies net)(i := (nt_replies net i)(rx := remove_nth k (nt_replies net i rx)))"
    "if Suc (length hashes) = ?n - 1 then \<exists>g'. se_echo (nt_sessions net' i) = Running g' Collecting
     else \<exists>x. se_echo (nt_sessions net' i) = Running g (Awaiting rx h (hashes @ [x]))"
  have same: "consumed net' m = consumed net m" for m
    using gadget_at_consumed [of N i net'] step(5-7) by (cases "m = i") (simp_all add: consumed_def)
  have le: "Suc r * ?n \<le> consumed net i \<longleftrightarrow> r \<le> rx" for r
    using step(4) net_okD(1) [OF assms(1)] by (metis Suc_le_mono mult_le_cancel2 not_numeral_le_zero gr0I)
  have removed: "Suc (length (remove_nth k (nt_replies net i rx))) = length (nt_replies net i rx)"
    using step(3) by (simp add: remove_nth_def)
  have "length (nt_replies net' j r) + looked_at N (se_echo (nt_sessions net' j)) (consumed net' j) r =
      length (nt_replies net j r) + looked_at N (se_echo (nt_sessions net j)) (consumed net j) r" for j r
  proof (cases "j = i")
    case False
    then show ?thesis using step(6,8) same by simp
  next
    case True
    show ?thesis
    proof (cases "Suc (length hashes) = ?n - 1")
      case last: True
      with step(9) obtain g' where "se_echo (nt_sessions net' i) = Running g' Collecting" by auto
      then show ?thesis
        using True step(2,8) removed last same le by (auto simp: looked_at_def simp del: mult_Suc)
    next
      case False
      with step(9) obtain x where "se_echo (nt_sessions net' i) = Running g (Awaiting rx h (hashes @ [x]))" by auto
      then show ?thesis
        using True step(2,8) removed same by (auto simp: looked_at_def simp del: mult_Suc)
    qed
  qed
  then show ?thesis using assms(3) by (simp add: counted_def past_round_def same)
qed

lemma sent_ok_step:
  assumes "net_ok N" and "net_inv N net" and "sent_ok N net" and "net_step N ordered ev net = Some net'"
    and "all_alive N net'"
  shows "sent_ok N net'"
proof -
  have old: "(j, r) \<in> set (nt_taken net m) \<or> m \<noteq> j \<and> (j, m, r, ne_body N r j) \<in> set (nt_flight net)"
    if "m < parties N" "j < parties N" "r < nt_sent net j" for m j r
    using assms(3) that by (auto simp: sent_ok_def)
  show ?thesis
  proof (cases ev)
    case (NetSend i)
    note step = net_send_step [OF assms(1,2) assms(4) [unfolded NetSend]]
    have room: "\<not> parties N < length (se_queue (nt_sessions net i))"
      using step(1,5) assms(5) by (auto simp: handed_on_def all_alive_def alive_def)
    have "(j, r) \<in> set (nt_taken net' m) \<or> m \<noteq> j \<and> (j, m, r, ne_body N r j) \<in> set (nt_flight net')"
      if "m < parties N" "j < parties N" "r < nt_sent net' j" for m j r
    proof (cases "r < nt_sent net j")
      case True
      with old [OF that(1,2) this] step(5,8) show ?thesis by (cases "m = i") (auto simp: handed_on_def room)
    next
      case False
      with that(3) step(6) have "j = i \<and> r = nt_sent net i" by (auto split: if_splits)
      with that(1) step(5,8) room show ?thesis by (auto simp: handed_on_def)
    qed
    then show ?thesis unfolding sent_ok_def by blast
  next
    case (NetDeliver k)
    from assms(4) [unfolded NetDeliver] show ?thesis
    proof (rule net_deliver_step [OF assms(1,2)])
      fix j i r
      assume k: "k < length (nt_flight net)" "nt_flight net ! k = (j, i, r, ne_body N r j)"
        and i: "i < parties N"
        and step: "handed_on N i (j, r) net net'" "nt_flight net' = remove_nth k (nt_flight net)"
          "nt_sent net' = nt_sent net"
      have room: "\<not> parties N < length (se_queue (nt_sessions net i))"
        using step(1) i assms(5) by (auto simp: handed_on_def all_alive_def alive_def)
      have flight: "set (nt_flight net) \<subseteq> insert (j, i, r, ne_body N r j) (set (nt_flight net'))"
        using mset_eq_setD [of "nt_flight net" "(nt_flight net ! k) # nt_flight net'"]
          mset_remove_nth [OF k(1)] k(2) step(2) by simp
      have "(j', r') \<in> set (nt_taken net' m) \<or> m \<noteq> j' \<and> (j', m, r', ne_body N r' j') \<in> set (nt_flight net')"
        if "m < parties N" "j' < parties N" "r' < nt_sent net' j'" for m j' r'
        using old [OF that(1,2)] that(3) step(1,3) flight room by (cases "m = i") (auto simp: handed_on_def)
      then show ?thesis unfolding sent_ok_def by blast
    qed
  next
    case (NetReceive i)
    note step = net_receive_step [OF assms(1,2) assms(4) [unfolded NetReceive]]
    with assms(3) show ?thesis by (simp add: sent_ok_def)
  next
    case (NetReply i k)
    from assms(4) [unfolded NetReply] show ?thesis
      by (rule net_reply_step [OF assms(1,2)]) (use assms(3) in \<open>simp add: sent_ok_def\<close>)
  qed
qed

lemma party_ok_alive: "party_ok N net i \<Longrightarrow> se_echo (nt_sessions net i) = Running g stage \<Longrightarrow> alive N i (nt_sessions net i)"
  by (auto simp: party_ok_def overflowed_def)

text \<open>A session that has ended does not come back.\<close>

lemma all_alive_back:
  assumes "net_ok N" and "net_inv N net" and "net_step N ordered ev net = Some net'" and "all_alive N net'"
  shows "all_alive N net"
proof -
  have one: "all_alive N net" if "alive N i (nt_sessions net i)"
    and "\<And>k. k \<noteq> i \<Longrightarrow> nt_sessions net' k = nt_sessions net k" for i
    unfolding all_alive_def
  proof (intro allI impI)
    fix k assume "k < parties N"
    then show "alive N k (nt_sessions net k)"
      using that assms(4) by (cases "k = i") (auto simp: all_alive_def)
  qed
  show ?thesis
  proof (cases ev)
    case (NetSend i)
    note step = net_send_step [OF assms(1,2) assms(3) [unfolded NetSend]]
    show ?thesis by (rule one [OF step(4)]) (use step(5) in \<open>simp add: handed_on_def\<close>)
  next
    case (NetDeliver k)
    from assms(3) [unfolded NetDeliver] show ?thesis
      by (rule net_deliver_step [OF assms(1,2)]) (erule one, simp add: handed_on_def)
  next
    case (NetReceive i)
    note step = net_receive_step [OF assms(1,2) assms(3) [unfolded NetReceive]]
    have "alive N i (nt_sessions net i)"
      using step(1,10) assms(2) party_ok_alive [of N net i] by (auto simp: net_inv_def)
    then show ?thesis by (rule one) (use step(5) in simp)
  next
    case (NetReply i k)
    from assms(3) [unfolded NetReply] show ?thesis
    proof (rule net_reply_step [OF assms(1,2)])
      fix g rx h hashes
      assume i: "i < parties N" "se_echo (nt_sessions net i) = Running g (Awaiting rx h hashes)"
        and rest: "\<forall>k. k \<noteq> i \<longrightarrow> nt_sessions net' k = nt_sessions net k"
      have "alive N i (nt_sessions net i)"
        using i assms(2) party_ok_alive [of N net i] by (simp add: net_inv_def)
      then show ?thesis by (rule one) (use rest in simp)
    qed
  qed
qed

lemma counted_step:
  assumes "net_ok N" and "net_inv N net" and "counted N net" and "net_step N ordered ev net = Some net'"
    and "all_alive N net'"
  shows "counted N net'"
proof (cases ev)
  case (NetSend i)
  note step = net_send_step [OF assms(1,2) assms(4) [unfolded NetSend]]
  have "alive N i (nt_sessions net' i)" using assms(5) step(1) by (simp add: all_alive_def)
  moreover have "length (se_queue (nt_sessions net i)) \<le> length (nt_taken net i)"
    using assms(2) step(1,4) by (auto simp: net_inv_def party_ok_def overflowed_def alive_def gadget_at_def)
  ultimately show ?thesis using handed_on_counted [OF assms(3) step(5)] step(7) by blast
next
  case (NetDeliver k)
  from assms(4) [unfolded NetDeliver] show ?thesis
  proof (rule net_deliver_step [OF assms(1,2)])
    fix j i r
    assume i: "i < parties N" and live: "alive N i (nt_sessions net i)"
      and step: "handed_on N i (j, r) net net'" "nt_replies net' = nt_replies net"
    have "alive N i (nt_sessions net' i)" using assms(5) i by (simp add: all_alive_def)
    moreover have "length (se_queue (nt_sessions net i)) \<le> length (nt_taken net i)"
      using assms(2) i live by (auto simp: net_inv_def party_ok_def overflowed_def alive_def gadget_at_def)
    ultimately show ?thesis using handed_on_counted [OF assms(3) step(1)] step(2) by blast
  qed
next
  case (NetReceive i)
  with assms show ?thesis by (blast intro: receive_counted)
next
  case (NetReply i k)
  with assms show ?thesis by (blast intro: reply_counted)
qed

lemma net_reach_complete:
  "net_reach N True net \<Longrightarrow> net_ok N \<Longrightarrow> all_alive N net \<Longrightarrow> sent_ok N net \<and> counted N net"
proof (induction rule: net_reach.induct)
  case net_reach_start
  have "0 < parties N" using net_okD(1) [OF net_reach_start(1)] by linarith
  then show ?case
    by (simp add: sent_ok_def counted_def net_start_def looked_at_def past_round_def consumed_def
        wrap_start_def)
next
  case (net_reach_step net ev net')
  note inv = net_reach_inv [OF net_reach_step.hyps(1) net_reach_step.prems(1)]
  have "all_alive N net"
    by (rule all_alive_back [OF net_reach_step.prems(1) inv net_reach_step.hyps(2) net_reach_step.prems(2)])
  with net_reach_step have "sent_ok N net" "counted N net" by simp_all
  then show ?case
    using sent_ok_step [OF net_reach_step.prems(1) inv _ net_reach_step.hyps(2) net_reach_step.prems(2)]
      counted_step [OF net_reach_step.prems(1) inv _ net_reach_step.hyps(2) net_reach_step.prems(2)] by blast
qed

section \<open>The pace\<close>

text \<open>
  The channel to the gadget takes \<open>n + 1\<close> broadcasts, and \<open>honest_backlog_panics\<close> shows that ordered rounds
  of honest parties can fill it: the agents do not wait for the echo. What keeps it from filling is a
  pace. While the gadget collects, it is polled before its channel is full (one \<open>select!\<close> polls the
  computation and the gadget); and while it waits for the replies of a round, its party is not
  handed, and does not send, a broadcast of more than the next round.
\<close>

definition in_pace :: "('pid, 'done) net_env \<Rightarrow> ('pid, 'done) net \<Rightarrow> nat \<Rightarrow> nat \<Rightarrow> bool" where
  "in_pace N net i r \<longleftrightarrow>
     (case se_echo (nt_sessions net i) of
        Running g Collecting \<Rightarrow> length (se_queue (nt_sessions net i)) \<le> parties N
      | Running g (Awaiting rx h hashes) \<Rightarrow> r \<le> Suc (unat (eg_r g))
      | _ \<Rightarrow> True)"

definition paced :: "('pid, 'done) net_env \<Rightarrow> net_event \<Rightarrow> ('pid, 'done) net \<Rightarrow> bool" where
  "paced N ev net \<longleftrightarrow>
     (case ev of
        NetSend i \<Rightarrow> in_pace N net i (nt_sent net i)
      | NetDeliver k \<Rightarrow> k < length (nt_flight net) \<and>
          (case nt_flight net ! k of (j, i, r, b) \<Rightarrow> in_pace N net i r)
      | _ \<Rightarrow> True)"

definition paced_step ::
  "('pid, 'done) net_env \<Rightarrow> net_event \<Rightarrow> ('pid, 'done) net \<Rightarrow> ('pid, 'done) net option" where
  "paced_step N ev net = (if paced N ev net then net_step N True ev net else None)"

fun paced_run ::
  "('pid, 'done) net_env \<Rightarrow> net_event list \<Rightarrow> ('pid, 'done) net \<Rightarrow> ('pid, 'done) net option" where
  "paced_run N [] net = Some net"
| "paced_run N (ev # evs) net =
     (case paced_step N ev net of None \<Rightarrow> None | Some net' \<Rightarrow> paced_run N evs net')"

lemma taken_le:
  assumes "taken_ok N taken" and "0 < parties N"
  shows "length taken \<le> ne_rounds N * parties N"
proof (rule ccontr)
  assume "\<not> length taken \<le> ne_rounds N * parties N"
  then have "ne_rounds N * parties N < length taken" by simp
  with assms show False by (auto simp: taken_ok_def)
qed

lemma taken_has_rounds:
  assumes "taken_ok N taken" and "0 < parties N" and "r * parties N \<le> length taken"
  shows "has_rounds N r taken"
proof -
  have "(j, s) \<in> set taken" if "s < r" "j < parties N" for s j
  proof -
    have "Suc s * parties N \<le> r * parties N" using that(1) by (intro mult_le_mono1) simp
    with assms(3) have "Suc s * parties N \<le> length taken" by linarith
    from mset_eq_setD [OF taken_round [OF assms(1,2) this]] that(2)
    have "(j, s) \<in> set (take (parties N) (drop (s * parties N) taken))" by auto
    then show ?thesis by (meson in_set_dropD in_set_takeD)
  qed
  then show ?thesis by (auto simp: has_rounds_def)
qed

text \<open>At this pace there is room in the channel.\<close>

lemma pace_room:
  assumes "net_ok N" and "party_ok N net i" and "alive N i (nt_sessions net i)" and "in_pace N net i r"
    and "has_rounds N r (nt_taken net i)" and "(j, r) \<notin> set (nt_taken net i)" and "j < parties N"
    and "r < ne_rounds N"
  shows "length (se_queue (nt_sessions net i)) \<le> parties N"
proof -
  let ?n = "parties N"
  obtain g stage where run: "se_echo (nt_sessions net i) = Running g stage" using assms(3) by (rule aliveD)
  show ?thesis
  proof (cases stage)
    case Collecting
    with run assms(4) show ?thesis by (simp add: in_pace_def)
  next
    case (Awaiting rx h hashes)
    have taken: "taken_ok N (nt_taken net i)"
      and at: "gadget_at N i (nt_taken net i) (nt_sessions net i) (consumed net i)"
      using assms(2) run by (auto simp: party_ok_def overflowed_def)
    from at run Awaiting have c: "consumed net i = Suc rx * ?n" "consumed net i \<le> length (nt_taken net i)"
      and g: "eg_r g = word_of_nat rx" by (simp_all add: gadget_at_def)
    have "rx < ne_rounds N"
      by (rule taken_round_bound [OF taken]) (use c net_okD(1) [OF assms(1)] in auto)
    then have "unat (eg_r g) = rx" using net_okD(2) [OF assms(1)] by (simp add: g unat_of_nat_u16)
    then have "r \<le> Suc rx" using assms(4) run Awaiting by (simp add: in_pace_def)
    then have "Suc r * ?n \<le> Suc (Suc rx) * ?n" by (intro mult_le_mono1) simp
    with taken_snoc(2) [OF taken assms(5-8)] c
    have "length (nt_taken net i) \<le> consumed net i + ?n" by simp
    moreover have "length (se_queue (nt_sessions net i)) = length (nt_taken net i) - consumed net i"
      using at by (simp add: gadget_at_def)
    ultimately show ?thesis by linarith
  qed
qed

section \<open>Every step is progress\<close>

text \<open>What a party has done: broadcasts taken up, broadcasts looked at, replies looked at.\<close>

definition replied :: "('pid, 'done) net_env \<Rightarrow> ('pid, string) wrapped \<Rightarrow> nat \<Rightarrow> nat" where
  "replied N w c =
     (case w of
        Running g (Awaiting rx h hashes) \<Rightarrow> rx * (parties N - 1) + length hashes
      | _ \<Rightarrow> c div parties N * (parties N - 1))"

definition party_work :: "('pid, 'done) net_env \<Rightarrow> ('pid, 'done) net \<Rightarrow> nat \<Rightarrow> nat" where
  "party_work N net i =
     length (nt_taken net i) + consumed net i + replied N (se_echo (nt_sessions net i)) (consumed net i)"

definition work :: "('pid, 'done) net_env \<Rightarrow> ('pid, 'done) net \<Rightarrow> nat" where
  "work N net = (\<Sum>i < parties N. party_work N net i)"

text \<open>What each party has to do in all.\<close>

definition full_work :: "('pid, 'done) net_env \<Rightarrow> nat" where
  "full_work N = ne_rounds N * (3 * parties N - 1)"

lemma work_one:
  assumes "i < parties N" and "\<And>k. k < parties N \<Longrightarrow> k \<noteq> i \<Longrightarrow> party_work N net' k = party_work N net k"
    and "party_work N net' i = Suc (party_work N net i)"
  shows "work N net' = Suc (work N net)"
proof -
  have "work N m = party_work N m i + (\<Sum>k \<in> {..<parties N} - {i}. party_work N m k)" for m :: "('a, 'b) net"
    unfolding work_def using assms(1) by (intro sum.remove) auto
  moreover have "(\<Sum>k \<in> {..<parties N} - {i}. party_work N net' k) =
      (\<Sum>k \<in> {..<parties N} - {i}. party_work N net k)"
    using assms(2) by (intro sum.cong) auto
  ultimately show ?thesis using assms(3) by simp
qed

lemma party_work_frame:
  "nt_sessions net' k = nt_sessions net k \<Longrightarrow> nt_taken net' k = nt_taken net k \<Longrightarrow>
   party_work N net' k = party_work N net k"
  by (simp add: party_work_def consumed_def)


lemma handed_on_work:
  assumes "net_inv N net" and "i < parties N" and "alive N i (nt_sessions net i)"
    and "handed_on N i x net net'" and "length (se_queue (nt_sessions net i)) \<le> parties N"
  shows "work N net' = Suc (work N net)"
proof (rule work_one [OF assms(2)])
  show "party_work N net' k = party_work N net k" if "k \<noteq> i" for k
    using assms(4) that by (intro party_work_frame) (simp_all add: handed_on_def)
  have "length (se_queue (nt_sessions net i)) \<le> length (nt_taken net i)"
    using assms(1-3) by (auto simp: net_inv_def party_ok_def overflowed_def alive_def gadget_at_def)
  then show "party_work N net' i = Suc (party_work N net i)"
    using assms(4,5) by (simp add: handed_on_def party_work_def consumed_def)
qed

lemma handed_on_alive:
  assumes "all_alive N net" and "handed_on N i x net net'" and "length (se_queue (nt_sessions net i)) \<le> parties N"
  shows "all_alive N net'"
  unfolding all_alive_def
proof (intro allI impI)
  fix k assume "k < parties N"
  then show "alive N k (nt_sessions net' k)"
    using assms by (cases "k = i") (simp_all add: all_alive_def handed_on_def)
qed

text \<open>At the pace each step is one unit of work, and no session ends.\<close>

lemma paced_step_works:
  assumes "net_ok N" and "net_inv N net" and "all_alive N net" and "paced_step N ev net = Some net'"
  shows "all_alive N net'" and "work N net' = Suc (work N net)"
proof -
  let ?n = "parties N"
  from assms(4) have pace: "paced N ev net" and step: "net_step N True ev net = Some net'"
    by (simp_all add: paced_step_def split: if_splits)
  have party: "party_ok N net k" "alive N k (nt_sessions net k)" if "k < ?n" for k
    using assms(2,3) that by (simp_all add: net_inv_def all_alive_def)
  have "all_alive N net' \<and> work N net' = Suc (work N net)"
  proof (cases ev)
    case (NetSend i)
    note S = net_send_step [OF assms(1,2) step [unfolded NetSend]]
    have "(i, nt_sent net i) \<notin> set (nt_taken net i)" using party(1) [OF S(1)] by (fastforce simp: party_ok_def)
    moreover have "in_pace N net i (nt_sent net i)" using pace by (simp add: paced_def NetSend)
    ultimately have "length (se_queue (nt_sessions net i)) \<le> ?n"
      using pace_room [OF assms(1) party [OF S(1)]] S(1-3) by blast
    with handed_on_work [OF assms(2) S(1,4,5)] handed_on_alive [OF assms(3) S(5)] show ?thesis by blast
  next
    case (NetDeliver m)
    from step [unfolded NetDeliver] show ?thesis
    proof (rule net_deliver_step [OF assms(1,2)])
      fix j i r
      assume m: "m < length (nt_flight net)" "nt_flight net ! m = (j, i, r, ne_body N r j)"
        and i: "i < ?n" "j < ?n" "r < ne_rounds N" "(j, r) \<notin> set (nt_taken net i)"
        and S: "alive N i (nt_sessions net i)" "True \<longrightarrow> has_rounds N r (nt_taken net i)"
          "handed_on N i (j, r) net net'"
      have "in_pace N net i r" using pace m by (simp add: paced_def NetDeliver)
      then have "length (se_queue (nt_sessions net i)) \<le> ?n"
        using pace_room [OF assms(1) party [OF i(1)]] S(2) i(2-4) by blast
      with handed_on_work [OF assms(2) i(1) S(1,3)] handed_on_alive [OF assms(3) S(3)] show ?thesis by blast
    qed
  next
    case (NetReceive i)
    note S = net_receive_step [OF assms(1,2) step [unfolded NetReceive]]
    have alive: "all_alive N net'"
      unfolding all_alive_def
    proof (intro allI impI)
      fix k assume "k < ?n"
      then show "alive N k (nt_sessions net' k)" using S(2,5) party by (cases "k = i") simp_all
    qed
    have c': "consumed net' i = Suc (consumed net i)"
      using gadget_at_consumed [of N i net'] S(4,6) by simp
    obtain g g' h where before: "se_echo (nt_sessions net i) = Running g Collecting"
      and after: "se_echo (nt_sessions net' i) = Running g' (if Suc (consumed net i) mod ?n = 0
        then Awaiting (consumed net i div ?n) h [] else Collecting)" using S(10,11) by blast
    have "replied N (se_echo (nt_sessions net' i)) (consumed net' i) =
        replied N (se_echo (nt_sessions net i)) (consumed net i)"
      using before after c' by (cases "Suc (consumed net i) mod ?n = 0") (simp_all add: replied_def div_Suc)
    then have "party_work N net' i = Suc (party_work N net i)" using c' S(6) by (simp add: party_work_def)
    moreover have "party_work N net' k = party_work N net k" if "k \<noteq> i" for k
      using S(5,6) that by (intro party_work_frame) simp_all
    ultimately show ?thesis using alive work_one [OF S(1)] by blast
  next
    case (NetReply i m)
    from step [unfolded NetReply] show ?thesis
    proof (rule net_reply_step [OF assms(1,2)])
      fix g rx h hashes
      assume i: "i < ?n" and before: "se_echo (nt_sessions net i) = Running g (Awaiting rx h hashes)"
        and c: "consumed net i = Suc rx * ?n"
        and S: "alive N i (nt_sessions net' i)"
          "gadget_at N i (nt_taken net i) (nt_sessions net' i) (consumed net i)"
          "\<forall>k. k \<noteq> i \<longrightarrow> nt_sessions net' k = nt_sessions net k" "nt_taken net' = nt_taken net"
        and after: "if Suc (length hashes) = ?n - 1 then \<exists>g'. se_echo (nt_sessions net' i) = Running g' Collecting
          else \<exists>x. se_echo (nt_sessions net' i) = Running g (Awaiting rx h (hashes @ [x]))"
      have alive: "all_alive N net'"
        unfolding all_alive_def
      proof (intro allI impI)
        fix k assume "k < ?n"
        then show "alive N k (nt_sessions net' k)" using S(1,3) party by (cases "k = i") simp_all
      qed
      have c': "consumed net' i = consumed net i" using gadget_at_consumed [of N i net'] S(2,4) by simp
      have div: "consumed net i div ?n = Suc rx"
        using c net_okD(1) [OF assms(1)] by (metis nonzero_mult_div_cancel_right not_numeral_le_zero)
      have "replied N (se_echo (nt_sessions net' i)) (consumed net' i) =
          Suc (replied N (se_echo (nt_sessions net i)) (consumed net i))"
        using before after c' div by (cases "Suc (length hashes) = ?n - 1") (auto simp: replied_def)
      then have "party_work N net' i = Suc (party_work N net i)" using c' S(4) by (simp add: party_work_def)
      moreover have "party_work N net' k = party_work N net k" if "k \<noteq> i" for k
        using S(3,4) that by (intro party_work_frame) simp_all
      ultimately show ?thesis using alive work_one [OF i] by blast
    qed
  qed
  then show "all_alive N net'" and "work N net' = Suc (work N net)" by simp_all
qed

text \<open>The work of a party is bounded, and once it has done all it has completed all rounds.\<close>

definition all_rounds :: "('pid, 'done) net_env \<Rightarrow> ('pid, 'done) session \<Rightarrow> bool" where
  "all_rounds N s \<longleftrightarrow> se_queue s = [] \<and>
     se_echo s = Running \<lparr>eg_r = word_of_nat (ne_rounds N), eg_n = parties N, eg_msgs = []\<rparr> Collecting"

lemma party_work_le:
  assumes "net_ok N" and "net_inv N net" and "all_alive N net" and "i < parties N"
  shows "party_work N net i \<le> full_work N"
    and "party_work N net i = full_work N \<Longrightarrow> all_rounds N (nt_sessions net i)"
proof -
  let ?n = "parties N" and ?R = "ne_rounds N" and ?s = "nt_sessions net i" and ?c = "consumed net i"
  have n: "2 \<le> ?n" and n0: "0 < ?n" using net_okD(1) [OF assms(1)] by linarith+
  have live: "alive N i ?s" and taken: "taken_ok N (nt_taken net i)" using assms(2-4)
    by (simp_all add: all_alive_def net_inv_def party_ok_def)
  then have at: "gadget_at N i (nt_taken net i) ?s ?c"
    using assms(2,4) by (auto simp: net_inv_def party_ok_def overflowed_def alive_def)
  have c: "?c \<le> length (nt_taken net i)" "length (nt_taken net i) \<le> ?R * ?n"
    using at taken_le [OF taken n0] by (simp_all add: gadget_at_def)
  obtain k where k: "?n = Suc k" using n0 by (cases ?n) auto
  have full: "full_work N = ?R * ?n + ?R * ?n + ?R * (?n - 1)"
    unfolding full_work_def k by (simp add: algebra_simps)
  obtain g stage where run: "se_echo ?s = Running g stage" using live by (rule aliveD)
  have few: "replied N (se_echo ?s) ?c \<le> ?R * (?n - 1) \<and>
    (\<forall>rx h hashes. stage = Awaiting rx h hashes \<longrightarrow> replied N (se_echo ?s) ?c < ?R * (?n - 1))"
  proof (cases stage)
    case Collecting
    have "?c div ?n \<le> ?R" using c n0 by (metis div_le_mono le_trans nonzero_mult_div_cancel_right less_numeral_extra(3))
    then show ?thesis using run Collecting by (simp add: replied_def)
  next
    case (Awaiting rx h hashes)
    with at run have "?c = Suc rx * ?n" and len: "length hashes < ?n - 1" by (simp_all add: gadget_at_def)
    then have "Suc rx * ?n \<le> ?R * ?n" using c by linarith
    then have "Suc rx \<le> ?R" using n0 by (simp only: mult_le_cancel2)
    then have "Suc rx * (?n - 1) \<le> ?R * (?n - 1)" by (rule mult_le_mono1)
    moreover have "rx * (?n - 1) + length hashes < Suc rx * (?n - 1)" using len by simp
    ultimately have "rx * (?n - 1) + length hashes < ?R * (?n - 1)" by linarith
    then show ?thesis using run Awaiting by (simp add: replied_def)
  qed
  then show "party_work N net i \<le> full_work N" using c by (simp add: party_work_def full)
  assume all: "party_work N net i = full_work N"
  with c few have eq: "?c = ?R * ?n" "length (nt_taken net i) = ?R * ?n" "replied N (se_echo ?s) ?c = ?R * (?n - 1)"
    by (simp_all add: party_work_def full)
  then have "stage = Collecting" using few by (cases stage) auto
  with at run eq n0 show "all_rounds N ?s" by (simp add: gadget_at_def all_rounds_def)
qed


section \<open>No deadlock\<close>

lemma receive_enabled:
  assumes "i < parties N" and "se_echo (nt_sessions net i) = Running g Collecting"
    and "se_queue (nt_sessions net i) \<noteq> []"
  shows "net_step N ordered (NetReceive i) net \<noteq> None"
  using assms
  by (cases "se_queue (nt_sessions net i)") (auto simp: net_step_def party_step_def session_step_def split: prod.splits)

lemma reply_enabled:
  assumes "i < parties N" and "se_echo (nt_sessions net i) = Running g (Awaiting rx h hashes)"
    and "nt_replies net i rx \<noteq> []"
  shows "net_step N ordered (NetReply i 0) net \<noteq> None"
  using assms by (auto simp: net_step_def party_step_def session_step_def split: prod.splits)

text \<open>The round a party is in.\<close>

definition level :: "('pid, 'done) net_env \<Rightarrow> ('pid, 'done) net \<Rightarrow> nat \<Rightarrow> nat" where
  "level N net i =
     (case se_echo (nt_sessions net i) of
        Running g (Awaiting rx h hashes) \<Rightarrow> rx
      | _ \<Rightarrow> consumed net i div parties N)"

lemma level_consumed:
  assumes "gadget_at N i (nt_taken net i) (nt_sessions net i) (consumed net i)"
  shows "level N net i * parties N \<le> consumed net i"
  using assms by (auto simp: level_def gadget_at_def split: wrapped.splits echo_stage.splits)

text \<open>
  A state in which no step can be taken: every party waits for a broadcast or for replies. Of the parties
  in the earliest round one waits for a broadcast of it; its sender can send it or the network
  can deliver it.
\<close>

lemma stuck_done:
  assumes "net_ok N" and "net_inv N net" and "sent_ok N net" and "counted N net" and "all_alive N net"
    and stuck: "\<And>ev. paced_step N ev net = None" and "i < parties N"
  shows "ne_rounds N \<le> level N net i"
proof -
  let ?n = "parties N" and ?R = "ne_rounds N"
  have n: "2 \<le> ?n" and n0: "0 < ?n" using net_okD(1) [OF assms(1)] by linarith+
  have party: "party_ok N net k" and live: "alive N k (nt_sessions net k)"
    and taken: "taken_ok N (nt_taken net k)" if "k < ?n" for k
    using assms(2,5) that by (simp_all add: net_inv_def all_alive_def party_ok_def)
  have at: "gadget_at N k (nt_taken net k) (nt_sessions net k) (consumed net k)" if "k < ?n" for k
    using party [OF that] live [OF that] by (auto simp: party_ok_def overflowed_def alive_def)
  have idle: "se_queue (nt_sessions net k) = []" if "k < ?n" "se_echo (nt_sessions net k) = Running g Collecting"
    for k g using receive_enabled [OF that, of True] stuck [of "NetReceive k"] by (auto simp: paced_step_def paced_def)
  have silent: "nt_replies net k rx = []" if "k < ?n" "se_echo (nt_sessions net k) = Running g (Awaiting rx h hashes)"
    for k g rx h hashes
    using reply_enabled [OF that, of True] stuck [of "NetReply k 0"] by (auto simp: paced_step_def paced_def)
  obtain m where m: "m < ?n" "\<And>k. k < ?n \<Longrightarrow> level N net m \<le> level N net k"
    using ex_has_least_nat [of "\<lambda>k. k < ?n" i "level N net"] assms(7) by blast
  let ?r = "level N net m"
  have "?R \<le> ?r"
  proof (rule ccontr)
    assume "\<not> ?R \<le> ?r"
    then have R: "?r < ?R" by simp
    text \<open>One of the parties in the earliest round collects.\<close>
    obtain q g where q: "q < ?n" "level N net q = ?r" "se_echo (nt_sessions net q) = Running g Collecting"
    proof -
      obtain g stage where run: "se_echo (nt_sessions net m) = Running g stage" using live [OF m(1)] by (rule aliveD)
      show thesis
      proof (cases stage)
        case Collecting
        with that [OF m(1) refl] run show thesis by blast
      next
        case (Awaiting rx h hashes)
        then have r: "?r = rx" using run by (simp add: level_def)
        have few: "length hashes < ?n - 1" using at [OF m(1)] run Awaiting by (simp add: gadget_at_def)
        have "length (nt_replies net m rx) +
            looked_at N (se_echo (nt_sessions net m)) (consumed net m) rx = card (past_round N net m rx)"
          using assms(4) m(1) by (simp add: counted_def)
        then have "card (past_round N net m rx) = length hashes"
          using silent [OF m(1) run [unfolded Awaiting]] run Awaiting by (simp add: looked_at_def)
        with few have "card (past_round N net m rx) < card ({0..<?n} - {m})" using m(1) by simp
        then have "\<not> {0..<?n} - {m} \<subseteq> past_round N net m rx" by (meson card_mono finite_past_round leD)
        then obtain q where q: "q < ?n" "q \<noteq> m" "consumed net q < Suc rx * ?n"
          by (auto simp: past_round_def not_le simp del: mult_Suc) (meson not_le)
        have "level N net q * ?n < Suc rx * ?n" using level_consumed [OF at [OF q(1)]] q(3) by linarith
        then have "level N net q < Suc rx" by (simp only: mult_less_cancel2)
        with m(2) [OF q(1)] r have lq: "level N net q = ?r" by simp
        obtain g' stage' where run': "se_echo (nt_sessions net q) = Running g' stage'" using live [OF q(1)] by (rule aliveD)
        moreover have "stage' = Collecting"
        proof (cases stage')
          case (Awaiting rx' h' hashes')
          then have "consumed net q = Suc rx * ?n" using at [OF q(1)] run' lq r by (simp add: gadget_at_def level_def)
          with q(3) show ?thesis by simp
        qed
        ultimately show thesis using that [OF q(1) lq] by simp
      qed
    qed
    have cq: "consumed net q = length (nt_taken net q)" using idle [OF q(1,3)] by (simp add: consumed_def)
    have r: "?r = consumed net q div ?n" using q(2,3) by (simp add: level_def)
    then have upper: "length (nt_taken net q) < Suc ?r * ?n"
      using n0 cq by (metis dividend_less_div_times mult.commute add.commute mult_Suc)
    have "?r * ?n \<le> length (nt_taken net q)" using r cq by simp
    then have rounds: "has_rounds N ?r (nt_taken net q)" using taken_has_rounds [OF taken [OF q(1)] n0] by blast
    text \<open>A broadcast that it misses.\<close>
    have "\<not> has_rounds N (Suc ?r) (nt_taken net q)"
      using has_rounds_length [of N "Suc ?r" "nt_taken net q"] upper taken [OF q(1)] by (auto simp: taken_ok_def)
    with rounds obtain j where j: "j < ?n" "(j, ?r) \<notin> set (nt_taken net q)"
      by (auto simp: has_rounds_def less_Suc_eq)
    show False
    proof (cases "?r < nt_sent net j")
      case True
      with assms(3) q(1) j have "q \<noteq> j" "(j, q, ?r, ne_body N ?r j) \<in> set (nt_flight net)"
        by (auto simp: sent_ok_def)
      then obtain f where f: "f < length (nt_flight net)" "nt_flight net ! f = (j, q, ?r, ne_body N ?r j)"
        by (metis in_set_conv_nth)
      have room: "length (se_queue (nt_sessions net q)) \<le> ?n" using idle [OF q(1,3)] by simp
      have "net_step N True (NetDeliver f) net \<noteq> None"
        using net_deliver_eq [OF assms(1) f q(1) j(1) _ _ live [OF q(1)] room, of True] \<open>q \<noteq> j\<close> rounds by simp
      moreover have "paced N (NetDeliver f) net" using f q(3) room by (simp add: paced_def in_pace_def)
      ultimately show False using stuck [of "NetDeliver f"] by (simp add: paced_step_def)
    next
      case False
      then have sent: "nt_sent net j \<le> ?r" by simp
      have "?r * ?n \<le> level N net j * ?n" using m(2) [OF j(1)] by (rule mult_le_mono1)
      then have cj: "?r * ?n \<le> consumed net j" using level_consumed [OF at [OF j(1)]] by linarith
      have len: "consumed net j \<le> length (nt_taken net j)" using at [OF j(1)] by (simp add: gadget_at_def)
      have "nt_sent net j * ?n \<le> ?r * ?n" using sent by (rule mult_le_mono1)
      then have ready: "has_rounds N (nt_sent net j) (nt_taken net j)"
        using cj len by (intro taken_has_rounds [OF taken [OF j(1)] n0]) linarith
      obtain g' stage where run: "se_echo (nt_sessions net j) = Running g' stage" using live [OF j(1)] by (rule aliveD)
      show False
      proof (cases stage)
        case Collecting
        then have room: "length (se_queue (nt_sessions net j)) \<le> ?n" using idle [OF j(1)] run by simp
        have "net_step N True (NetSend j) net \<noteq> None"
          using net_send_eq [OF assms(1) j(1) _ ready live [OF j(1)] room] sent R by simp
        moreover have "paced N (NetSend j) net" using run Collecting room by (simp add: paced_def in_pace_def)
        ultimately show False using stuck [of "NetSend j"] by (simp add: paced_step_def)
      next
        case (Awaiting rx h hashes)
        then have "consumed net j = Suc (level N net j) * ?n" using at [OF j(1)] run by (simp add: gadget_at_def level_def)
        moreover have "Suc ?r * ?n \<le> Suc (level N net j) * ?n" using m(2) [OF j(1)] by (intro mult_le_mono1) simp
        ultimately have "Suc ?r * ?n \<le> length (nt_taken net j)" using len by linarith
        then have "has_rounds N (Suc ?r) (nt_taken net j)" by (rule taken_has_rounds [OF taken [OF j(1)] n0])
        then have "(j, ?r) \<in> set (nt_taken net j)" using j(1) by (simp add: has_rounds_def)
        with party [OF j(1)] have "?r < nt_sent net j" by (auto simp: party_ok_def)
        with sent show False by simp
      qed
    qed
  qed
  with m(2) [OF assms(7)] show ?thesis by linarith
qed

lemma done_work:
  assumes "net_ok N" and "net_inv N net" and "all_alive N net" and "i < parties N"
    and "ne_rounds N \<le> level N net i"
  shows "party_work N net i = full_work N"
proof -
  let ?n = "parties N" and ?R = "ne_rounds N" and ?s = "nt_sessions net i" and ?c = "consumed net i"
  have n0: "0 < ?n" using net_okD(1) [OF assms(1)] by linarith
  obtain k where k: "?n = Suc k" using n0 by (cases ?n) auto
  have live: "alive N i ?s" and taken: "taken_ok N (nt_taken net i)" using assms(2-4)
    by (simp_all add: all_alive_def net_inv_def party_ok_def)
  then have at: "gadget_at N i (nt_taken net i) ?s ?c"
    using assms(2,4) by (auto simp: net_inv_def party_ok_def overflowed_def alive_def)
  have "?R * ?n \<le> level N net i * ?n" using assms(5) by (rule mult_le_mono1)
  then have "?R * ?n \<le> ?c" using level_consumed [OF at] by linarith
  moreover have "?c \<le> length (nt_taken net i)" using at by (simp add: gadget_at_def)
  ultimately have c: "?c = ?R * ?n" "length (nt_taken net i) = ?R * ?n" using taken_le [OF taken n0] by linarith+
  obtain g stage where run: "se_echo ?s = Running g stage" using live by (rule aliveD)
  have "stage = Collecting"
  proof (cases stage)
    case (Awaiting rx h hashes)
    with at run have "?c = Suc rx * ?n" by (simp add: gadget_at_def)
    with c n0 have "?R = Suc rx" by (metis mult_cancel2 less_numeral_extra(3))
    moreover have "level N net i = rx" using run Awaiting by (simp add: level_def)
    ultimately show ?thesis using assms(5) by simp
  qed
  then show ?thesis using run c n0 unfolding party_work_def full_work_def by (simp add: replied_def) (simp add: k algebra_simps)
qed

text \<open>No echo fails, whatever state the parties are in.\<close>

lemma no_echo_fails:
  assumes "net_ok N" and "net_reach N True net" and "i < parties N"
  shows "(\<exists>g stage. se_echo (nt_sessions net i) = Running g stage) \<or>
    (se_echo (nt_sessions net i) = WrapPanicked ExpectFailed \<and> 1 < ne_rounds N)"
  using net_reach_inv [OF assms(2,1)] assms(3)
  by (fastforce simp: net_inv_def party_ok_def overflowed_def elim: aliveD)

section \<open>All rounds complete\<close>

lemma paced_run_inv:
  assumes "net_ok N" and "paced_run N evs net = Some net'"
    and "net_reach N True net" and "all_alive N net"
  shows "net_reach N True net' \<and> all_alive N net' \<and> work N net' = work N net + length evs"
  using assms(2-4)
proof (induction evs arbitrary: net)
  case (Cons ev evs)
  then obtain net1 where one: "paced_step N ev net = Some net1" and rest: "paced_run N evs net1 = Some net'"
    by (auto split: option.splits)
  from one have "net_step N True ev net = Some net1" by (simp add: paced_step_def split: if_splits)
  with Cons.prems(2) have reach: "net_reach N True net1" by (rule net_reach_step)
  note works = paced_step_works [OF assms(1) net_reach_inv [OF Cons.prems(2) assms(1)] Cons.prems(3) one]
  from Cons.IH [OF rest reach works(1)] works(2) show ?case by simp
qed simp

lemma net_start_alive: "all_alive N (net_start N)" and net_start_work: "work N (net_start N) = 0"
  by (simp_all add: all_alive_def alive_def net_start_def wrap_start_def work_def party_work_def consumed_def
      replied_def)

text \<open>
  C7: Honest parties complete every round of the echo. The broadcasts of a round arrive before those of
  the next, the agents take what they are handed, and the parties keep the pace (\<open>paced\<close>: a collecting
  gadget is polled before its channel is full, and none is handed a broadcast of more than one round
  ahead of the round whose replies it waits for; without it the channel can overflow, see
  \<open>honest_backlog_panics\<close>). Then, whatever the order of messages, replies and polls is, no echo fails
  and nothing panics: in every state each gadget runs. No state is stuck: as long as the parties
  have not finished, some party can go on. And every run ends, with all rounds of all parties complete:
  each of the \<open>n\<close> parties takes \<open>3 n - 1\<close> steps for a round (\<open>n\<close> broadcasts taken up, \<open>n\<close> looked at by the
  gadget, \<open>n - 1\<close> replies), no run is longer, and after so many steps every party has completed every
  round and has nothing left to look at.
\<close>

theorem honest_rounds_complete:
  assumes "net_ok N" and "paced_run N evs (net_start N) = Some net"
  shows "(\<forall>i < parties N. \<exists>g stage. se_echo (nt_sessions net i) = Running g stage) \<and>
    length evs \<le> parties N * (ne_rounds N * (3 * parties N - 1)) \<and>
    (if length evs < parties N * (ne_rounds N * (3 * parties N - 1))
     then \<exists>ev. paced_step N ev net \<noteq> None
     else \<forall>i < parties N. se_queue (nt_sessions net i) = [] \<and> se_echo (nt_sessions net i) =
       Running \<lparr>eg_r = word_of_nat (ne_rounds N), eg_n = parties N, eg_msgs = []\<rparr> Collecting)"
proof -
  let ?n = "parties N"
  have reach: "net_reach N True net" and alive: "all_alive N net" and len: "work N net = length evs"
    using paced_run_inv [OF assms net_reach_start net_start_alive] by (simp_all add: net_start_work)
  note inv = net_reach_inv [OF reach assms(1)] and complete = net_reach_complete [OF reach assms(1) alive]
  have each: "\<forall>i \<in> {..<?n}. party_work N net i \<le> full_work N" using party_work_le(1) [OF assms(1) inv alive] by simp
  have "work N net \<le> (\<Sum>i < ?n. full_work N)" unfolding work_def using each by (intro sum_mono) blast
  then have bound: "length evs \<le> ?n * full_work N" by (simp add: len)
  have enabled: "\<exists>ev. paced_step N ev net \<noteq> None" if "length evs < ?n * full_work N"
  proof (rule ccontr)
    assume "\<not> (\<exists>ev. paced_step N ev net \<noteq> None)"
    then have "ne_rounds N \<le> level N net i" if "i < ?n" for i
      using stuck_done [OF assms(1) inv _ _ alive _ that] complete by blast
    then have "party_work N net i = full_work N" if "i < ?n" for i
      using done_work [OF assms(1) inv alive that] that by blast
    then have "work N net = ?n * full_work N" by (simp add: work_def)
    with that show False by (simp add: len)
  qed
  have finished: "\<forall>i < ?n. all_rounds N (nt_sessions net i)" if "length evs = ?n * full_work N"
  proof -
    have "work N net = (\<Sum>i < ?n. full_work N)" using that by (simp add: len)
    then have "party_work N net i = full_work N" if "i < ?n" for i
      using sum_mono_inv [of "party_work N net" "{..<?n}" "\<lambda>_. full_work N" i] each that by (simp add: work_def)
    then show ?thesis using party_work_le(2) [OF assms(1) inv alive] by blast
  qed
  have "\<exists>g stage. se_echo (nt_sessions net i) = Running g stage" if "i < ?n" for i
  proof -
    have "alive N i (nt_sessions net i)" using alive that by (simp add: all_alive_def)
    then show ?thesis by (rule aliveD) blast
  qed
  then show ?thesis
    using bound enabled finished by (auto simp: full_work_def all_rounds_def)
qed

definition sample2 :: "(byte, nat) net_env" where
  "sample2 = sample_net id [4, 9] (\<lambda>r j. [word_of_nat j]) 1"

lemma sample2_ok: "net_ok sample2" unfolding sample2_def by (rule sample_net_ok(1))

lemma sample2_fields [simp]:
  "ne_peers sample2 = [4, 9]" "ne_hash sample2 = id" "ne_checks sample2"
  "ne_body sample2 = (\<lambda>r j. [word_of_nat j])" "ne_rounds sample2 = 1"
  by (simp_all add: sample2_def)

definition sample_events2 :: "net_event list" where
  "sample_events2 =
     [NetSend 0, NetSend 1, NetDeliver 0, NetDeliver 0, NetReceive 0, NetReceive 1, NetReceive 0, NetReceive 1,
      NetReply 0 0, NetReply 1 0]"

lemma sample_run2: "\<exists>net. paced_run sample2 sample_events2 (net_start sample2) = Some net"
  by (simp add: sample_events2_def paced_step_def paced_def in_pace_def
      net_send_eq [OF sample2_ok] net_deliver_eq [OF sample2_ok] run_simps)

theorem honest_rounds_complete_witness:
  "\<exists>net. paced_run sample2 sample_events2 (net_start sample2) = Some net \<and>
     se_echo (nt_sessions net 1) = Running \<lparr>eg_r = 1, eg_n = 2, eg_msgs = []\<rparr> Collecting"
proof -
  from sample_run2 obtain net where run: "paced_run sample2 sample_events2 (net_start sample2) = Some net" by blast
  from honest_rounds_complete [OF sample2_ok run] run show ?thesis by (auto simp: sample_events2_def)
qed

end
