(* ===== verification/Early_Rounds.thy ===== *)
theory Early_Rounds
  imports Rounds
begin

text \<open>
  What happens to honest parties when rounds overlap: a network in which a broadcast may arrive before
  the round it belongs to, and agents that run ahead of the echo. The invariant here holds
  in every state of a network that delivers in any order: what a gadget hashes and acknowledges, which
  replies there are for a broadcast, and that a party that has completed a round agrees with
  every other party about the hash under which its broadcast of that round was acknowledged.
\<close>

section \<open>Groups of broadcasts\<close>

text \<open>
  A gadget closes a round when it has taken \<open>n\<close> broadcasts, of whatever rounds they are: the
  \<open>p\<close>-th group of those the party has taken up. It hashes them in the order of its heap.
\<close>

definition group :: "('pid, 'done) net_env \<Rightarrow> nat \<Rightarrow> (nat \<times> nat) list \<Rightarrow> (nat \<times> nat) list" where
  "group N p taken = take (parties N) (drop (p * parties N) taken)"

definition heap_input :: "echo_message list \<Rightarrow> bytes" where
  "heap_input h = ed_written (drain_heap h \<lparr>ed_written = [], ed_acks = [], ed_outgoing = None\<rparr>)"

definition group_hash :: "('pid, 'done) net_env \<Rightarrow> nat \<Rightarrow> nat \<Rightarrow> (nat \<times> nat) list \<Rightarrow> bytes" where
  "group_hash N i p taken = ne_hash N (heap_input (rev (map (echo_view N i) (group N p taken))))"

lemma group_append: "Suc p * parties N \<le> length taken \<Longrightarrow> group N p (taken @ later) = group N p taken"
  by (simp add: group_def)

lemma group_hash_append:
  "Suc p * parties N \<le> length taken \<Longrightarrow> group_hash N i p (taken @ later) = group_hash N i p taken"
  by (simp only: group_hash_def group_append)

lemma in_groupD:
  assumes "x \<in> set (group N p taken)"
  obtains m where "m < length taken" "taken ! m = x" "p * parties N \<le> m" "m < Suc p * parties N"
proof -
  from assms obtain k where k: "k < length (group N p taken)" "group N p taken ! k = x" by (metis in_set_conv_nth)
  then have "k < parties N" "p * parties N + k < length taken" "taken ! (p * parties N + k) = x"
    by (auto simp: group_def)
  then show thesis by (intro that [of "p * parties N + k"]) auto
qed

lemma same_group:
  assumes "distinct taken" and "x \<in> set (group N p taken)" and "x \<in> set (group N q taken)"
  shows "p = q"
proof -
  obtain m where m: "m < length taken" "taken ! m = x" "p * parties N \<le> m" "m < Suc p * parties N"
    using assms(2) by (rule in_groupD)
  obtain m' where m': "m' < length taken" "taken ! m' = x" "q * parties N \<le> m'" "m' < Suc q * parties N"
    using assms(3) by (rule in_groupD)
  have "m = m'" using assms(1) m m' by (simp add: nth_eq_iff_index_eq [symmetric])
  then have "p * parties N < Suc q * parties N" "q * parties N < Suc p * parties N" using m m' by linarith+
  then have "p < Suc q" "q < Suc p" by (simp_all only: mult_less_cancel2)
  then show ?thesis by simp
qed

lemma length_group: "Suc p * parties N \<le> length taken \<Longrightarrow> length (group N p taken) = parties N"
  by (simp add: group_def)

section \<open>The gadget, in any order\<close>

definition gadget_in ::
  "('pid, 'done) net_env \<Rightarrow> nat \<Rightarrow> (nat \<times> nat) list \<Rightarrow> ('pid, 'done) session \<Rightarrow> nat \<Rightarrow> bool" where
  "gadget_in N i taken s c \<longleftrightarrow>
     c \<le> length taken \<and> se_queue s = map (echo_view N i) (drop c taken) \<and>
     (case se_echo s of
        Running g Collecting \<Rightarrow>
          g = \<lparr>eg_r = word_of_nat (c div parties N), eg_n = parties N,
            eg_msgs = rev (map (echo_view N i) (drop (c div parties N * parties N) (take c taken)))\<rparr>
      | Running g (Awaiting rx h hashes) \<Rightarrow>
          c = Suc rx * parties N \<and> g = \<lparr>eg_r = word_of_nat rx, eg_n = parties N, eg_msgs = []\<rparr> \<and>
          h = group_hash N i rx taken \<and> length hashes < parties N - 1
      | _ \<Rightarrow> False)"

lemma gadget_in_snoc:
  "gadget_in N i taken s c \<Longrightarrow>
   gadget_in N i (taken @ [x]) (s\<lparr>se_queue := se_queue s @ [echo_view N i x]\<rparr>) c"
  by (auto simp: gadget_in_def group_hash_append simp del: mult_Suc split: wrapped.splits echo_stage.splits)

lemma emit_echo_any:
  fixes g :: echo_gadget
  obtains xs where "mset xs = mset (eg_msgs g)"
    and "emit_echo H (\<lambda>_. True) g =
      (if concat (map outgoing_rx xs) = [] then (Inl ExpectFailed, [])
       else (Inr (g\<lparr>eg_msgs := []\<rparr>, Awaiting (last (concat (map outgoing_rx xs))) (H (heap_input (eg_msgs g))) []),
         map (\<lambda>tx. (tx, \<lparr>or_result = Inr (H (heap_input (eg_msgs g))), or_sent_feedback = None\<rparr>))
           (concat (map incoming_ack xs))))"
proof -
  let ?d = "\<lparr>ed_written = [], ed_acks = [], ed_outgoing = None\<rparr>"
  obtain xs where xs: "mset xs = mset (eg_msgs g)" "drain_heap (eg_msgs g) ?d = fold drain_one xs ?d"
    by (rule drained)
  show thesis
  proof (rule that [OF xs(1)])
    have "send_acks (\<lambda>_. True) h (concat (map incoming_ack xs)) =
        (Inr (), map (\<lambda>tx. (tx, \<lparr>or_result = Inr h, or_sent_feedback = None\<rparr>)) (concat (map incoming_ack xs)))" for h
      by (rule send_acks_open) simp
    then show "emit_echo H (\<lambda>_. True) g =
      (if concat (map outgoing_rx xs) = [] then (Inl ExpectFailed, [])
       else (Inr (g\<lparr>eg_msgs := []\<rparr>, Awaiting (last (concat (map outgoing_rx xs))) (H (heap_input (eg_msgs g))) []),
         map (\<lambda>tx. (tx, \<lparr>or_result = Inr (H (heap_input (eg_msgs g))), or_sent_feedback = None\<rparr>))
           (concat (map incoming_ack xs))))"
      by (simp add: emit_echo_def heap_input_def xs(2) fold_drain_one fold_Some Let_def del: concat_eq_Nil_conv)
  qed
qed

lemma receive_in:
  fixes s :: "('pid, 'done) session"
  assumes ok: "net_ok N" and live: "alive N i s" and at: "gadget_in N i taken s c"
    and step: "session_step P (ne_hash N) checks (\<lambda>_. True) SeReceive (s, fs) = Some (s', fs', eff)"
  defines "d \<equiv> c div parties N"
  obtains
    (more) g' where "c < length taken" "Suc c mod parties N \<noteq> 0" "alive N i s'" "gadget_in N i taken s' (Suc c)"
      "acks_sent eff = []" "se_echo s' = Running g' Collecting"
  | (full) xs where "c < length taken" "Suc c = Suc d * parties N"
      "mset xs = mset (map (echo_view N i) (group N d taken))" "concat (map outgoing_rx xs) \<noteq> []" "alive N i s'"
      "se_queue s' = map (echo_view N i) (drop (Suc c) taken)"
      "se_echo s' = Running \<lparr>eg_r = word_of_nat d, eg_n = parties N, eg_msgs = []\<rparr>
         (Awaiting (last (concat (map outgoing_rx xs))) (group_hash N i d taken) [])"
      "acks_sent eff = map (\<lambda>tx. (tx, \<lparr>or_result = Inr (group_hash N i d taken), or_sent_feedback = None\<rparr>))
         (concat (map incoming_ack xs))"
  | (none) "c < length taken" "se_echo s' = WrapPanicked ExpectFailed" "se_queue s' = []" "acks_sent eff = []"
proof -
  let ?n = "parties N"
  have n: "2 \<le> ?n" by (rule net_okD(1) [OF ok])
  from live obtain g stage where s: "se_echo s = Running g stage" "se_n s = ?n"
    "se_exec s = \<lparr>pe_state = Some (ne_states N i)\<rparr>" by (rule aliveD)
  from step s(1) have stage: "stage = Collecting" and "se_queue s \<noteq> []"
    by (auto simp: session_step_def split: echo_stage.splits list.splits)
  with at have c: "c < length taken" and queue: "se_queue s = map (echo_view N i) (drop c taken)"
    by (auto simp: gadget_in_def)
  let ?m = "echo_view N i (taken ! c)"
  let ?seen = "drop (d * ?n) (take c taken)"
  from at s(1) stage have g: "g = \<lparr>eg_r = word_of_nat d, eg_n = ?n, eg_msgs = rev (map (echo_view N i) ?seen)\<rparr>"
    by (simp add: gadget_in_def d_def)
  have q: "se_queue s = ?m # map (echo_view N i) (drop (Suc c) taken)"
    using queue c by (simp add: Cons_nth_drop_Suc [symmetric])
  have seen: "length ?seen = c mod ?n" using c by (simp add: modulo_nat_def d_def)
  have ext: "drop (d * ?n) (take (Suc c) taken) = ?seen @ [taken ! c]"
    using c by (simp add: take_Suc_conv_app_nth d_def)
  let ?g = "g\<lparr>eg_msgs := ?m # rev (map (echo_view N i) ?seen)\<rparr>"
  let ?s = "s\<lparr>se_queue := map (echo_view N i) (drop (Suc c) taken)\<rparr>"
  show thesis
  proof (cases "Suc (c mod ?n) = ?n")
    case False
    then have full: "Suc c mod ?n \<noteq> 0" and div: "Suc c div ?n = d" by (simp_all add: mod_Suc div_Suc d_def)
    have "session_step P (ne_hash N) checks (\<lambda>_. True) SeReceive (s, fs) =
        Some (?s\<lparr>se_echo := Running ?g Collecting\<rparr>, fs, [])"
      using s(1) stage q g False seen
      by (simp add: session_step_def proceed_message_def heap_push_def Let_def after_round_def
          session_wrapped_def)
    with step have s': "s' = ?s\<lparr>se_echo := Running ?g Collecting\<rparr>" "eff = []" by simp_all
    have "gadget_in N i taken s' (Suc c)" using c by (simp add: s' gadget_in_def g div ext [simplified])
    moreover have "alive N i s'" using s by (simp add: s' alive_def)
    ultimately show thesis using more c full by (simp add: s')
  next
    case True
    have Suc_c: "Suc c = Suc d * ?n"
      using True unfolding d_def by (metis add_Suc_right add.commute div_mult_mod_eq mult_Suc)
    have grp: "?seen @ [taken ! c] = group N d taken"
      using ext by (simp add: group_def Suc_c take_drop add.commute)
    have len: "length (eg_msgs ?g) = eg_n ?g" using True seen g by simp
    have msgs: "eg_msgs ?g = rev (map (echo_view N i) (group N d taken))" by (simp add: grp [symmetric])
    obtain xs where xs: "mset xs = mset (eg_msgs ?g)" and emit: "emit_echo (ne_hash N) (\<lambda>_. True) ?g =
      (if concat (map outgoing_rx xs) = [] then (Inl ExpectFailed, [])
       else (Inr (?g\<lparr>eg_msgs := []\<rparr>, Awaiting (last (concat (map outgoing_rx xs)))
           (ne_hash N (heap_input (eg_msgs ?g))) [] :: 'pid echo_stage),
         map (\<lambda>tx. (tx, \<lparr>or_result = Inr (ne_hash N (heap_input (eg_msgs ?g))), or_sent_feedback = None\<rparr>))
           (concat (map incoming_ack xs))))" by (rule emit_echo_any)
    have hash: "ne_hash N (heap_input (eg_msgs ?g)) = group_hash N i d taken" by (simp only: group_hash_def msgs)
    have mset: "mset xs = mset (map (echo_view N i) (group N d taken))" using xs by (simp only: msgs mset_rev)
    have proceed: "proceed_message (ne_hash N) (\<lambda>_. True) ?m g =
      (if concat (map outgoing_rx xs) = [] then (RoundPanicked ExpectFailed, [])
       else (Waiting (?g\<lparr>eg_msgs := []\<rparr>) (Awaiting (last (concat (map outgoing_rx xs))) (group_hash N i d taken) []),
         map (\<lambda>tx. (tx, \<lparr>or_result = Inr (group_hash N i d taken), or_sent_feedback = None\<rparr>))
           (concat (map incoming_ack xs))) :: ('pid, string) echo_result \<times> (chan \<times> outgoing_response) list)"
      using len emit unfolding hash by (simp add: proceed_message_def heap_push_def Let_def g)
    show thesis
    proof (cases "concat (map outgoing_rx xs) = []")
      case True
      have "session_step P (ne_hash N) checks (\<lambda>_. True) SeReceive (s, fs) =
          Some (session_end (WrapPanicked ExpectFailed) ?s, fs, dropped ?s)"
        using s(1) stage q proceed True
        by (simp add: session_step_def after_round_def session_wrapped_def del: concat_eq_Nil_conv)
      with step have "s' = session_end (WrapPanicked ExpectFailed) ?s" "eff = dropped ?s" by simp_all
      then show thesis using none c by (simp add: dropped_def split: option.splits)
    next
      case False
      have "session_step P (ne_hash N) checks (\<lambda>_. True) SeReceive (s, fs) =
          Some (?s\<lparr>se_echo := Running (?g\<lparr>eg_msgs := []\<rparr>)
              (Awaiting (last (concat (map outgoing_rx xs))) (group_hash N i d taken) [])\<rparr>, fs,
            map (\<lambda>(tx, resp). SeAcked tx resp) (map (\<lambda>tx. (tx, \<lparr>or_result = Inr (group_hash N i d taken),
              or_sent_feedback = None\<rparr>)) (concat (map incoming_ack xs))))"
        using s(1) stage q proceed False
        by (simp add: session_step_def after_round_def session_wrapped_def del: concat_eq_Nil_conv map_map)
      with step have s': "s' = ?s\<lparr>se_echo := Running (?g\<lparr>eg_msgs := []\<rparr>)
          (Awaiting (last (concat (map outgoing_rx xs))) (group_hash N i d taken) [])\<rparr>"
        "eff = map (\<lambda>(tx, resp). SeAcked tx resp) (map (\<lambda>tx. (tx, \<lparr>or_result = Inr (group_hash N i d taken),
              or_sent_feedback = None\<rparr>)) (concat (map incoming_ack xs)))" by simp_all
      have "alive N i s'" using s by (simp add: s' alive_def)
      moreover have "acks_sent eff = map (\<lambda>tx. (tx, \<lparr>or_result = Inr (group_hash N i d taken),
          or_sent_feedback = None\<rparr>)) (concat (map incoming_ack xs))" by (simp only: s' effects_map)
      ultimately show thesis using full [OF c Suc_c mset False] by (simp add: s' g)
    qed
  qed
qed

lemma reply_in:
  fixes s :: "('pid, 'done) session"
  assumes ok: "net_ok N" and live: "alive N i s"
    and stage: "se_echo s = Running \<lparr>eg_r = word_of_nat rx, eg_n = parties N, eg_msgs = []\<rparr> (Awaiting rx h hashes)"
    and rx: "rx < ne_rounds N" and rs: "\<forall>y \<in> set (hashes @ [x]). \<exists>p h. y = Inr (p, h)"
    and step: "session_step P H (ne_checks N) (\<lambda>_. True) (SeReply x) (s, fs) = Some (s', fs', eff)"
  obtains
    (more) "Suc (length hashes) \<noteq> parties N - 1"
      "s' = s\<lparr>se_echo := Running \<lparr>eg_r = word_of_nat rx, eg_n = parties N, eg_msgs = []\<rparr> (Awaiting rx h (hashes @ [x]))\<rparr>"
  | (last) "Suc (length hashes) = parties N - 1" "\<forall>y \<in> set (hashes @ [x]). \<exists>p. y = Inr (p, h)"
      "s' = s\<lparr>se_echo := Running \<lparr>eg_r = word_of_nat (Suc rx), eg_n = parties N, eg_msgs = []\<rparr> Collecting\<rparr>"
  | (failed) m where "Suc (length hashes) = parties N - 1" "\<exists>y \<in> set (hashes @ [x]). \<nexists>p. y = Inr (p, h)"
      "se_echo s' = Returned (Inl (InconsistentEcho m))" "se_queue s' = []"
proof -
  let ?n = "parties N"
  have add: "u16_add (ne_checks N) (word_of_nat rx) 1 = Inr (word_of_nat (Suc rx))"
    using net_okD(2) [OF ok] rx by (intro u16_add_nat) simp
  have check: "(\<exists>m. check_echoes h k ys = (Inl (InconsistentEcho m) :: string rt_error + unit)) \<or>
      check_echoes h k ys = (Inr () :: string rt_error + unit)" if "\<forall>y \<in> set ys. \<exists>p h. y = Inr (p, h)" for k ys
    using that
  proof (induction ys arbitrary: k)
    case (Cons y ys)
    then obtain p h' where "y = Inr (p, h')" by auto
    with Cons show ?case by auto
  qed simp
  show thesis
  proof (cases "Suc (length hashes) = ?n - 1")
    case False
    then show thesis
      using more step stage
      by (simp add: session_step_def proceed_reply_def Let_def after_round_def session_wrapped_def)
  next
    case True
    from check [OF rs, of 0] show thesis
    proof
      assume "\<exists>m. check_echoes h 0 (hashes @ [x]) = (Inl (InconsistentEcho m) :: string rt_error + unit)"
      then obtain m where m: "check_echoes h 0 (hashes @ [x]) = (Inl (InconsistentEcho m) :: string rt_error + unit)"
        by blast
      then have "check_echoes h 0 (hashes @ [x]) \<noteq> (Inr () :: string rt_error + unit)" by simp
      then have "\<exists>y \<in> set (hashes @ [x]). \<nexists>p. y = Inr (p, h)" unfolding check_echoes_ok by blast
      then show thesis
        using failed [OF True] step stage True m
        by (auto simp add: session_step_def proceed_reply_def Let_def after_round_def session_wrapped_def)
    next
      assume c: "check_echoes h 0 (hashes @ [x]) = (Inr () :: string rt_error + unit)"
      then have "\<forall>y \<in> set (hashes @ [x]). \<exists>p. y = Inr (p, h)" by (simp only: check_echoes_ok)
      then show thesis
        using last [OF True] step stage True add c
        by (simp add: session_step_def proceed_reply_def Let_def after_round_def session_wrapped_def del: of_nat_Suc)
    qed
  qed
qed

section \<open>The invariant\<close>

text \<open>What a party has taken up, its own broadcast of round \<open>r\<close> only after \<open>r\<close> whole rounds.\<close>

definition taken_in :: "('pid, 'done) net_env \<Rightarrow> ('pid, 'done) net \<Rightarrow> nat \<Rightarrow> bool" where
  "taken_in N net i \<longleftrightarrow> distinct (nt_taken net i) \<and>
     (\<forall>(j, r) \<in> set (nt_taken net i). j < parties N \<and> r < ne_rounds N \<and> r < nt_sent net j) \<and>
     (\<forall>m < length (nt_taken net i). fst (nt_taken net i ! m) = i \<longrightarrow> snd (nt_taken net i ! m) * parties N \<le> m)"

text \<open>A vote: party \<open>i\<close>'s reply to the broadcast \<open>(j, r)\<close>, which is in its \<open>p\<close>-th group.\<close>

definition vote ::
  "('pid, 'done) net_env \<Rightarrow> ('pid, 'done) net \<Rightarrow> nat \<Rightarrow> nat \<Rightarrow> nat \<Rightarrow> nat \<Rightarrow> 'pid reply \<Rightarrow> bool" where
  "vote N net j r i p x \<longleftrightarrow> i < parties N \<and> i \<noteq> j \<and> Suc p * parties N \<le> consumed net i \<and>
     (j, r) \<in> set (group N p (nt_taken net i)) \<and>
     x = Inr (ne_peers N ! i, group_hash N i p (nt_taken net i))"

definition votes :: "('pid, 'done) net \<Rightarrow> nat \<Rightarrow> nat \<Rightarrow> 'pid reply list" where
  "votes net j r =
     (case se_echo (nt_sessions net j) of
        Running g (Awaiting rx h hashes) \<Rightarrow> if rx = r then hashes else []
      | _ \<Rightarrow> []) @ nt_replies net j r"

definition votes_ok :: "('pid, 'done) net_env \<Rightarrow> ('pid, 'done) net \<Rightarrow> bool" where
  "votes_ok N net \<longleftrightarrow>
     (\<forall>j < parties N. \<forall>r. distinct (votes net j r) \<and> (\<forall>x \<in> set (votes net j r). \<exists>i p. vote N net j r i p x))"

text \<open>The rounds a party has completed, its own broadcasts in its groups, and whom it agrees with.\<close>

definition passed :: "('pid, 'done) net_env \<Rightarrow> ('pid, 'done) net \<Rightarrow> nat \<Rightarrow> nat" where
  "passed N net j =
     (case se_echo (nt_sessions net j) of
        Running g (Awaiting rx h hashes) \<Rightarrow> rx
      | _ \<Rightarrow> consumed net j div parties N)"

definition own_groups :: "('pid, 'done) net_env \<Rightarrow> ('pid, 'done) net \<Rightarrow> nat \<Rightarrow> bool" where
  "own_groups N net j \<longleftrightarrow> (\<forall>d < consumed net j div parties N. (j, d) \<in> set (group N d (nt_taken net j)))"

definition agrees :: "('pid, 'done) net_env \<Rightarrow> ('pid, 'done) net \<Rightarrow> nat \<Rightarrow> nat \<Rightarrow> nat \<Rightarrow> bool" where
  "agrees N net j d i \<longleftrightarrow>
     (\<exists>p. Suc p * parties N \<le> length (nt_taken net i) \<and> (j, d) \<in> set (group N p (nt_taken net i)) \<and>
        group_hash N i p (nt_taken net i) = group_hash N j d (nt_taken net j))"

definition ended :: "('pid, string) wrapped \<Rightarrow> bool" where
  "ended w \<longleftrightarrow> (\<exists>m. w = Returned (Inl (InconsistentEcho m))) \<or> w = WrapPanicked ExpectFailed"

definition member_ok :: "('pid, 'done) net_env \<Rightarrow> ('pid, 'done) net \<Rightarrow> nat \<Rightarrow> bool" where
  "member_ok N net i \<longleftrightarrow> taken_in N net i \<and>
     (ended (se_echo (nt_sessions net i)) \<and> se_queue (nt_sessions net i) = [] \<or>
      alive N i (nt_sessions net i) \<and>
        gadget_in N i (nt_taken net i) (nt_sessions net i) (consumed net i) \<and> own_groups N net i \<and>
        (\<forall>d < passed N net i. \<forall>k < parties N. k \<noteq> i \<longrightarrow> agrees N net i d k))"

definition async_inv :: "('pid, 'done) net_env \<Rightarrow> ('pid, 'done) net \<Rightarrow> bool" where
  "async_inv N net \<longleftrightarrow> (\<forall>i < parties N. member_ok N net i) \<and> flight_ok N net \<and> votes_ok N net"

lemma gadget_in_consumed: "gadget_in N i (nt_taken net i) (nt_sessions net i) c \<Longrightarrow> consumed net i = c"
  by (simp add: gadget_in_def consumed_def)

lemma async_sessions: "async_inv N net \<Longrightarrow> sessions_ok N net"
  by (fastforce simp: async_inv_def sessions_ok_def member_ok_def ended_def)

lemma member_alive:
  assumes "member_ok N net i" and "alive N i (nt_sessions net i)"
  shows "gadget_in N i (nt_taken net i) (nt_sessions net i) (consumed net i)" and "own_groups N net i"
    and "taken_in N net i" and "d < passed N net i \<Longrightarrow> k < parties N \<Longrightarrow> k \<noteq> i \<Longrightarrow> agrees N net i d k"
  using assms by (auto simp: member_ok_def ended_def alive_def)

text \<open>Steps let everything grow, and what has been said stays true.\<close>

definition grows :: "('pid, 'done) net \<Rightarrow> ('pid, 'done) net \<Rightarrow> bool" where
  "grows net net' \<longleftrightarrow> (\<forall>k. consumed net k \<le> consumed net' k \<and> nt_sent net k \<le> nt_sent net' k \<and>
     (\<exists>later. nt_taken net' k = nt_taken net k @ later))"

lemma consumed_le: "consumed net i \<le> length (nt_taken net i)"
  by (simp add: consumed_def)

lemma vote_grows:
  assumes "grows net net'" and "vote N net j r i p x"
  shows "vote N net' j r i p x"
proof -
  obtain later where T: "nt_taken net' i = nt_taken net i @ later" and c: "consumed net i \<le> consumed net' i"
    using assms(1) by (auto simp: grows_def)
  have "Suc p * parties N \<le> length (nt_taken net i)"
    using assms(2) consumed_le [of net i] unfolding vote_def by linarith
  note same = group_append [OF this, of later] group_hash_append [OF this, of i later]
  have "Suc p * parties N \<le> consumed net' i" using assms(2) c unfolding vote_def by linarith
  then show ?thesis using assms(2) by (simp add: vote_def T same del: mult_Suc)
qed

lemma agrees_grows:
  assumes "grows net net'" and "agrees N net j d i" and "Suc d * parties N \<le> length (nt_taken net j)"
  shows "agrees N net' j d i"
proof -
  obtain later where T: "nt_taken net' i = nt_taken net i @ later" using assms(1) by (auto simp: grows_def)
  obtain later' where T': "nt_taken net' j = nt_taken net j @ later'" using assms(1) by (auto simp: grows_def)
  from assms(2) obtain p where p: "Suc p * parties N \<le> length (nt_taken net i)"
    and "(j, d) \<in> set (group N p (nt_taken net i))"
      "group_hash N i p (nt_taken net i) = group_hash N j d (nt_taken net j)" unfolding agrees_def by blast
  then have "Suc p * parties N \<le> length (nt_taken net' i) \<and> (j, d) \<in> set (group N p (nt_taken net' i)) \<and>
      group_hash N i p (nt_taken net' i) = group_hash N j d (nt_taken net' j)"
    by (simp add: T T' group_append [OF p] group_hash_append [OF p] group_hash_append [OF assms(3)] del: mult_Suc)
  then show ?thesis unfolding agrees_def by blast
qed

lemma taken_in_grows:
  "grows net net' \<Longrightarrow> nt_taken net' i = nt_taken net i \<Longrightarrow> taken_in N net i \<Longrightarrow> taken_in N net' i"
  by (fastforce simp: taken_in_def grows_def dest: order_less_le_trans)

lemma div_group: "d < c div n \<Longrightarrow> Suc d * n \<le> (c :: nat)"
  by (metis Suc_leI div_times_less_eq_dividend le_trans mult_le_mono1)

lemma passed_le:
  assumes "gadget_in N i (nt_taken net i) (nt_sessions net i) (consumed net i)"
  shows "d < passed N net i \<Longrightarrow> Suc d * parties N \<le> length (nt_taken net i)"
proof -
  assume d: "d < passed N net i"
  have "Suc d * parties N \<le> consumed net i"
  proof (cases "\<exists>g rx h hashes. se_echo (nt_sessions net i) = Running g (Awaiting rx h hashes)")
    case True
    then obtain g rx h hashes where w: "se_echo (nt_sessions net i) = Running g (Awaiting rx h hashes)" by blast
    with d assms have "Suc d \<le> Suc rx" "consumed net i = Suc rx * parties N" by (simp_all add: passed_def gadget_in_def)
    then show ?thesis by (simp only: mult_le_mono1)
  next
    case False
    then have "passed N net i = consumed net i div parties N"
      by (auto simp: passed_def split: wrapped.splits echo_stage.splits)
    with d show ?thesis by (simp only: div_group)
  qed
  then show ?thesis using consumed_le [of net i] by linarith
qed

lemma member_frame:
  assumes "member_ok N net i" and "grows net net'" and "nt_taken net' i = nt_taken net i"
    and "nt_sessions net' i = nt_sessions net i"
  shows "member_ok N net' i"
proof -
  have c: "consumed net' i = consumed net i" using assms(3,4) by (simp add: consumed_def)
  have p: "passed N net' i = passed N net i" unfolding passed_def c assms(4) ..
  show ?thesis
  proof (cases "alive N i (nt_sessions net i)")
    case False
    with assms show ?thesis using taken_in_grows [OF assms(2,3)] by (simp add: member_ok_def)
  next
    case True
    note m = member_alive [OF assms(1) True]
    have "agrees N net' i d k" if "d < passed N net i" "k < parties N" "k \<noteq> i" for d k
      by (rule agrees_grows [OF assms(2) m(4) [OF that] passed_le [OF m(1) that(1)]])
    with True m taken_in_grows [OF assms(2,3) m(3)] assms(3,4) c p show ?thesis
      by (simp add: member_ok_def own_groups_def)
  qed
qed

lemma mset_sub_list:
  assumes "mset xs \<subseteq># mset ys" and "distinct ys"
  shows "distinct xs" and "set xs \<subseteq> set ys"
proof -
  obtain M where M: "mset ys = mset xs + M" using assms(1) by (auto simp: subset_mset.le_iff_add)
  obtain zs where "mset zs = M" using ex_mset by blast
  then have eq: "mset ys = mset (xs @ zs)" using M by simp
  then have "distinct (xs @ zs)" using assms(2) mset_eq_imp_distinct_iff by blast
  then show "distinct xs" by simp
  show "set xs \<subseteq> set ys" using mset_eq_setD [OF eq] by auto
qed

lemma votes_frame:
  assumes "votes_ok N net" and "grows net net'"
    and "\<And>j r. j < parties N \<Longrightarrow> mset (votes net' j r) \<subseteq># mset (votes net j r)"
  shows "votes_ok N net'"
  unfolding votes_ok_def
proof (intro allI impI conjI ballI)
  fix j r assume j: "j < parties N"
  from assms(1) j have old: "distinct (votes net j r)" "\<forall>x \<in> set (votes net j r). \<exists>i p. vote N net j r i p x"
    by (simp_all add: votes_ok_def)
  note sub = mset_sub_list [OF assms(3) [OF j, of r] old(1)]
  show "distinct (votes net' j r)" by (rule sub(1))
  fix x assume "x \<in> set (votes net' j r)"
  with sub(2) old(2) vote_grows [OF assms(2)] show "\<exists>i p. vote N net' j r i p x" by blast
qed

lemma votes_same:
  assumes "nt_replies net' = nt_replies net"
    and "\<And>k. se_echo (nt_sessions net' k) = se_echo (nt_sessions net k) \<or> ended (se_echo (nt_sessions net' k))"
  shows "mset (votes net' j r) \<subseteq># mset (votes net j r)"
  using assms(2) [of j] by (auto simp: votes_def assms(1) ended_def)

section \<open>The steps\<close>

text \<open>A broadcast is sent or delivered.\<close>

lemma async_handed:
  assumes inv: "async_inv N net" and i: "i < parties N" and live: "alive N i (nt_sessions net i)"
    and hand: "handed_on N i (j, r) net net'" and x: "j < parties N" "r < ne_rounds N" "r < nt_sent net' j"
      "(j, r) \<notin> set (nt_taken net i)" "j = i \<Longrightarrow> has_rounds N r (nt_taken net i)"
    and sent: "\<And>k. nt_sent net k \<le> nt_sent net' k" and same: "nt_replies net' = nt_replies net"
    and flight: "flight_ok N net'"
  shows "async_inv N net'"
proof -
  let ?n = "parties N" and ?s = "nt_sessions net i" and ?T = "nt_taken net i"
  have member: "member_ok N net k" if "k < ?n" for k using inv that by (simp add: async_inv_def)
  note m = member_alive [OF member [OF i] live]
  have others: "nt_sessions net' k = nt_sessions net k" "nt_taken net' k = nt_taken net k" if "k \<noteq> i" for k
    using hand that by (simp_all add: handed_on_def)
  have q: "length (se_queue ?s) \<le> length ?T" using m(1) by (simp add: gadget_in_def)
  have one: "consumed net i \<le> consumed net' i \<and> (\<exists>later. nt_taken net' i = ?T @ later)"
    using hand q by (auto simp: handed_on_def consumed_def split: if_splits)
  have grows: "grows net net'"
    unfolding grows_def
  proof (intro allI conjI)
    fix k
    show "nt_sent net k \<le> nt_sent net' k" by (rule sent)
    show "consumed net k \<le> consumed net' k" "\<exists>later. nt_taken net' k = nt_taken net k @ later"
      using one others [of k] by (cases "k = i"; simp add: consumed_def)+
  qed
  have "votes_ok N net'"
  proof (rule votes_frame [OF _ grows votes_same [OF same]])
    show "votes_ok N net" using inv by (simp add: async_inv_def)
    fix k
    show "se_echo (nt_sessions net' k) = se_echo (nt_sessions net k) \<or> ended (se_echo (nt_sessions net' k))"
      using hand by (cases "k = i") (auto simp: handed_on_def ended_def split: if_splits)
  qed
  moreover have "member_ok N net' k" if "k < ?n" "k \<noteq> i" for k
    by (rule member_frame [OF member [OF that(1)] grows]) (simp_all add: others [OF that(2)])
  moreover have "member_ok N net' i"
  proof (cases "?n < length (se_queue ?s)")
    case True
    with hand have "nt_sessions net' i = session_end (WrapPanicked ExpectFailed) ?s" "nt_taken net' i = ?T"
      by (simp_all add: handed_on_def)
    then show ?thesis using taken_in_grows [OF grows _ m(3)] by (simp add: member_ok_def ended_def)
  next
    case False
    with hand have net': "nt_sessions net' i = ?s\<lparr>se_queue := se_queue ?s @ [echo_view N i (j, r)]\<rparr>"
      "nt_taken net' i = ?T @ [(j, r)]" by (simp_all add: handed_on_def)
    have c: "consumed net' i = consumed net i" using q by (simp add: consumed_def net')
    have "j = i \<Longrightarrow> r * ?n \<le> length ?T" using has_rounds_length x(5) m(3) unfolding taken_in_def by blast
    then have T: "taken_in N net' i"
      using m(3) x(1-4) sent by (fastforce simp: taken_in_def net' nth_append less_Suc_eq dest: order_less_le_trans)
    have "own_groups N net' i"
      unfolding own_groups_def c
    proof (intro allI impI)
      fix d assume d: "d < consumed net i div ?n"
      then have "Suc d * ?n \<le> length ?T" using div_group [OF d] consumed_le [of net i] by linarith
      then show "(i, d) \<in> set (group N d (nt_taken net' i))"
        using m(2) d by (simp add: net' group_append own_groups_def del: mult_Suc)
    qed
    moreover have "se_echo (nt_sessions net' i) = se_echo ?s" by (simp add: net')
    then have "passed N net' i = passed N net i" unfolding passed_def c by (rule arg_cong)
    moreover have "agrees N net' i d k" if "d < passed N net i" "k < ?n" "k \<noteq> i" for d k
      by (rule agrees_grows [OF grows m(4) [OF that] passed_le [OF m(1) that(1)]])
    ultimately show ?thesis
      using T live gadget_in_snoc [OF m(1), of "(j, r)"] by (simp add: member_ok_def net' c)
  qed
  ultimately show ?thesis using flight unfolding async_inv_def by blast
qed

text \<open>The gadget takes a broadcast, and acknowledges a whole group.\<close>

lemma own_rx:
  assumes "mset xs = mset (map (echo_view N i) g)" and "rx \<in> set (concat (map outgoing_rx xs))"
  shows "(i, rx) \<in> set g"
proof -
  from assms(2) obtain m where "m \<in> set xs" "rx \<in> set (outgoing_rx m)" by auto
  with mset_eq_setD [OF assms(1)] obtain j r where "(j, r) \<in> set g" "rx \<in> set (outgoing_rx (echo_view N i (j, r)))"
    by auto
  then show ?thesis by (auto simp: echo_view_def outgoing_rx_def split: if_splits)
qed

lemma group_acks:
  assumes "mset xs = mset (map (echo_view N i) g)" and "distinct g" and "\<forall>(j, r) \<in> set g. j < parties N"
    and "j < parties N"
  shows "route_acks N i (map (\<lambda>tx. (tx, \<lparr>or_result = Inr h, or_sent_feedback = fb\<rparr>))
      (concat (map incoming_ack xs))) replies j r =
    replies j r @ (if (j, r) \<in> set g \<and> j \<noteq> i then [Inr (ne_peers N ! i, h)] else [])"
proof -
  let ?n = "parties N" and ?txs = "concat (map incoming_ack xs)"
  let ?code = "\<lambda>(j, r). r * ?n + j" let ?all = "map ?code (filter (\<lambda>(j, r). j \<noteq> i) g)"
  have n: "0 < ?n" using assms(4) by linarith
  have decode: "(r * ?n + j) mod ?n = j" "(r * ?n + j) div ?n = r" if "j < ?n" for j r
    using that n by (simp_all add: div_mult_self3)
  have "concat (map incoming_ack (map (echo_view N i) ys)) = map ?code (filter (\<lambda>(j, r). j \<noteq> i) ys)" for ys
    by (induction ys) (auto simp: echo_view_def incoming_ack_def)
  moreover have "mset ?txs = mset (concat (map incoming_ack (map (echo_view N i) g)))"
    using assms(1) by (simp only: mset_concat_map)
  ultimately have same: "mset ?txs = mset ?all" by simp
  have "inj_on ?code (set g)"
  proof (rule inj_onI, clarify)
    fix j r j' r' assume "(j, r) \<in> set g" "(j', r') \<in> set g" and eq: "r * ?n + j = r' * ?n + j'"
    with assms(3) have "j < ?n" "j' < ?n" by auto
    with decode eq show "j = j' \<and> r = r'" by metis
  qed
  then have "distinct ?all" using assms(2) by (auto simp: distinct_map intro: inj_on_subset)
  then have dist: "distinct ?txs" and set: "set ?txs = set ?all"
    using same by (metis mset_eq_imp_distinct_iff, metis mset_eq_setD)
  have "(tx mod ?n = j \<and> tx div ?n = r) = (tx = r * ?n + j)" for tx
    using decode [OF assms(4), of r] by (metis div_mult_mod_eq)
  moreover have "r * ?n + j \<in> set ?all \<longleftrightarrow> (j, r) \<in> set g \<and> j \<noteq> i"
  proof
    assume "r * ?n + j \<in> set ?all"
    then obtain j' r' where x: "(j', r') \<in> set g" "j' \<noteq> i" "r * ?n + j = r' * ?n + j'" by auto
    with assms(3) have "j' < ?n" by auto
    with decode [OF this, of r'] decode [OF assms(4), of r] x show "(j, r) \<in> set g \<and> j \<noteq> i" by simp
  next
    assume x: "(j, r) \<in> set g \<and> j \<noteq> i"
    then show "r * ?n + j \<in> set ?all" by force
  qed
  moreover have "concat (map (\<lambda>tx. if tx = t then [y] else []) ?txs) = (if t \<in> set ?all then [y] else [])"
    for t and y :: "'a reply" using concat_map_single [OF dist, of t y] unfolding set .
  ultimately show ?thesis by (simp only: route_acks_map)
qed

lemma async_receive:
  fixes net :: "('pid, 'done) net"
  assumes ok: "net_ok N" and inv: "async_inv N net" and step: "net_step N ordered (NetReceive i) net = Some net'"
  shows "async_inv N net'"
proof -
  let ?n = "parties N" and ?s = "nt_sessions net i" and ?T = "nt_taken net i" and ?c = "consumed net i"
  have n0: "0 < ?n" using net_okD(1) [OF ok] by linarith
  from step have i: "i < ?n" by (simp add: net_step_def split: if_splits)
  from step obtain s' fs' eff where
    ss: "session_step (ne_pid N) (ne_hash N) (ne_checks N) (\<lambda>_. True) SeReceive (?s, ne_fs N) = Some (s', fs', eff)"
    and net': "net' = net\<lparr>nt_sessions := (nt_sessions net)(i := s'),
      nt_replies := route_acks N i (acks_sent eff) (nt_replies net)\<rparr>"
    by (auto simp: net_step_def party_step_def split: if_splits option.splits)
  have "session_step (ne_pid N) (ne_hash N) (ne_checks N) (\<lambda>_. True) SeReceive (?s, ne_fs N) \<noteq> None" by (simp add: ss)
  then have live: "alive N i ?s" by (rule sessions_ok_step [OF async_sessions [OF inv] i])
  have member: "member_ok N net k" if "k < ?n" for k using inv that by (simp add: async_inv_def)
  have votes: "votes_ok N net" and flight: "flight_ok N net" using inv by (simp_all add: async_inv_def)
  note m = member_alive [OF member [OF i] live]
  have before: "\<exists>g. se_echo ?s = Running g Collecting"
    using ss by (auto simp: session_step_def split: wrapped.splits echo_stage.splits)
  have flight': "flight_ok N net'" using flight by (simp add: flight_ok_def net')
  have passed: "passed N net i = ?c div ?n" using before by (auto simp: passed_def)
  have others: "member_ok N net' k" if "grows net net'" "k < ?n" "k \<noteq> i" for k
    using that by (intro member_frame [OF member [OF that(2)] that(1)]) (simp_all add: net')
  have growsI: "grows net net'" if "?c \<le> consumed net' i"
  proof -
    have "consumed net k \<le> consumed net' k" for k using that by (cases "k = i") (simp_all add: consumed_def net')
    then show ?thesis by (simp add: grows_def) (simp add: net')
  qed
  have no_acks: "votes_ok N net'" if "grows net net'" "acks_sent eff = []"
      "\<nexists>g rx h hashes. se_echo s' = Running g (Awaiting rx h hashes)"
  proof (rule votes_frame [OF votes that(1)])
    fix j r
    have "(case se_echo s' of Running g (Awaiting rx h hashes) \<Rightarrow> if rx = r then hashes else [] | _ \<Rightarrow> []) = []"
      using that(3) by (auto split: wrapped.splits echo_stage.splits)
    then show "mset (votes net' j r) \<subseteq># mset (votes net j r)" by (auto simp: votes_def net' that(2))
  qed
  show ?thesis
  proof (cases rule: receive_in [OF ok live m(1) ss, case_names more full none])
    case (more g')
    have c': "consumed net' i = Suc ?c" using gadget_in_consumed [of N i net'] more(4) by (simp add: net')
    then have grows: "grows net net'" by (intro growsI) simp
    have div: "Suc ?c div ?n = ?c div ?n" using more(2) by (simp add: div_Suc)
    have "passed N net' i = ?c div ?n" using more(6) c' div by (simp add: passed_def net')
    moreover have "own_groups N net' i" using m(2) unfolding own_groups_def c' div by (simp add: net')
    moreover have "agrees N net' i d k" if "d < ?c div ?n" "k < ?n" "k \<noteq> i" for d k
      by (rule agrees_grows [OF grows m(4) passed_le [OF m(1)]]) (use that passed in simp_all)
    moreover have "taken_in N net' i" by (rule taken_in_grows [OF grows _ m(3)]) (simp add: net')
    moreover have "nt_sessions net' i = s'" "nt_taken net' i = ?T" by (simp_all add: net')
    ultimately have "member_ok N net' i" using more(3,4) c' by (simp add: member_ok_def)
    then have "member_ok N net' k" if "k < ?n" for k using others [OF grows that] by (cases "k = i") simp_all
    moreover have "votes_ok N net'" by (rule no_acks [OF grows more(5)]) (simp add: more(6))
    ultimately show ?thesis using flight' by (simp add: async_inv_def)
  next
    case none
    have "?c \<le> consumed net' i" using none(3) consumed_le [of net i] by (simp add: consumed_def net')
    then have grows: "grows net net'" by (rule growsI)
    have "taken_in N net' i" by (rule taken_in_grows [OF grows _ m(3)]) (simp add: net')
    then have "member_ok N net' i" using none(2,3) by (simp add: member_ok_def ended_def net')
    then have "member_ok N net' k" if "k < ?n" for k using others [OF grows that] by (cases "k = i") simp_all
    moreover have "votes_ok N net'" by (rule no_acks [OF grows none(4)]) (simp add: none(2))
    ultimately show ?thesis using flight' by (simp add: async_inv_def)
  next
    case (full xs)
    let ?d = "?c div ?n" and ?rx = "last (concat (map outgoing_rx xs))"
    let ?h = "group_hash N i ?d ?T" let ?x = "Inr (ne_peers N ! i, ?h) :: 'pid reply"
    have dist: "distinct ?T" using m(3) by (simp add: taken_in_def)
    have "(i, ?rx) \<in> set (group N ?d ?T)" using full(4) by (intro own_rx [OF full(3)] last_in_set)
    then obtain a where a: "a < length ?T" "?T ! a = (i, ?rx)" "a < Suc ?d * ?n" by (rule in_groupD)
    with m(3) have "?rx * ?n \<le> a" by (auto simp: taken_in_def)
    with a(3) have "?rx * ?n < Suc ?d * ?n" by linarith
    then have "?rx < Suc ?d" by (simp only: mult_less_cancel2)
    moreover have "\<not> ?rx < ?d"
      using same_group [OF dist \<open>(i, ?rx) \<in> set (group N ?d ?T)\<close>, of ?rx] m(2) by (auto simp: own_groups_def)
    ultimately have rx: "?rx = ?d" by simp
    then have own: "(i, ?d) \<in> set (group N ?d ?T)" using \<open>(i, ?rx) \<in> set (group N ?d ?T)\<close> by simp
    have c': "consumed net' i = Suc ?c" using full(1,6) by (simp add: consumed_def net')
    then have grows: "grows net net'" by (intro growsI) simp
    have div: "Suc ?c div ?n = Suc ?d" using full(2) n0 by simp
    have taken': "nt_sessions net' i = s'" "nt_taken net' i = ?T" by (simp_all add: net')
    have "passed N net' i = ?d" using full(7) rx by (simp add: passed_def net')
    moreover have "own_groups N net' i"
      using m(2) own unfolding own_groups_def c' div taken' by (auto simp: less_Suc_eq)
    moreover have "agrees N net' i d k" if "d < ?d" "k < ?n" "k \<noteq> i" for d k
      by (rule agrees_grows [OF grows m(4) passed_le [OF m(1)]]) (use that passed in simp_all)
    moreover have "taken_in N net' i" by (rule taken_in_grows [OF grows _ m(3)]) (simp add: net')
    moreover have "gadget_in N i ?T s' (Suc ?c)"
      using full(1,2,6,7) rx net_okD(1) [OF ok] by (simp add: gadget_in_def del: mult_Suc)
    ultimately have "member_ok N net' i" using full(5) c' taken' by (simp add: member_ok_def)
    then have all: "member_ok N net' k" if "k < ?n" for k using others [OF grows that] by (cases "k = i") simp_all
    have below: "\<forall>(j, r) \<in> set (group N ?d ?T). j < ?n"
      using m(3) by (auto simp: taken_in_def group_def dest!: in_set_takeD in_set_dropD)
    have dist_group: "distinct (group N ?d ?T)" using dist by (simp add: group_def)
    have new: "votes net' j r = votes net j r @ (if (j, r) \<in> set (group N ?d ?T) \<and> j \<noteq> i then [?x] else [])"
      if "j < ?n" for j r
    proof -
      have "(case se_echo (nt_sessions net' j) of Running g (Awaiting rx h hashes) \<Rightarrow> if rx = r then hashes else []
          | _ \<Rightarrow> []) = (case se_echo (nt_sessions net j) of Running g (Awaiting rx h hashes) \<Rightarrow> if rx = r then hashes else []
          | _ \<Rightarrow> [])" using before full(7) by (cases "j = i") (auto simp: net')
      then show ?thesis
        using group_acks [OF full(3) dist_group below that, of ?h None "nt_replies net" r] full(8)
        by (simp add: votes_def net')
    qed
    have "votes_ok N net'"
      unfolding votes_ok_def
    proof (intro allI impI conjI ballI)
      fix j r assume j: "j < ?n"
      from votes j have old: "distinct (votes net j r)" "\<forall>x \<in> set (votes net j r). \<exists>i p. vote N net j r i p x"
        by (simp_all add: votes_ok_def)
      have fresh: "?x \<notin> set (votes net j r)" if g: "(j, r) \<in> set (group N ?d ?T)"
      proof
        assume "?x \<in> set (votes net j r)"
        with old(2) obtain k p where v: "vote N net j r k p ?x" by blast
        then have "ne_peers N ! k = ne_peers N ! i" "k < ?n" by (simp_all add: vote_def)
        then have "k = i" using net_okD(3) [OF ok] i by (simp add: nth_eq_iff_index_eq)
        with v have p: "Suc p * ?n \<le> ?c" "(j, r) \<in> set (group N p ?T)" by (simp_all add: vote_def)
        then have "p = ?d" using same_group [OF dist _ g] by blast
        with p(1) full(2) show False by simp
      qed
      with old(1) new [OF j, of r] show "distinct (votes net' j r)"
        by (cases "(j, r) \<in> set (group N ?d ?T) \<and> j \<noteq> i") simp_all
      fix x assume "x \<in> set (votes net' j r)"
      then consider "x \<in> set (votes net j r)" | "x = ?x" "(j, r) \<in> set (group N ?d ?T)" "j \<noteq> i"
        using new [OF j, of r] by (auto split: if_splits)
      then show "\<exists>i p. vote N net' j r i p x"
      proof cases
        case 1
        with old(2) vote_grows [OF grows] show ?thesis by blast
      next
        case 2
        then have "vote N net' j r i ?d x" using i full(2) c' by (simp add: vote_def taken')
        then show ?thesis by blast
      qed
    qed
    with all flight' show ?thesis by (simp add: async_inv_def)
  qed
qed

text \<open>The gadget looks at a reply, or at all replies of its round.\<close>

lemma taken_in_le:
  assumes "taken_in N net i"
  shows "length (nt_taken net i) \<le> ne_rounds N * parties N"
proof -
  have "set (nt_taken net i) \<subseteq> {0..<parties N} \<times> {0..<ne_rounds N}" using assms by (auto simp: taken_in_def)
  then have "card (set (nt_taken net i)) \<le> card ({0..<parties N} \<times> {0..<ne_rounds N})" by (rule card_mono [rotated]) simp
  moreover have "distinct (nt_taken net i)" using assms by (simp add: taken_in_def)
  ultimately show ?thesis by (simp add: distinct_card mult.commute)
qed

text \<open>With \<open>n - 1\<close> different votes, every other party has voted.\<close>

lemma votes_all:
  assumes "distinct xs" and "length xs = parties N - 1" and "\<forall>x \<in> set xs. \<exists>i p. vote N net j r i p x"
    and "\<And>i. i < parties N \<Longrightarrow> distinct (nt_taken net i)" and "j < parties N" and "k < parties N" and "k \<noteq> j"
  obtains p x where "x \<in> set xs" "vote N net j r k p x"
proof -
  obtain f where f: "\<And>x. x \<in> set xs \<Longrightarrow> \<exists>p. vote N net j r (f x) p x" using assms(3) by metis
  have "inj_on f (set xs)"
  proof (rule inj_onI)
    fix x y assume xy: "x \<in> set xs" "y \<in> set xs" "f x = f y"
    then obtain p q where p: "vote N net j r (f x) p x" and q: "vote N net j r (f x) q y" using f by metis
    then have "p = q" using same_group [of "nt_taken net (f x)" "(j, r)" N p q] assms(4) by (simp add: vote_def)
    with p q show "x = y" by (simp add: vote_def)
  qed
  then have "card (f ` set xs) = parties N - 1" using assms(1,2) by (simp add: card_image distinct_card)
  moreover have "f ` set xs \<subseteq> {0..<parties N} - {j}" using f by (fastforce simp: vote_def)
  ultimately have "f ` set xs = {0..<parties N} - {j}" using assms(5) by (intro card_subset_eq) simp_all
  then have "k \<in> f ` set xs" using assms(6,7) by simp
  with f that show thesis by blast
qed

lemma reply_step:
  fixes net :: "('pid, 'done) net"
  assumes ok: "net_ok N" and inv: "async_inv N net" and step: "net_step N ordered (NetReply i k) net = Some net'"
  obtains rx h hashes s' fs' eff where "i < parties N" "k < length (nt_replies net i rx)"
    "se_echo (nt_sessions net i) =
       Running \<lparr>eg_r = word_of_nat rx, eg_n = parties N, eg_msgs = []\<rparr> (Awaiting rx h hashes)"
    "alive N i (nt_sessions net i)" "rx < ne_rounds N"
    "\<forall>y \<in> set (hashes @ [nt_replies net i rx ! k]). \<exists>p h. y = Inr (p, h)"
    "session_step (ne_pid N) (ne_hash N) (ne_checks N) (\<lambda>_. True) (SeReply (nt_replies net i rx ! k))
       (nt_sessions net i, ne_fs N) = Some (s', fs', eff)"
    "net' = net\<lparr>nt_sessions := (nt_sessions net)(i := s'),
       nt_replies := (nt_replies net)(i := (nt_replies net i)(rx := remove_nth k (nt_replies net i rx)))\<rparr>"
proof -
  let ?n = "parties N" and ?s = "nt_sessions net i" and ?T = "nt_taken net i" and ?c = "consumed net i"
  have n0: "0 < ?n" using net_okD(1) [OF ok] by linarith
  from step obtain g rx h hashes where stage: "se_echo ?s = Running g (Awaiting rx h hashes)"
    and i: "i < ?n" and k: "k < length (nt_replies net i rx)"
    by (auto simp: net_step_def split: wrapped.splits echo_stage.splits if_splits)
  let ?x = "nt_replies net i rx ! k"
  from step stage i k obtain s' fs' eff where
    ss: "session_step (ne_pid N) (ne_hash N) (ne_checks N) (\<lambda>_. True) (SeReply ?x) (?s, ne_fs N) = Some (s', fs', eff)"
    and net': "net' = net\<lparr>nt_sessions := (nt_sessions net)(i := s'),
      nt_replies := (nt_replies net)(i := (nt_replies net i)(rx := remove_nth k (nt_replies net i rx)))\<rparr>"
    by (auto simp: net_step_def party_step_def split: option.splits)
  have "session_step (ne_pid N) (ne_hash N) (ne_checks N) (\<lambda>_. True) (SeReply ?x) (?s, ne_fs N) \<noteq> None" by (simp add: ss)
  then have live: "alive N i ?s" by (rule sessions_ok_step [OF async_sessions [OF inv] i])
  have "member_ok N net i" using inv i by (simp add: async_inv_def)
  note m = member_alive [OF this live]
  from m(1) stage have c: "?c = Suc rx * ?n" and g: "g = \<lparr>eg_r = word_of_nat rx, eg_n = ?n, eg_msgs = []\<rparr>"
    by (simp_all add: gadget_in_def)
  have "Suc rx * ?n \<le> ne_rounds N * ?n" using c consumed_le [of net i] taken_in_le [OF m(3)] by linarith
  then have "Suc rx \<le> ne_rounds N" using n0 by (simp only: mult_le_cancel2)
  then have R: "rx < ne_rounds N" by simp
  have "\<forall>x \<in> set (hashes @ nt_replies net i rx). \<exists>j p. vote N net i rx j p x"
    using inv i stage by (fastforce simp: async_inv_def votes_ok_def votes_def)
  moreover have "?x \<in> set (nt_replies net i rx)" using k by simp
  ultimately have "\<forall>y \<in> set (hashes @ [?x]). \<exists>p h. y = Inr (p, h)" by (fastforce simp: vote_def)
  with that i k stage g live R ss net' show thesis by blast
qed

lemma async_reply:
  fixes net :: "('pid, 'done) net"
  assumes ok: "net_ok N" and inv: "async_inv N net" and step: "net_step N ordered (NetReply i k) net = Some net'"
  shows "async_inv N net'"
proof -
  let ?n = "parties N" and ?s = "nt_sessions net i" and ?T = "nt_taken net i" and ?c = "consumed net i"
  have n0: "0 < ?n" using net_okD(1) [OF ok] by linarith
  obtain rx h hashes s' fs' eff where i: "i < ?n" and k: "k < length (nt_replies net i rx)"
    and stage: "se_echo ?s = Running \<lparr>eg_r = word_of_nat rx, eg_n = ?n, eg_msgs = []\<rparr> (Awaiting rx h hashes)"
    and live: "alive N i ?s" and R: "rx < ne_rounds N"
    and rs: "\<forall>y \<in> set (hashes @ [nt_replies net i rx ! k]). \<exists>p h. y = Inr (p, h)"
    and ss: "session_step (ne_pid N) (ne_hash N) (ne_checks N) (\<lambda>_. True) (SeReply (nt_replies net i rx ! k))
      (?s, ne_fs N) = Some (s', fs', eff)"
    and net': "net' = net\<lparr>nt_sessions := (nt_sessions net)(i := s'),
      nt_replies := (nt_replies net)(i := (nt_replies net i)(rx := remove_nth k (nt_replies net i rx)))\<rparr>"
    by (rule reply_step [OF ok inv step])
  let ?x = "nt_replies net i rx ! k"
  have member: "member_ok N net j" if "j < ?n" for j using inv that by (simp add: async_inv_def)
  have votes: "votes_ok N net" and flight: "flight_ok N net" using inv by (simp_all add: async_inv_def)
  note m = member_alive [OF member [OF i] live]
  from m(1) stage have c: "?c = Suc rx * ?n" and h: "h = group_hash N i rx ?T" and few: "length hashes < ?n - 1"
    by (simp_all add: gadget_in_def)
  have V: "votes net i rx = hashes @ nt_replies net i rx" by (simp add: votes_def stage)
  have mset: "mset (nt_replies net i rx) = add_mset ?x (mset (remove_nth k (nt_replies net i rx)))"
    using mset_remove_nth [OF k] by simp
  have dist: "distinct (votes net i rx)" and cast: "\<forall>x \<in> set (votes net i rx). \<exists>j p. vote N net i rx j p x"
    using votes i by (simp_all add: votes_ok_def)
  have "mset (hashes @ [?x]) \<subseteq># mset (votes net i rx)" using mset by (simp add: V)
  note sub = mset_sub_list [OF this dist]
  have flight': "flight_ok N net'" using flight by (simp add: flight_ok_def net')
  have growsI: "grows net net'" if "?c \<le> consumed net' i"
  proof -
    have "consumed net j \<le> consumed net' j" for j using that by (cases "j = i") (simp_all add: consumed_def net')
    then show ?thesis by (simp add: grows_def) (simp add: net')
  qed
  have others: "member_ok N net' j" if "grows net net'" "j < ?n" "j \<noteq> i" for j
    using that by (intro member_frame [OF member [OF that(2)] that(1)]) (simp_all add: net')
  have votes': "votes_ok N net'" if "grows net net'"
    and more: "\<And>r. (case se_echo s' of Running g (Awaiting rx h hashes) \<Rightarrow> if rx = r then hashes else [] | _ \<Rightarrow> []) =
      (if r = rx then later else [])" and later: "later = [] \<or> later = hashes @ [?x]" for later
  proof (rule votes_frame [OF votes that(1)])
    fix j r
    have "mset (remove_nth k (nt_replies net i rx)) \<subseteq># mset (nt_replies net i rx)" using mset by simp
    moreover have "votes net i r = (if r = rx then hashes else []) @ nt_replies net i r"
      by (simp add: votes_def stage)
    moreover have "votes net' i r = (if r = rx then later else []) @
        (if r = rx then remove_nth k (nt_replies net i rx) else nt_replies net i r)"
      using more [of r] by (simp add: votes_def net')
    moreover have "j \<noteq> i \<Longrightarrow> votes net' j r = votes net j r" by (simp add: votes_def net')
    ultimately show "mset (votes net' j r) \<subseteq># mset (votes net j r)"
      using later mset by (cases "j = i"; cases "r = rx") (auto intro: subset_mset.add_increasing)
  qed
  have same: "nt_sessions net' i = s'" "nt_taken net' i = ?T" by (simp_all add: net')
  show ?thesis
  proof (cases rule: reply_in [OF ok live stage R rs ss, case_names more last failed])
    case more
    have c': "consumed net' i = ?c" by (simp add: consumed_def net' more(2))
    then have grows: "grows net net'" by (intro growsI) simp
    have "gadget_in N i ?T s' ?c" using m(1) stage few more by (simp add: gadget_in_def)
    moreover have "alive N i s'" using live more(2) by (simp add: alive_def)
    moreover have "taken_in N net' i" by (rule taken_in_grows [OF grows same(2) m(3)])
    moreover have "own_groups N net' i" using m(2) unfolding own_groups_def c' same .
    moreover have "passed N net' i = passed N net i" using stage by (simp add: passed_def net' more(2))
    moreover have "agrees N net' i d j" if "d < passed N net i" "j < ?n" "j \<noteq> i" for d j
      by (rule agrees_grows [OF grows m(4) [OF that] passed_le [OF m(1) that(1)]])
    ultimately have "member_ok N net' i" by (simp add: member_ok_def c' same)
    then have all: "member_ok N net' j" if "j < ?n" for j using others [OF grows that] by (cases "j = i") simp_all
    have "votes_ok N net'" by (rule votes' [OF grows, of "hashes @ [?x]"]) (auto simp: more(2))
    with all flight' show ?thesis by (simp add: async_inv_def)
  next
    case failed
    have "?c \<le> consumed net' i" using failed(4) consumed_le [of net i] by (simp add: consumed_def net')
    then have grows: "grows net net'" by (rule growsI)
    have "taken_in N net' i" by (rule taken_in_grows [OF grows same(2) m(3)])
    then have "member_ok N net' i" using failed(3,4) by (simp add: member_ok_def ended_def same)
    then have all: "member_ok N net' j" if "j < ?n" for j using others [OF grows that] by (cases "j = i") simp_all
    have "votes_ok N net'" by (rule votes' [OF grows, of "[]"]) (auto simp: failed(3))
    with all flight' show ?thesis by (simp add: async_inv_def)
  next
    case last
    have c': "consumed net' i = ?c" by (simp add: consumed_def net' last(3))
    then have grows: "grows net net'" by (intro growsI) simp
    have div: "?c div ?n = Suc rx" using c n0 by (metis nonzero_mult_div_cancel_right less_numeral_extra(3))
    have "gadget_in N i ?T s' ?c"
      using m(1) stage c div by (simp add: gadget_in_def last(3) del: mult_Suc of_nat_Suc)
    moreover have "alive N i s'" using live last(3) by (simp add: alive_def)
    moreover have "taken_in N net' i" by (rule taken_in_grows [OF grows same(2) m(3)])
    moreover have "own_groups N net' i" using m(2) unfolding own_groups_def c' same .
    moreover have "passed N net' i = Suc rx" by (simp add: passed_def net' last(3) div c' [unfolded net' last(3), simplified])
    moreover have "agrees N net' i d j" if less: "d < Suc rx" and j: "j < ?n" "j \<noteq> i" for d j
    proof (cases "d = rx")
      case False
      then have d: "d < passed N net i" using less stage by (simp add: passed_def)
      show ?thesis by (rule agrees_grows [OF grows m(4) [OF d j] passed_le [OF m(1) d]])
    next
      case True
      have "length (hashes @ [?x]) = ?n - 1" "\<forall>x \<in> set (hashes @ [?x]). \<exists>j p. vote N net i rx j p x"
        using last(1) sub(2) cast by auto
      moreover have "distinct (nt_taken net j)" if "j < ?n" for j
        using member [OF that] by (simp add: member_ok_def taken_in_def)
      ultimately obtain p y where y: "y \<in> set (hashes @ [?x])" and v: "vote N net i rx j p y"
        using votes_all [OF sub(1) _ _ _ i j] by metis
      from last(2) y v h have "group_hash N j p (nt_taken net j) = group_hash N i rx ?T" by (fastforce simp: vote_def)
      moreover have "Suc p * ?n \<le> length (nt_taken net j)" "(i, rx) \<in> set (group N p (nt_taken net j))"
        using v consumed_le [of net j] by (simp_all add: vote_def del: mult_Suc)
      ultimately have "agrees N net i rx j" unfolding agrees_def by blast
      moreover have "Suc rx * ?n \<le> length ?T" using c consumed_le [of net i] by linarith
      ultimately show ?thesis unfolding True by (rule agrees_grows [OF grows])
    qed
    ultimately have "member_ok N net' i" by (simp add: member_ok_def c' same)
    then have all: "member_ok N net' j" if "j < ?n" for j using others [OF grows that] by (cases "j = i") simp_all
    have "votes_ok N net'" by (rule votes' [OF grows, of "[]"]) (auto simp: last(3))
    with all flight' show ?thesis by (simp add: async_inv_def)
  qed
qed

text \<open>In every state that a network reaches, whatever its order, the invariant holds.\<close>

lemma async_start:
  assumes "net_ok N"
  shows "async_inv N (net_start N)"
proof -
  have "0 < parties N" using net_okD(1) [OF assms] by linarith
  then have "member_ok N (net_start N) i" for i
    by (simp add: member_ok_def taken_in_def net_start_def alive_def gadget_in_def wrap_start_def echo_gadget_new_def
        own_groups_def passed_def consumed_def)
  then show ?thesis by (simp add: async_inv_def flight_ok_def votes_ok_def votes_def net_start_def wrap_start_def)
qed

lemma async_step:
  assumes "net_ok N" and "async_inv N net" and "net_step N ordered ev net = Some net'"
  shows "async_inv N net'"
proof (cases ev)
  case (NetSend i)
  note S = send_step [OF assms(1) async_sessions [OF assms(2)] assms(3) [unfolded NetSend]]
  have flight: "flight_ok N net" and taken: "\<And>k. k < parties N \<Longrightarrow> taken_in N net k"
    using assms(2) by (simp_all add: async_inv_def member_ok_def)
  have new: "(i, nt_sent net i) \<notin> set (nt_taken net k)" if "k < parties N" for k
    using taken [OF that] by (fastforce simp: taken_in_def)
  have "nt_sent net i < nt_sent net' i" "\<And>k. nt_sent net k \<le> nt_sent net' k" by (simp_all add: S(6))
  with async_handed [OF assms(2) S(1,4,5,1,2) _ new [OF S(1)] S(3) _ S(7) flight_ok_send [OF flight S(1,2) refl new S(5,6,8)]]
  show ?thesis by blast
next
  case (NetDeliver k)
  have flight: "flight_ok N net" using assms(2) by (simp add: async_inv_def)
  from assms(3) [unfolded NetDeliver] show ?thesis
  proof (rule deliver_step [OF assms(1) async_sessions [OF assms(2)] flight])
    fix j i r
    assume k: "k < length (nt_flight net)" "nt_flight net ! k = (j, i, r, ne_body N r j)"
      and x: "i < parties N" "j < parties N" "r < nt_sent net j" "r < ne_rounds N" "(j, r) \<notin> set (nt_taken net i)"
        "alive N i (nt_sessions net i)" and S: "handed_on N i (j, r) net net'"
        "nt_flight net' = remove_nth k (nt_flight net)" "nt_sent net' = nt_sent net" "nt_replies net' = nt_replies net"
      and "j \<noteq> i"
    then show ?thesis
      using async_handed [OF assms(2) x(1,6) S(1) x(2,4) _ x(5) _ _ S(4) flight_ok_deliver [OF flight k S(1-3)]] by simp
  qed
next
  case (NetReceive i)
  with async_receive [OF assms(1,2)] assms(3) show ?thesis by blast
next
  case (NetReply i k)
  with async_reply [OF assms(1,2)] assms(3) show ?thesis by blast
qed

lemma net_reach_async: "net_reach N ordered net \<Longrightarrow> net_ok N \<Longrightarrow> async_inv N net"
  by (induction rule: net_reach.induct) (auto intro: async_start async_step)

text \<open>A party whose echo is past round \<open>r\<close> agrees with everybody about its broadcast of that round.\<close>

lemma past_agrees:
  assumes "net_ok N" and "async_inv N net" and "j < parties N" and "i < parties N" and "i \<noteq> j"
    and "se_echo (nt_sessions net j) = Running g stage" and "r < unat (eg_r g)"
  shows "agrees N net j r i"
proof -
  have m: "member_ok N net j" using assms(2,3) by (simp add: async_inv_def)
  have live: "alive N j (nt_sessions net j)"
    using async_sessions [OF assms(2)] assms(3,6) by (simp add: sessions_ok_def)
  note M = member_alive [OF m live]
  have n0: "0 < parties N" using net_okD(1) [OF assms(1)] by linarith
  have "consumed net j div parties N \<le> ne_rounds N"
    using taken_in_le [OF M(3)] consumed_le [of net j] n0
    by (metis div_le_mono le_trans nonzero_mult_div_cancel_right less_numeral_extra(3))
  moreover have "eg_r g = word_of_nat (passed N net j)" and "passed N net j \<le> consumed net j div parties N"
    using M(1) assms(6) n0 by (auto simp: gadget_in_def passed_def split: echo_stage.splits)
  ultimately have "unat (eg_r g) = passed N net j" using net_okD(2) [OF assms(1)] by (simp add: unat_of_nat_u16)
  with assms(7) M(4) [OF _ assms(4,5)] show ?thesis by simp
qed

section \<open>A broadcast that comes early\<close>

text \<open>
  C20: A broadcast that comes early breaks the round of honest parties. Messages carry no round, and agents
  do not wait for the echo. If a party has gone on and its broadcasts of this round and of the next
  are both among the \<open>n\<close> that another party's gadget has counted for one round, in whatever order
  the network has delivered: then a slower party's broadcast of this round is missing there, the
  two parties have hashed different broadcasts, and, unless the hash hides the difference, the fast party never completes the
  round. In every state that can be reached its gadget is still in this round or an earlier one, or has given the
  computation up: with an inconsistent echo (or with a full channel or a round that lacks its
  own broadcast). And once the last reply of the round comes, it does give up with an inconsistent echo.
\<close>

theorem early_broadcast_fails_round:
  assumes "net_ok N" and "net_reach N False net" and "i < parties N" and "j < parties N" and "i \<noteq> j"
    and counted: "Suc p * parties N \<le> length (nt_taken net i)"
    and early: "(j, r) \<in> set (group N p (nt_taken net i))" "(j, Suc r) \<in> set (group N p (nt_taken net i))"
    and hash: "group_hash N i p (nt_taken net i) \<noteq> group_hash N j r (nt_taken net j)"
  shows "(\<exists>k < parties N. (k, r) \<notin> set (group N p (nt_taken net i))) \<and>
    set (group N p (nt_taken net i)) \<noteq> set (group N r (nt_taken net j)) \<and>
    (case se_echo (nt_sessions net j) of
       Running g stage \<Rightarrow> unat (eg_r g) \<le> r
     | Returned res \<Rightarrow> \<exists>m. res = Inl (InconsistentEcho m)
     | WrapPanicked q \<Rightarrow> q = ExpectFailed) \<and>
    (\<forall>g h hashes k net'. se_echo (nt_sessions net j) = Running g (Awaiting r h hashes) \<and>
       Suc (length hashes) = parties N - 1 \<and> net_step N False (NetReply j k) net = Some net' \<longrightarrow>
       (\<exists>m. se_echo (nt_sessions net' j) = Returned (Inl (InconsistentEcho m))))"
proof -
  let ?n = "parties N" and ?G = "group N p (nt_taken net i)"
  note inv = net_reach_async [OF assms(2,1)]
  have taken: "taken_in N net k" if "k < ?n" for k using inv that by (simp add: async_inv_def member_ok_def)
  have dist: "distinct (nt_taken net i)" using taken [OF assms(3)] by (simp add: taken_in_def)
  have stuck: "unat (eg_r g) \<le> r" if reach: "net_reach N False net1" and same: "nt_taken net1 = nt_taken net"
    and run: "se_echo (nt_sessions net1 j) = Running g stage" for net1 g stage
  proof (rule ccontr)
    assume "\<not> unat (eg_r g) \<le> r"
    then have "agrees N net1 j r i"
      using past_agrees [OF assms(1) net_reach_async [OF reach assms(1)] assms(4,3,5) run] by simp
    then obtain q where "(j, r) \<in> set (group N q (nt_taken net i))"
      "group_hash N i q (nt_taken net i) = group_hash N j r (nt_taken net j)" by (auto simp: agrees_def same)
    with same_group [OF dist early(1)] hash show False by blast
  qed
  have "\<exists>k < ?n. (k, r) \<notin> set ?G"
  proof (rule ccontr)
    assume "\<not> (\<exists>k < ?n. (k, r) \<notin> set ?G)"
    then have "insert (j, Suc r) ((\<lambda>k. (k, r)) ` {0..<?n}) \<subseteq> set ?G" using early(2) by auto
    then have "card (insert (j, Suc r) ((\<lambda>k. (k, r)) ` {0..<?n})) \<le> card (set ?G)" by (rule card_mono [rotated]) simp
    also have "\<dots> \<le> ?n" using card_length [of ?G] by (simp add: length_group [OF counted])
    finally show False by (simp add: card_insert_if card_image inj_on_def image_iff)
  qed
  moreover have "(j, Suc r) \<notin> set (group N r (nt_taken net j))"
  proof
    assume "(j, Suc r) \<in> set (group N r (nt_taken net j))"
    then obtain m where m: "m < length (nt_taken net j)" "nt_taken net j ! m = (j, Suc r)" "m < Suc r * ?n"
      by (rule in_groupD)
    with taken [OF assms(4)] have "Suc r * ?n \<le> m" by (auto simp: taken_in_def simp del: mult_Suc)
    with m(3) show False by simp
  qed
  moreover have "case se_echo (nt_sessions net j) of
       Running g stage \<Rightarrow> unat (eg_r g) \<le> r
     | Returned res \<Rightarrow> \<exists>m. res = Inl (InconsistentEcho m)
     | WrapPanicked q \<Rightarrow> q = ExpectFailed"
  proof -
    have member: "member_ok N net j" using inv assms(4) by (simp add: async_inv_def)
    show ?thesis
    proof (cases "se_echo (nt_sessions net j)")
      case (Running g stage)
      with stuck [OF assms(2) refl this] show ?thesis by simp
    qed (use member in \<open>auto simp: member_ok_def ended_def alive_def\<close>)
  qed
  moreover have "\<exists>m. se_echo (nt_sessions net' j) = Returned (Inl (InconsistentEcho m))"
    if wait: "se_echo (nt_sessions net j) = Running g (Awaiting r h hashes)" "Suc (length hashes) = ?n - 1"
      and step: "net_step N False (NetReply j k) net = Some net'" for g h hashes k net'
  proof -
    obtain rx h' hashes' s' fs' eff where "j < ?n" and "k < length (nt_replies net j rx)"
      and stage: "se_echo (nt_sessions net j) =
        Running \<lparr>eg_r = word_of_nat rx, eg_n = ?n, eg_msgs = []\<rparr> (Awaiting rx h' hashes')"
      and S: "alive N j (nt_sessions net j)" "rx < ne_rounds N"
        "\<forall>y \<in> set (hashes' @ [nt_replies net j rx ! k]). \<exists>p h. y = Inr (p, h)"
        "session_step (ne_pid N) (ne_hash N) (ne_checks N) (\<lambda>_. True) (SeReply (nt_replies net j rx ! k))
           (nt_sessions net j, ne_fs N) = Some (s', fs', eff)"
      and net': "net' = net\<lparr>nt_sessions := (nt_sessions net)(j := s'),
        nt_replies := (nt_replies net)(j := (nt_replies net j)(rx := remove_nth k (nt_replies net j rx)))\<rparr>"
      by (rule reply_step [OF assms(1) inv step])
    have here: "rx = r" "hashes' = hashes" using stage wait(1) by simp_all
    have s': "nt_sessions net' j = s'" by (simp add: net')
    show ?thesis
    proof (cases rule: reply_in [OF assms(1) S(1) stage S(2-4), case_names more last failed])
      case more
      with wait(2) here show ?thesis by simp
    next
      case last
      then have "se_echo (nt_sessions net' j) =
          Running \<lparr>eg_r = word_of_nat (Suc r), eg_n = ?n, eg_msgs = []\<rparr> Collecting" by (simp add: s' here)
      from stuck [OF net_reach_step [OF assms(2) step] _ this] have "unat (word_of_nat (Suc r) :: u16) \<le> r"
        by (simp add: net' del: of_nat_Suc)
      moreover have "unat (word_of_nat (Suc r) :: u16) = Suc r"
        using S(2) here net_okD(2) [OF assms(1)] by (intro unat_of_nat_u16) simp
      ultimately show ?thesis by simp
    next
      case (failed m)
      then show ?thesis by (simp add: s')
    qed
  qed
  ultimately show ?thesis using early(2) by blast
qed

definition sample3 :: "(bytes \<Rightarrow> bytes) \<Rightarrow> (byte, nat) net_env" where
  "sample3 H = sample_net H [4, 9, 12] (\<lambda>r j. [word_of_nat (10 * Suc j + r)]) 2"

lemma sample3_ok: "net_ok (sample3 H)" unfolding sample3_def by (rule sample_net_ok(2))

lemma sample3_fields [simp]:
  "ne_peers (sample3 H) = [4, 9, 12]" "ne_hash (sample3 H) = H" "ne_checks (sample3 H)"
  "ne_body (sample3 H) = (\<lambda>r j. [word_of_nat (10 * Suc j + r)])" "ne_rounds (sample3 H) = 2"
  by (simp_all add: sample3_def)

text \<open>
  Party 3 hears the others, finishes the broadcasts of the first round and goes on to the second, and
  this broadcast reaches party 2 before that of party 1.
\<close>

definition early_events :: "net_event list" where
  "early_events =
     [NetSend 0, NetSend 1, NetSend 2, NetDeliver 1, NetDeliver 2, NetReceive 2, NetReceive 2, NetReceive 2,
      NetSend 2, NetDeliver 3, NetDeliver 4, NetReceive 1, NetReceive 1, NetReceive 1,
      NetDeliver 1, NetDeliver 1, NetReceive 0, NetReceive 0, NetReceive 0, NetReply 2 0]"

lemma early_events_eq:
  "early_events =
     [NetSend 0, NetSend (Suc 0), NetSend (Suc (Suc 0)), NetDeliver 1, NetDeliver 2,
      NetReceive (Suc (Suc 0)), NetReceive (Suc (Suc 0)), NetReceive (Suc (Suc 0)),
      NetSend (Suc (Suc 0)), NetDeliver 3, NetDeliver 4, NetReceive (Suc 0), NetReceive (Suc 0), NetReceive (Suc 0),
      NetDeliver 1, NetDeliver 1, NetReceive 0, NetReceive 0, NetReceive 0,
      NetReply (Suc (Suc 0)) 0]"
  by (simp add: early_events_def numeral_2_eq_2)

lemma early_run:
  "\<exists>net net' g h x. net_run (sample3 H) False early_events (net_start (sample3 H)) = Some net \<and>
    nt_taken net (Suc 0) = [(Suc 0, 0), (Suc (Suc 0), 0), (Suc (Suc 0), Suc 0)] \<and>
    take (Suc (Suc (Suc 0))) (nt_taken net (Suc (Suc 0))) = [(Suc (Suc 0), 0), (0, 0), (Suc 0, 0)] \<and>
    se_echo (nt_sessions net (Suc (Suc 0))) = Running g (Awaiting 0 h [x]) \<and>
    net_step (sample3 H) False (NetReply (Suc (Suc 0)) 0) net = Some net'"
  by (simp add: early_events_eq net_send_eq [OF sample3_ok] net_deliver_eq [OF sample3_ok] run_simps)

theorem early_broadcast_fails_round_witness:
  "\<exists>net m. net_reach (sample3 id) False net \<and>
    se_echo (nt_sessions net 2) = Returned (Inl (InconsistentEcho m))"
proof -
  let ?N = "sample3 id"
  let ?i = "Suc 0" and ?j = "Suc (Suc 0)"
  from early_run [of id] obtain net net' g h x where
    run: "net_run ?N False early_events (net_start ?N) = Some net"
    and taken: "nt_taken net ?i = [(?i, 0), (?j, 0), (?j, Suc 0)]" "take (Suc ?j) (nt_taken net ?j) = [(?j, 0), (0, 0), (?i, 0)]"
    and wait: "se_echo (nt_sessions net ?j) = Running g (Awaiting 0 h [x])"
    and step: "net_step ?N False (NetReply ?j 0) net = Some net'" by blast
  have reach: "net_reach ?N False net" by (rule net_run_reach [OF run net_reach_start])
  have groups: "group ?N 0 (nt_taken net ?i) = [(?i, 0), (?j, 0), (?j, Suc 0)]"
    "group ?N 0 (nt_taken net ?j) = [(?j, 0), (0, 0), (?i, 0)]"
    using taken by (simp_all add: group_def)
  have hash: "group_hash ?N ?i 0 (nt_taken net ?i) \<noteq> group_hash ?N ?j 0 (nt_taken net ?j)"
    by (simp add: group_hash_def groups heap_input_def echo_view_def drain_heap.simps drain_one_def Let_def em_cmp_unat)
  have "\<exists>m. se_echo (nt_sessions net' ?j) = Returned (Inl (InconsistentEcho m))"
    using early_broadcast_fails_round [OF sample3_ok reach, of ?i ?j 0 0] groups hash taken(1) wait step by simp
  with net_reach_step [OF reach step] show ?thesis by (auto simp: numeral_2_eq_2)
qed

text \<open>
  The backlog of \<open>echo_backlog_panics\<close> happens between two honest parties with ordered rounds: the reply
  for the first round is on its way while the agents go on to the third.
\<close>

lemma net_deliver_full:
  assumes "net_ok N" and "k < length (nt_flight net)" and "nt_flight net ! k = (j, i, r, b)"
    and "i < parties N" and "j < parties N" and "j \<noteq> i \<and> b = ne_body N r j" and "ordered \<longrightarrow> has_rounds N r (nt_taken net i)"
    and "alive N i (nt_sessions net i)" and "parties N < length (se_queue (nt_sessions net i))"
  shows "net_step N ordered (NetDeliver k) net = Some (net
    \<lparr>nt_sessions := (nt_sessions net)(i := session_end (WrapPanicked ExpectFailed) (nt_sessions net i)),
     nt_flight := remove_nth k (nt_flight net)\<rparr>)"
proof -
  obtain inp where inp: "deliver_input N i j r (ne_body N r j) = Some inp"
    using deliver_input_eq [OF assms(1,4,5)] by blast
  show ?thesis
    using assms(2,3,6,7,9) inp
      deliver_session [OF assms(1,4,5) conjunct1 [OF assms(6)] assms(8) inp, of "\<lambda>_. True" "ne_fs N"]
    by (auto simp: net_step_def party_step_def taken_up_def dropped_def split: option.splits)
qed

definition sample_rounds3 :: "(byte, nat) net_env" where
  "sample_rounds3 = sample_net id [4, 9] (\<lambda>r j. [word_of_nat (10 * Suc j + r)]) 3"

lemma sample_rounds3_fields [simp]:
  "ne_peers sample_rounds3 = [4, 9]" "ne_hash sample_rounds3 = id" "ne_checks sample_rounds3"
  "ne_body sample_rounds3 = (\<lambda>r j. [word_of_nat (10 * Suc j + r)])" "ne_rounds sample_rounds3 = 3"
  by (simp_all add: sample_rounds3_def)

lemma sample_rounds3_ok: "net_ok sample_rounds3"
  using sample_net_ok(1) [of id "\<lambda>r j. [word_of_nat (10 * Suc j + r)]"]
  by (simp add: net_ok_def sample_rounds3_def sample_net_def)

theorem honest_backlog_panics:
  "\<exists>net. net_reach sample_rounds3 True net \<and> se_echo (nt_sessions net 0) = WrapPanicked ExpectFailed"
proof -
  let ?evs = "[NetSend 0, NetSend 1, NetDeliver 0, NetDeliver 0, NetReceive 0, NetReceive 0, NetReceive 1, NetReceive 1,
      NetSend 0, NetSend 1, NetDeliver 0, NetDeliver 0, NetSend 0, NetSend 1, NetDeliver 1]"
  have "\<exists>net. net_run sample_rounds3 True ?evs (net_start sample_rounds3) = Some net \<and>
      se_echo (nt_sessions net 0) = WrapPanicked ExpectFailed"
    by (simp add: net_send_eq [OF sample_rounds3_ok] net_deliver_eq [OF sample_rounds3_ok]
        net_deliver_full [OF sample_rounds3_ok] run_simps)
  then obtain net where run: "net_run sample_rounds3 True ?evs (net_start sample_rounds3) = Some net"
    and "se_echo (nt_sessions net 0) = WrapPanicked ExpectFailed" by blast
  with net_run_reach [OF run net_reach_start] show ?thesis by blast
qed

end
