(* ===== verification/Joint_Start.thy ===== *)
theory Joint_Start
  imports Rounds Daemon
begin

text \<open>
  From the negotiation of one daemon to the computation of all: the proposer's negotiation ends, its
  start message arrives at daemons that wait in phase 2, and the computations that they start are the
  parties of one network as \<open>Party_Network\<close> has it. What is proved there of such networks therefore
  holds of the computations that daemons agree on.
\<close>

section \<open>The parties of a started computation\<close>

text \<open>A daemon that waits for the start message of a proposal, as peer \<open>p\<close>.\<close>

definition waits_in_phase2 :: "'pid \<Rightarrow> ('pid, 'agent, 'done, 'o) runtime \<Rightarrow> bool" where
  "waits_in_phase2 p s \<longleftrightarrow>
     (case rt_awaiting s of
        AwaitPhase2 agent ch \<Rightarrow> p2_rx ch \<noteq> None \<and> ns_local_peer_id (p2_service ch) = p
      | _ \<Rightarrow> False)"

text \<open>The computation that a daemon has started last, and the network of those of several peers.\<close>

abbreviation begun :: "('pid, 'agent, 'done, 'o) runtime \<Rightarrow> ('pid, 'done) running" where
  "begun s \<equiv> last (rt_protocol_executions s)"

definition network_of ::
  "'pid pid_ops \<Rightarrow> (bytes \<Rightarrow> bytes) \<Rightarrow> bool \<Rightarrow> (nat \<Rightarrow> nat \<Rightarrow> bytes) \<Rightarrow> nat \<Rightarrow> file_system \<Rightarrow>
   'pid list \<Rightarrow> ('pid \<Rightarrow> ('pid, 'agent, 'done, 'o) runtime) \<Rightarrow> ('pid, 'done) net_env" where
  "network_of P H checks body rounds fs peers t =
     \<lparr>ne_pid = P, ne_hash = H, ne_checks = checks, ne_peers = peers,
      ne_states = (\<lambda>i. the (pe_state (ru_exec (begun (t (peers ! i)))))),
      ne_proxies = (\<lambda>i. last (rt_network_proxies (t (peers ! i)))),
      ne_body = body, ne_rounds = rounds, ne_fs = fs\<rparr>"

text \<open>What a daemon has when it has started a computation with a peer set and a proxy.\<close>

definition joined ::
  "nat \<Rightarrow> 'pid peerset \<Rightarrow> chan option \<Rightarrow> ('pid, 'agent, 'done, 'o) runtime \<Rightarrow> bool" where
  "joined n ps rx s \<longleftrightarrow>
     (\<exists>st c. begun s = \<lparr>ru_rx = c, ru_echo = wrap_start n, ru_exec = \<lparr>pe_state = Some st\<rparr>\<rparr> \<and>
        exec_wf st \<and> ex_parties st = ps) \<and>
     rp_parties (last (rt_network_proxies s)) = ps \<and> rp_rx (last (rt_network_proxies s)) = rx"

lemma start_execution_joined:
  assumes "distinct (session_peers ps)" and "length (session_peers ps) < 2 ^ 16"
    and "start_execution E n room agent ps c proxy on_done s = Inr s'" and "rp_parties proxy = ps"
  shows "joined n ps (rp_rx proxy) s'" and "2 \<le> length (session_peers ps)"
proof -
  from assms(3) obtain ex where ex: "execution_new (env_checks E) room (env_agent E) agent
      (rt_network_service s) ps (rt_cacher s) on_done = Inr ex"
    and s': "s' = s\<lparr>rt_network_proxies := rt_network_proxies s @ [proxy],
      rt_protocol_executions := rt_protocol_executions s @
        [\<lparr>ru_rx = c, ru_echo = wrap_start n, ru_exec = ex\<rparr>], rt_awaiting := Selecting\<rparr>"
    by (rule start_execution_Inr)
  note created = execution_created_iff [OF assms(1,2), of "env_checks E" room "env_agent E" agent
      "rt_network_service s" "rt_cacher s" on_done]
  with ex have two: "2 \<le> length (session_peers ps) \<and> local_peer_id ps \<in> set (session_peers ps)"
    by (auto split: if_splits)
  with created ex obtain st where "ex = \<lparr>pe_state = Some st\<rparr>" "exec_wf st" "ex_parties st = ps" by auto
  with assms(4) show "joined n ps (rp_rx proxy) s'" by (simp add: joined_def s')
  from two show "2 \<le> length (session_peers ps)" by blast
qed

lemma joined_network:
  assumes "\<forall>p \<in> set peers. \<exists>rx. joined (length peers) (peerset_new P peers p) (Some rx) (t p)"
    and "distinct peers" and "2 \<le> length peers" and "length peers < 2 ^ 16" and "rounds < 2 ^ 16"
    and N: "N = network_of P H checks body rounds fs (sort_key (pid_to_bytes P) peers) t"
  shows "net_ok N \<and> (\<forall>i < parties N. nt_sessions (net_start N) i = begin_session (begun (t (ne_peers N ! i))))"
proof -
  let ?ps = "sort_key (pid_to_bytes P) peers"
  have party: "exec_wf (ne_states N i) \<and> session_peers (ex_parties (ne_states N i)) = ne_peers N \<and>
      local_peer_id (ex_parties (ne_states N i)) = ne_peers N ! i \<and> rp_rx (ne_proxies N i) \<noteq> None \<and>
      session_peers (rp_parties (ne_proxies N i)) = ne_peers N \<and>
      nt_sessions (net_start N) i = begin_session (begun (t (ne_peers N ! i)))" if i: "i < parties N" for i
  proof -
    have "?ps ! i \<in> set ?ps" using i by (intro nth_mem) (simp add: N network_of_def)
    then have "?ps ! i \<in> set peers" by simp
    with assms(1) obtain rx where j: "joined (length peers) (peerset_new P peers (?ps ! i)) (Some rx) (t (?ps ! i))"
      by blast
    then obtain st c where ru: "begun (t (?ps ! i)) =
        \<lparr>ru_rx = c, ru_echo = wrap_start (length peers), ru_exec = \<lparr>pe_state = Some st\<rparr>\<rparr>"
      and "exec_wf st" "ex_parties st = peerset_new P peers (?ps ! i)" by (auto simp: joined_def)
    moreover have "begin_session (begun (t (?ps ! i))) =
        \<lparr>se_n = length peers, se_queue = [], se_echo = wrap_start (length peers), se_exec = \<lparr>pe_state = Some st\<rparr>\<rparr>"
      by (simp add: ru begin_session_def session_new_def wrap_start_def echo_gadget_new_def)
    ultimately show ?thesis
      using j by (simp add: N network_of_def joined_def net_start_def peerset_new_def Let_def)
  qed
  moreover have "parties N = length peers" "ne_rounds N = rounds" by (simp_all add: N network_of_def)
  ultimately show ?thesis using assms(3,5) by (simp add: net_ok_def)
qed

section \<open>The proposer and the others\<close>

text \<open>How a negotiation that is over with a start message has ended.\<close>

lemma negotiation_ended:
  assumes ninv: "neg_inv room rx n args service agent on_done R ng"
    and step: "on_negotiation E c q reply timer room n ng s =
      Inr (s', [RtNet (RequestResponse room' ctx (Multicast peers b sender))])"
    and over: "rt_awaiting s' = Selecting"
  shows "start_msg_to_bytes (env_pid E) (env_varint E)
      \<lparr>sm_parties = peerset_new (env_pid E) peers (ns_local_peer_id service), sm_body = args\<rparr> = Inr b"
    and "distinct peers" and "length peers = unat n" and "message_type ctx = Coordination"
    and "ns_local_peer_id service \<in> set peers"
    and "joined (unat n) (peerset_new (env_pid E) peers (ns_local_peer_id service)) (Some rx) s'"
    and "2 \<le> length peers"
proof -
  obtain h os where os: "os_channel (env_oneshot E) (rt_oneshots s) = (h, os)" by force
  have "start_msg_to_bytes (env_pid E) (env_varint E)
      \<lparr>sm_parties = peerset_new (env_pid E) peers (ns_local_peer_id service), sm_body = args\<rparr> = Inr b \<and>
    distinct peers \<and> length peers = unat n \<and> message_type ctx = Coordination \<and>
    ns_local_peer_id service \<in> set peers \<and>
    joined (unat n) (peerset_new (env_pid E) peers (ns_local_peer_id service)) (Some rx) s' \<and> 2 \<le> length peers"
    using ninv
  proof (rule neg_inv_poll [where P = "env_pid E" and V = "env_varint E" and A = "env_agent E"
        and checks = "env_checks E" and h = h and c = c and q = q and reply = reply
        and timer = timer], goal_cases)
    case (1 ps b')
    let ?ps = "peerset_new (env_pid E) ps (ns_local_peer_id service)"
    let ?proxy = "\<lparr>rp_id = room, rp_rx = Some rx, rp_tx = c, rp_service = service, rp_parties = ?ps\<rparr>"
    from step os 1(1) have start: "start_execution E (unat n) room agent ?ps c ?proxy (Some on_done) s = Inr s'"
      and same: "ps = peers" "b' = b" "ctx = agent_context (env_agent E) agent"
      by (auto simp: on_negotiation_def and_then_eq_Inr service_multicast_def)
    have "length ps < 2 ^ 16" using 1(5) unsigned_less [of n, where ?'a = nat] by simp
    then have len: "distinct (session_peers ?ps)" "length (session_peers ?ps) < 2 ^ 16"
      using 1(3) by simp_all
    from start_execution_joined [OF len start] 1 same show ?case by (simp add: agent_context_def)
  next
    case (2 msgs)
    with step os ninv show ?case by (auto simp: on_negotiation_def neg_inv_def Cons_eq_append_conv)
  next
    case (3 ng' msgs)
    with step os over show ?case by (auto simp: on_negotiation_def)
  next
    case 4
    with step os show ?case by (simp add: on_negotiation_def)
  qed
  then show "start_msg_to_bytes (env_pid E) (env_varint E)
      \<lparr>sm_parties = peerset_new (env_pid E) peers (ns_local_peer_id service), sm_body = args\<rparr> = Inr b"
    and "distinct peers" and "length peers = unat n" and "message_type ctx = Coordination"
    and "ns_local_peer_id service \<in> set peers"
    and "joined (unat n) (peerset_new (env_pid E) peers (ns_local_peer_id service)) (Some rx) s'"
    and "2 \<le> length peers" by blast+
qed

text \<open>A daemon that gets the start message joins.\<close>

lemma start_message_joins:
  assumes P: "pid_ok (env_pid E)" "varint_ok (env_varint E)" "\<forall>p \<in> set peers. ed25519 (env_pid E) p"
    and size: "39 * length peers + length args + 20 \<le> 8192"
    and b: "start_msg_to_bytes (env_pid E) (env_varint E)
      \<lparr>sm_parties = peerset_new (env_pid E) peers l, sm_body = args\<rparr> = Inr b"
    and peers: "distinct peers" "2 \<le> length peers" "length peers < 2 ^ 16" "p \<in> set peers"
    and waits: "waits_in_phase2 p s" and msg: "im_payload msg = b" "message_type (im_context msg) = Coordination"
  shows "\<exists>s' rx. runtime_step E (EvPhase2 c (Some msg) timer) s = Some (Inr (s', [])) \<and>
    joined (length peers) (peerset_new (env_pid E) peers p) (Some rx) s'"
proof -
  from waits obtain agent ch rx where aw: "rt_awaiting s = AwaitPhase2 agent ch" and rx: "p2_rx ch = Some rx"
    and me: "ns_local_peer_id (p2_service ch) = p"
    by (auto simp: waits_in_phase2_def split: awaiting.splits)
  let ?ps = "peerset_new (env_pid E) peers p"
  let ?proxy = "\<lparr>rp_id = p2_id ch, rp_rx = Some rx, rp_tx = c, rp_service = p2_service ch, rp_parties = ?ps\<rparr>"
  obtain h os where os: "os_channel (env_oneshot E) (rt_oneshots s) = (h, os)" by force
  have decoded: "start_msg_from_bytes (env_pid E) (env_varint E) b p =
      Inr \<lparr>sm_parties = ?ps, sm_body = args\<rparr>"
    by (rule start_msg_agreement [OF P(1,2,3) size b])
  then have poll: "phase2_poll (env_pid E) (env_varint E) h c (Some msg) timer ch =
      Ready (P2Start (p2_id ch) c ?proxy ?ps args)"
    using peers(2) by (auto simp: phase2_poll_def rx me msg receiver_proxy_new_def peerset_size_def Let_def)
  have ok: "local_peer_id ?ps \<in> set (session_peers ?ps)" "2 \<le> length (session_peers ?ps)"
    "length (session_peers ?ps) < 65536" "distinct (session_peers ?ps)"
    using peers by (simp_all add: peerset_new_def Let_def)
  have "\<exists>s'. start_execution E (peerset_size ?ps) (p2_id ch) agent ?ps c ?proxy None s = Inr s'"
    using start_execution_ok [OF ok(1-3), of E "peerset_size ?ps" "p2_id ch" agent c ?proxy None s]
    by (cases "start_execution E (peerset_size ?ps) (p2_id ch) agent ?ps c ?proxy None s") auto
  then obtain s' where s': "start_execution E (length peers) (p2_id ch) agent ?ps c ?proxy None s = Inr s'"
    by (auto simp: peerset_size_def)
  have "runtime_step E (EvPhase2 c (Some msg) timer) s = Some (Inr (s', []))"
    using s' by (simp add: runtime_step_def aw on_phase2_def os poll peerset_size_def)
  moreover have "joined (length peers) ?ps (Some rx) s'"
    using start_execution_joined(1) [OF ok(4) _ s'] ok(3) by simp
  ultimately show ?thesis by blast
qed

section \<open>From one negotiation to one network\<close>

text \<open>
  C3: The computations that daemons agree on form one network. A negotiation ends with a start
  message to \<open>n\<close> peers, and the message reaches the others while they wait in phase 2. Then each of them
  starts, and the sessions of all, in the common order of the peers, are the parties of a network as
  \<open>honest_rounds_complete\<close> takes it; hence, whatever the agents broadcast and however polls, messages
  and replies interleave, no party's echo fails, as long as the rounds arrive in their order and the
  agents take what they are handed. As in \<open>start_agreement\<close>, the start message has to fit into the 8 KiB of
  its encoder: 39 bytes per peer, the arguments and 20 bytes for the two lengths.
\<close>

theorem negotiated_computations_form_network:
  assumes "pid_ok P" and "varint_ok V" and "\<forall>p. env_pid (E p) = P \<and> env_varint (E p) = V"
    and "rt_awaiting (s me) = AwaitNegotiation room n ng" and "ns_local_peer_id service = me"
    and "neg_reach P V (env_agent (E me)) (env_checks (E me))
      (negotiation_new room rx n args service agent on_done) R ng"
    and "runtime_step (E me) (EvNegotiation (c me) q reply (timer me)) (s me) =
      Some (Inr (s_me, [RtNet (RequestResponse room' ctx (Multicast peers b sender))]))"
    and "rt_awaiting s_me = Selecting"
    and "\<forall>p \<in> set peers. ed25519 P p" and "39 * unat n + length args + 20 \<le> 8192"
    and "\<forall>p \<in> set peers - {me}. waits_in_phase2 p (s p) \<and> im_payload (msg p) = b \<and>
      message_type (im_context (msg p)) = message_type ctx"
    and "rounds < 2 ^ 16"
  shows "\<exists>t. t me = s_me \<and>
    (\<forall>p \<in> set peers - {me}. runtime_step (E p) (EvPhase2 (c p) (Some (msg p)) (timer p)) (s p) = Some (Inr (t p, []))) \<and>
    (let N = network_of P H checks body rounds fs (sort_key (pid_to_bytes P) peers) t in
       net_ok N \<and> parties N = unat n \<and>
       (\<forall>i < parties N. nt_sessions (net_start N) i = begin_session (begun (t (ne_peers N ! i)))) \<and>
       (\<forall>net i e. net_reach N True net \<and> i < parties N \<longrightarrow> se_echo (nt_sessions net i) \<noteq> Returned (Inl e)))"
proof -
  from assms(3) have env: "env_pid (E p) = P" "env_varint (E p) = V" for p by simp_all
  note ninv = neg_reach_inv [OF assms(6)]
  from assms(7) have "on_negotiation (E me) (c me) q reply (timer me) room n ng (s me) =
      Inr (s_me, [RtNet (RequestResponse room' ctx (Multicast peers b sender))])"
    by (simp add: runtime_step_def assms(4))
  note ended = negotiation_ended [OF ninv this assms(8), unfolded env assms(5)]
  have short: "length peers < 2 ^ 16" using ended(3) unsigned_less [of n, where ?'a = nat] by simp
  have size: "39 * length peers + length args + 20 \<le> 8192" using assms(10) ended(3) by simp
  have "\<exists>s' rx. runtime_step (E p) (EvPhase2 (c p) (Some (msg p)) (timer p)) (s p) = Some (Inr (s', [])) \<and>
      joined (length peers) (peerset_new P peers p) (Some rx) s'" if p: "p \<in> set peers - {me}" for p
    using start_message_joins [of "E p" peers args me b p "s p" "msg p" "c p" "timer p", unfolded env]
      assms(1,2,9,11) size ended short p by auto
  then obtain t where t: "\<forall>p \<in> set peers - {me}. runtime_step (E p) (EvPhase2 (c p) (Some (msg p)) (timer p)) (s p) =
      Some (Inr (t p, [])) \<and> (\<exists>rx. joined (length peers) (peerset_new P peers p) (Some rx) (t p))" by metis
  let ?t = "t(me := s_me)"
  let ?N = "network_of P H checks body rounds fs (sort_key (pid_to_bytes P) peers) ?t"
  have "\<forall>p \<in> set peers. \<exists>rx. joined (length peers) (peerset_new P peers p) (Some rx) (?t p)"
    using t ended(3,6) by auto
  from joined_network [OF this ended(2,7) short assms(12) refl]
  have N: "net_ok ?N" and sessions: "\<forall>i < parties ?N. nt_sessions (net_start ?N) i = begin_session (begun (?t (ne_peers ?N ! i)))"
    by blast+
  have "parties ?N = unat n" using ended(3) by (simp add: network_of_def)
  moreover have "se_echo (nt_sessions net i) \<noteq> Returned (Inl e)" if "net_reach ?N True net" "i < parties ?N" for net i e
    using no_echo_fails [OF N that] by auto
  ultimately show ?thesis
    using N sessions t by (intro exI [of _ ?t]) (auto simp: Let_def)
qed

text \<open>Two daemons for the witness: peer 4 negotiates, peer 9 waits for its start message.\<close>

abbreviation sample_waiting9 :: "(byte, nat, nat, (nat, nat) local_rpc_msg oneshot_list) runtime" where
  "sample_waiting9 \<equiv> (runtime_new \<lparr>ns_local_peer_id = 9\<rparr> (persistent_new [''tmp''] 9) [])\<lparr>rt_awaiting :=
     AwaitPhase2 0 \<lparr>p2_id = RoomId ''ab'', p2_rx = Some 30, p2_service = \<lparr>ns_local_peer_id = 9\<rparr>\<rparr>\<rparr>"

abbreviation sample_negotiating4 :: "(byte, nat, nat, (nat, nat) local_rpc_msg oneshot_list) runtime" where
  "sample_negotiating4 \<equiv> sample_runtime\<lparr>rt_awaiting :=
     AwaitNegotiation (RoomId ''ab'') 2 (sample_asking (Some 21))\<rparr>"

lemma sample_asking_reach:
  "neg_reach sample_pid leb_ops sample_agent True
     (negotiation_new (RoomId ''ab'') (Suc 0) 2 [5] sample_service 0 10) {} (sample_asking (Some 21))"
proof -
  have new: "negotiation_new (RoomId ''ab'') (Suc 0) 2 [5] sample_service 0 10 = sample_asking None"
    by (simp add: negotiation_new_def)
  have "neg_reach sample_pid leb_ops sample_agent True (sample_asking None) ({} \<union> reply_peers None) (sample_asking (Some 21))"
    by (rule neg_step [OF neg_init, where h = 0 and c = 20 and q = 21 and timer = False]) (simp add: sample_asks)
  then show ?thesis by (simp add: new reply_peers_def)
qed

lemma sample_negotiation_over:
  "\<exists>s b. runtime_step sample_env (EvNegotiation 20 21 (Some (Inr (9, []))) False) sample_negotiating4 =
     Some (Inr (s, [RtNet (RequestResponse (RoomId ''ab'') (agent_context sample_agent 0) (Multicast [9, 4] b None))])) \<and>
     rt_awaiting s = Selecting"
proof -
  have "fst (os_channel list_oneshot []) = (0 :: chan)" by (simp add: list_oneshot_def)
  obtain parties proxy b where start: "negotiation_poll sample_pid leb_ops sample_agent True 0 20 21
      (Some (Inr (9, []))) False (sample_asking (Some 21)) = (Ready (NStart 0 10 20 proxy parties [5]),
        [service_multicast (RoomId ''ab'') [9, 4] (agent_context sample_agent 0) b None])"
    and ps: "local_peer_id parties = 4" "session_peers parties = [4, 9]" using sample_starts by blast
  show ?thesis
    by (simp add: runtime_step_def on_negotiation_def list_oneshot_def start runtime_new_def
        start_execution_def execution_new_def ps index_of_def peerset_size_def u16_sub_def Let_def
        service_multicast_def)
qed

theorem negotiated_computations_form_network_witness:
  "\<exists>(t :: byte \<Rightarrow> (byte, nat, nat, (nat, nat) local_rpc_msg oneshot_list) runtime) msg.
    runtime_step sample_env (EvPhase2 20 (Some msg) False) sample_waiting9 = Some (Inr (t 9, [])) \<and>
    net_ok (network_of sample_pid id True (\<lambda>r j. [word_of_nat j]) 1 no_files
      (sort_key (pid_to_bytes sample_pid) [9, 4]) t)"
proof -
  obtain s_me b where step: "runtime_step sample_env (EvNegotiation 20 21 (Some (Inr (9, []))) False)
      sample_negotiating4 = Some (Inr (s_me, [RtNet (RequestResponse (RoomId ''ab'')
        (agent_context sample_agent 0) (Multicast [9, 4] b None))]))"
    and over: "rt_awaiting s_me = Selecting" using sample_negotiation_over by blast
  let ?msg = "sample_msg Coordination 4 b"
  let ?s = "\<lambda>p :: byte. if p = 4 then sample_negotiating4 else sample_waiting9"
  have ed: "\<forall>p \<in> set [9, 4]. ed25519 sample_pid p" by (simp add: sample_pid_ed25519)
  have others: "\<forall>p \<in> set [9, 4] - {4}. waits_in_phase2 p (?s p) \<and> im_payload ?msg = b \<and>
      message_type (im_context ?msg) = message_type (agent_context sample_agent 0)"
    by (auto simp: waits_in_phase2_def sample_msg_def agent_context_def)
  have reach: "neg_reach sample_pid leb_ops (env_agent sample_env) (env_checks sample_env)
      (negotiation_new (RoomId ''ab'') (Suc 0) 2 [5] sample_service 0 10) {} (sample_asking (Some 21))"
    using sample_asking_reach by simp
  have env: "\<forall>p :: byte. env_pid sample_env = sample_pid \<and> env_varint sample_env = leb_ops" by simp
  have aw: "rt_awaiting (?s 4) = AwaitNegotiation (RoomId ''ab'') 2 (sample_asking (Some 21))" by simp
  have me: "ns_local_peer_id sample_service = (4 :: byte)" by simp
  have step4: "runtime_step sample_env (EvNegotiation 20 21 (Some (Inr (9, []))) False) (?s 4) =
      Some (Inr (s_me, [RtNet (RequestResponse (RoomId ''ab'')
        (agent_context sample_agent 0) (Multicast [9, 4] b None))]))" using step by simp
  have size: "39 * unat (2 :: u16) + length ([5] :: bytes) + 20 \<le> 8192" by simp
  have rounds: "(1 :: nat) < 2 ^ 16" by simp
  note joint = negotiated_computations_form_network [where E = "\<lambda>_. sample_env" and s = ?s and me = 4 and
      c = "\<lambda>_. 20" and timer = "\<lambda>_. False" and msg = "\<lambda>_. ?msg" and H = id and checks = True and
      body = "\<lambda>r j. [word_of_nat j]" and rounds = 1 and fs = no_files,
      OF sample_pid_ok leb_ops_ok env aw me reach step4 over ed size others rounds]
  then obtain t where "\<forall>p \<in> set [9, 4] - {4}. runtime_step sample_env (EvPhase2 20 (Some ?msg) False) (?s p) =
      Some (Inr (t p, []))"
    and "net_ok (network_of sample_pid id True (\<lambda>r j. [word_of_nat j]) 1 no_files
      (sort_key (pid_to_bytes sample_pid) [9, 4]) t)"
    unfolding Let_def by blast
  then show ?thesis by (intro exI [of _ t] exI [of _ ?msg]) auto
qed

end
