(* ===== verification/Commands.thy ===== *)
theory Commands
  imports Setup Rpc
begin

text \<open>
  The program's entry (\<open>cmd/src/main.rs\<close>, \<open>cmd/src/args.rs\<close>) and the RPC server and client that it uses
  (\<open>node/rpc/src/server.rs\<close>, \<open>handler.rs\<close>): the four commands with their arguments, the whole of
  \<open>deploy\<close> with the parts it starts, and the two client commands.

  The command line parser, the JSON-RPC transport and its web sockets, the hash of the public key and
  the serializers are crates; they are arguments. What the transport is relied on for is
  \<open>transport_ok\<close>: a call arrives at the handler with the arguments it was made with, and the handler's
  result is what the caller gets, with its error as text.
\<close>

section \<open>Arguments\<close>

record setup_args =
  sa_multiaddr :: string
  sa_rpc_address :: string
  sa_config_path :: path
  sa_path :: string

record keygen_args =
  ka_room :: string
  ka_address :: string
  ka_threshold :: u16
  ka_number_of_parties :: u16

record sign_args =
  ga_room :: string
  ga_address :: string
  ga_threshold :: u16
  ga_messages :: bytes

datatype command =
    Deploy deploy_args
  | Keygen keygen_args
  | Sign sign_args
  | SetupNode setup_args

record mpc_args =
  ma_command :: "command option"

text \<open>The defaults of the options of \<open>setup\<close>; the options of the client commands have none.\<close>

definition default_setup_args :: setup_args where
  "default_setup_args = \<lparr>sa_multiaddr = ''/ip4/127.0.0.1/tcp/4000'', sa_rpc_address = ''127.0.0.1:8080'',
     sa_config_path = [''config.json''], sa_path = default_path\<rparr>"

section \<open>RPC server and client\<close>

text \<open>What the server and the client use of the crates; \<open>None\<close> is a failed \<open>parse\<close>.\<close>

record ('addr, 'server, 'url, 'client) ws_ops =
  ws_parse_addr :: "string \<Rightarrow> 'addr option"
  ws_start :: "'addr \<Rightarrow> string + 'server"
  ws_wait :: "'server \<Rightarrow> string + unit"
  ws_parse_url :: "string \<Rightarrow> 'url option"
  ws_connect :: "'url \<Rightarrow> string + 'client"

text \<open>
  The trait \<open>JsonRPCHandler\<close>: its two methods are the calls of the generated client, with the names
  under which they travel, and what the generated delegate dispatches on.
\<close>

datatype rpc_call = CallKeygen string u16 u16 | CallSign string u16 bytes

fun rpc_name :: "rpc_call \<Rightarrow> string" where
  "rpc_name (CallKeygen room n t) = ''keygen''"
| "rpc_name (CallSign room t msg) = ''sign''"

record 'f rpc_handler =
  hd_keygen :: "string \<Rightarrow> u16 \<Rightarrow> u16 \<Rightarrow> 'f"
  hd_sign :: "string \<Rightarrow> u16 \<Rightarrow> bytes \<Rightarrow> 'f"

fun rpc_delegate :: "'f rpc_handler \<Rightarrow> rpc_call \<Rightarrow> 'f" where
  "rpc_delegate h (CallKeygen room n t) = hd_keygen h room n t"
| "rpc_delegate h (CallSign room t msg) = hd_sign h room t msg"

record server_config =
  sc_host_address :: string

definition default_server_config :: server_config where
  "default_server_config = \<lparr>sc_host_address = ''127.0.0.1:8080''\<rparr>"

record ('server, 'f) json_rpc_server =
  js_server :: 'server
  js_handler :: "'f rpc_handler"

definition json_rpc_server_new ::
  "('addr, 'server, 'url, 'client) ws_ops \<Rightarrow> server_config \<Rightarrow> 'f rpc_handler \<Rightarrow>
   string fault + ('server, 'f) json_rpc_server" where
  "json_rpc_server_new W config handler =
     (case ws_parse_addr W (sc_host_address config) of
        None \<Rightarrow> Inl (Panic UnwrapFailed)
      | Some addr \<Rightarrow>
          with_prefix ''json rpc server start terminated with err: ''
            (map_sum id (\<lambda>server. \<lparr>js_server = server, js_handler = handler\<rparr>) (ws_start W addr)))"

definition json_rpc_server_run ::
  "('addr, 'server, 'url, 'client) ws_ops \<Rightarrow> ('server, 'f) json_rpc_server \<Rightarrow> string fault + unit" where
  "json_rpc_server_run W server =
     with_prefix ''running json rpc server terminated with err: '' (ws_wait W (js_server server))"

definition new_client ::
  "('addr, 'server, 'url, 'client) ws_ops \<Rightarrow> string \<Rightarrow> string fault + 'client" where
  "new_client W url =
     (case ws_parse_url W url of
        None \<Rightarrow> Inl (Panic UnwrapFailed)
      | Some u \<Rightarrow> with_prefix ''node connection terminated w/ err: '' (ws_connect W u))"

section \<open>Deploying\<close>

text \<open>
  \<open>RpcApi\<close> as the handler of the server: the request that a call makes of the runtime; \<open>tx\<close> is the
  fresh channel of its answer.
\<close>

definition rpc_api ::
  "varint_ops \<Rightarrow> bool \<Rightarrow> (string \<Rightarrow> string) \<Rightarrow> 'done \<Rightarrow> (panic + 'done runtime_message) rpc_handler" where
  "rpc_api V checks blake3_hex tx =
     \<lparr>hd_keygen = (\<lambda>room n t. Inr (rpc_keygen V blake3_hex room n t tx)),
      hd_sign = (\<lambda>room t msg. rpc_sign checks blake3_hex room t msg tx)\<rparr>"

text \<open>The parameters of the runtime, with the factory that deployment creates.\<close>

definition deploy_env ::
  "'pid pid_ops \<Rightarrow> varint_ops \<Rightarrow> ('o, (tss_agent, 'done) local_rpc_msg) oneshot_ops \<Rightarrow> bool \<Rightarrow> string \<Rightarrow>
   ('pid, tss_agent, 'done, 'o) runtime_env" where
  "deploy_env P V OS checks key_path =
     \<lparr>env_pid = P, env_varint = V, env_agent = tss_agents, env_oneshot = OS,
      env_factory = (\<lambda>p. case tss_make key_path p :: unit rt_error + tss_agent of
        Inr a \<Rightarrow> Some a | Inl e \<Rightarrow> None),
      env_checks = checks\<rparr>"

text \<open>
  The runtime of the node, once its loop has registered the only room; \<open>os\<close> is the state of the
  oneshot channels at its start.
\<close>

definition deploy_runtime ::
  "('pid, tss_agent, 'done, 'o) runtime_env \<Rightarrow> ('pid \<Rightarrow> string) \<Rightarrow> (string \<Rightarrow> string) \<Rightarrow> chan \<Rightarrow>
   deploy_args \<Rightarrow> ('pid, 'pr) node_config \<Rightarrow> 'pid network_service \<Rightarrow> 'o \<Rightarrow>
   ('pid, tss_agent, 'done, 'o) runtime" where
  "deploy_runtime E base58 blake3_hex tx args config service os =
     (case deploy_params blake3_hex tx args config of
        (room_id, params, room_rx) \<Rightarrow>
          runtime_init E [(room_id, room_rx)]
            (runtime_new service (deploy_cacher base58 args config service) os))"

record ('worker, 'pid, 'done, 'o, 'server) running_node =
  nd_worker :: 'worker
  nd_env :: "('pid, tss_agent, 'done, 'o) runtime_env"
  nd_runtime :: "('pid, tss_agent, 'done, 'o) runtime"
  nd_server :: "('server, panic + 'done runtime_message) json_rpc_server"

text \<open>\<open>deploy\<close> up to the point where it waits for the server.\<close>

definition deploy_start ::
  "('rr, 'pid, 'ev) rr_ops \<Rightarrow> ('kad, 'pid, 'pr multiaddr, 'kev, 'x, 'hev) kad_ops \<Rightarrow>
   ('mdns, 'pid, 'pr multiaddr, 'x) mdns_ops \<Rightarrow> ('k, 'er) secret_key_ops \<Rightarrow>
   ('pid, 'pr) config_ops \<Rightarrow> (string \<Rightarrow> 'ident) \<Rightarrow> 'ping \<Rightarrow> ('k keypair \<Rightarrow> 'pid) \<Rightarrow> ('k keypair \<Rightarrow> bool) \<Rightarrow>
   ('pid \<Rightarrow> string) \<Rightarrow> (string \<Rightarrow> string) \<Rightarrow> 'k \<Rightarrow> chan \<Rightarrow>
   'pid pid_ops \<Rightarrow> varint_ops \<Rightarrow> ('o, (tss_agent, 'done) local_rpc_msg) oneshot_ops \<Rightarrow> bool \<Rightarrow>
   ('addr, 'server, 'url, 'client) ws_ops \<Rightarrow> 'o \<Rightarrow> 'done \<Rightarrow> deploy_args \<Rightarrow> host_fs \<Rightarrow>
   host_fs \<times> ((string + ('pid, 'pr) net_error) fault +
     (('ping, 'ident, 'kad, 'mdns, 'pid, 'pr multiaddr, 'rr) network_worker,
      'pid, 'done, 'o, 'server) running_node)" where
  "deploy_start R K M S J identify_new ping peer_id_of noise_ok base58 blake3_hex generated tx
     P V OS checks W os rpc_tx args fs =
     (case load_config J (da_config_path args) fs of
        Inl (Panic p) \<Rightarrow> (fs, Inl (Panic p))
      | Inl (Err e) \<Rightarrow> (fs, Inl (Err (Inl e)))
      | Inr config \<Rightarrow>
          (case deploy_worker R K M S J identify_new ping peer_id_of noise_ok base58 blake3_hex
              generated tx args fs of
             (fs, Inl e) \<Rightarrow> (fs, Inl e)
           | (fs, Inr (net_worker, net_service)) \<Rightarrow>
               let E = deploy_env P V OS checks (deploy_key_share base58 net_service);
                   rt = deploy_runtime E base58 blake3_hex tx args config net_service os
               in (case json_rpc_server_new W \<lparr>sc_host_address = rpc_addr (cf_local config)\<rparr>
                       (rpc_api V checks blake3_hex rpc_tx) of
                     Inl (Panic p) \<Rightarrow> (fs, Inl (Panic p))
                   | Inl (Err e) \<Rightarrow> (fs, Inl (Err (Inl (''json rpc server terminated with err: '' @ e))))
                   | Inr server \<Rightarrow>
                       (fs, Inr \<lparr>nd_worker = net_worker, nd_env = E, nd_runtime = rt, nd_server = server\<rparr>))))"

text \<open>The rest: the server's end is waited for, the tasks are cancelled, \<open>bye\<close> is printed.\<close>

definition deploy_finish ::
  "('addr, 'server, 'url, 'client) ws_ops \<Rightarrow> ('worker, 'pid, 'done, 'o, 'server) running_node \<Rightarrow>
   string list \<times> (panic + unit)" where
  "deploy_finish W node =
     (case json_rpc_server_run W (nd_server node) of
        Inl e \<Rightarrow> ([], Inl ExpectFailed)
      | Inr _ \<Rightarrow> ([''bye''], Inr ()))"

section \<open>The other commands\<close>

definition setup_node ::
  "('pid, 'pr) addr_ops \<Rightarrow> ('k, 'er) secret_key_ops \<Rightarrow> ('pid, 'pr) config_ops \<Rightarrow>
   ('k keypair \<Rightarrow> 'pid) \<Rightarrow> ('pid \<Rightarrow> string) \<Rightarrow> 'k \<Rightarrow> setup_args \<Rightarrow> host_fs \<Rightarrow>
   host_fs \<times> (string fault + unit)" where
  "setup_node A S J peer_id_of base58 generated args fs =
     map_prod id (map_sum id (\<lambda>_. ()))
       (generate_config A S J peer_id_of base58 generated (sa_config_path args) (sa_path args)
          (sa_multiaddr args) (sa_rpc_address args) fs)"

text \<open>What a client command prints and how it ends; \<open>call\<close> is a call over the transport.\<close>

definition keygen_command ::
  "('addr, 'server, 'url, 'client) ws_ops \<Rightarrow> ('client \<Rightarrow> rpc_call \<Rightarrow> string + 'point) \<Rightarrow>
   ('point \<Rightarrow> string) \<Rightarrow> keygen_args \<Rightarrow> string list \<times> (string fault + unit)" where
  "keygen_command W call keccak_hex args =
     (case new_client W (ka_address args) of
        Inl e \<Rightarrow> ([], Inl e)
      | Inr client \<Rightarrow>
          (case call client (CallKeygen (ka_room args) (ka_number_of_parties args) (ka_threshold args)) of
             Inl e \<Rightarrow> ([], Inl (Err (''received error: '' @ e)))
           | Inr pub_key \<Rightarrow>
               ([''Keygen finished! Keccak256 address => 0x'' @ keccak_hex pub_key], Inr ())))"

definition sign_command ::
  "('addr, 'server, 'url, 'client) ws_ops \<Rightarrow> ('client \<Rightarrow> rpc_call \<Rightarrow> string + 'signature) \<Rightarrow>
   ('signature \<Rightarrow> string + string) \<Rightarrow> sign_args \<Rightarrow> string list \<times> (string fault + unit)" where
  "sign_command W call to_json args =
     (case new_client W (ga_address args) of
        Inl e \<Rightarrow> ([], Inl e)
      | Inr client \<Rightarrow>
          (case call client (CallSign (ga_room args) (ga_threshold args) (ga_messages args)) of
             Inl e \<Rightarrow> ([], Inl (Err (''error signing: '' @ e)))
           | Inr res \<Rightarrow>
               (case to_json res of
                  Inl e \<Rightarrow> ([], Inl (Err (''error encoding signature: '' @ e)))
                | Inr signature \<Rightarrow> ([signature], Inr ()))))"

text \<open>\<open>main\<close>: without a command the process exits with code 2; the commands are the arguments.\<close>

datatype 'r main_end = ExitCode nat | Ran 'r

fun run_command ::
  "(deploy_args \<Rightarrow> 'r) \<Rightarrow> (setup_args \<Rightarrow> 'r) \<Rightarrow> (keygen_args \<Rightarrow> 'r) \<Rightarrow> (sign_args \<Rightarrow> 'r) \<Rightarrow>
   command option \<Rightarrow> 'r main_end" where
  "run_command deploy setup_cmd keygen sign None = ExitCode 2"
| "run_command deploy setup_cmd keygen sign (Some (Deploy args)) = Ran (deploy args)"
| "run_command deploy setup_cmd keygen sign (Some (SetupNode args)) = Ran (setup_cmd args)"
| "run_command deploy setup_cmd keygen sign (Some (Keygen args)) = Ran (keygen args)"
| "run_command deploy setup_cmd keygen sign (Some (Sign args)) = Ran (sign args)"

section \<open>From the command line to the runtime\<close>

text \<open>
  The answer that a node gives to a call at once: none if the runtime has taken the request up. When
  the task that makes the request panics, the channel of the answer is cancelled.
\<close>

definition answered_call ::
  "('pid, tss_agent, 'done, 'o) runtime_env \<Rightarrow> ('pid, tss_agent, 'done, 'o) runtime \<Rightarrow>
   (bytes \<Rightarrow> string + 'v) \<Rightarrow> string \<Rightarrow> panic + 'done runtime_message \<Rightarrow> (rpc_error + 'v) option" where
  "answered_call E rt decode canceled_text r =
     (case r of
        Inl p \<Rightarrow> (case async_result_poll decode canceled_text (Inl Canceled) of Ready v \<Rightarrow> Some v | _ \<Rightarrow> None)
      | Inr rq \<Rightarrow>
          (case snd (serve_request E rq rt) of
             RtDone tx res # _ \<Rightarrow>
               (case async_result_poll decode canceled_text (Inr (Some res)) of Ready v \<Rightarrow> Some v | _ \<Rightarrow> None)
           | _ \<Rightarrow> None))"

text \<open>What the transport is relied on for, as far as calls are concerned that are answered at once.\<close>

definition transport_ok ::
  "('client \<Rightarrow> rpc_call \<Rightarrow> string + 'v) \<Rightarrow> 'client \<Rightarrow> (rpc_error \<Rightarrow> string) \<Rightarrow>
   (bytes \<Rightarrow> string + 'v) \<Rightarrow> string \<Rightarrow> ('worker, 'pid, 'done, 'o, 'server) running_node \<Rightarrow> bool" where
  "transport_ok call client display decode canceled_text node \<longleftrightarrow>
     (\<forall>c v. answered_call (nd_env node) (nd_runtime node) decode canceled_text
          (rpc_delegate (js_handler (nd_server node)) c) = Some v \<longrightarrow>
        call client c = map_sum display id v)"

lemma json_rpc_server_handler:
  assumes "json_rpc_server_new W c handler = Inr server"
  shows "js_handler server = handler"
proof -
  from assms obtain addr where "ws_parse_addr W (sc_host_address c) = Some addr"
    by (cases "ws_parse_addr W (sc_host_address c)") (auto simp: json_rpc_server_new_def)
  with assms show ?thesis by (cases "ws_start W addr") (auto simp: json_rpc_server_new_def)
qed

lemma deploy_start_InrD:
  fixes J :: "('pid, 'pr) config_ops"
  assumes "deploy_start R K M S J identify_new ping peer_id_of noise_ok base58 blake3_hex generated tx
    P V OS checks W os rpc_tx args fs = (fs', Inr node)"
  shows "\<exists>(config :: ('pid, 'pr) node_config) service. nd_env node = deploy_env P V OS checks (deploy_key_share base58 service) \<and>
    nd_runtime node = deploy_runtime (nd_env node) base58 blake3_hex tx args config service os \<and>
    js_handler (nd_server node) = rpc_api V checks blake3_hex rpc_tx"
  using assms
  by (auto simp: deploy_start_def Let_def dest!: json_rpc_server_handler
      split: sum.splits fault.splits prod.splits) blast

lemma deploy_start_handler:
  assumes "deploy_start R K M S J identify_new ping peer_id_of noise_ok base58 blake3_hex generated tx
    P V OS checks W os rpc_tx args fs = (fs', Inr node)"
  shows "js_handler (nd_server node) = rpc_api V checks blake3_hex rpc_tx"
  using deploy_start_InrD [OF assms] by auto

lemma deploy_runtime_idle:
  assumes "oneshot_ok (env_oneshot E) view"
    and "rt = deploy_runtime E base58 blake3_hex tx args config service os"
  shows "\<exists>h. rt_rooms_rpc rt = [room_id_from blake3_hex ''tss/0'' \<mapsto> h] \<and>
    view (rt_oneshots rt) h = Some (TxOpen, True)"
proof -
  obtain h os' where ch: "os_channel (env_oneshot E) os = (h, os')" by force
  then have "view os' h = Some (TxOpen, True)" using oneshot_okD(2) [OF assms(1), of os] by simp
  then show ?thesis
    by (auto simp: assms(2) deploy_runtime_def deploy_params_def room_args_new_full_def ch phase1_new_def
        rpc_insert_def push_phase1_def runtime_new_def Let_def)
qed

text \<open>
  C19: A deployed node serves one room. If \<open>deploy\<close> comes to wait for its server, the command \<open>keygen\<close> for
  the room \<open>tss/0\<close> hands the runtime's idle room a request with the command's number of parties, its
  threshold as arguments and the key generation agent with the node's key file; for any other room,
  as far as the hash tells the names apart, the command ends with the error that the protocol is
  busy and the runtime stays as it was.
\<close>

theorem deployed_node_serves_one_room:
  fixes J :: "('pid, 'pr) config_ops"
  assumes "deploy_start R K M S J identify_new ping peer_id_of noise_ok base58 blake3_hex generated tx
      P V OS checks W os rpc_tx args fs = (fs', Inr node)"
    and "oneshot_ok OS view" and "length (enc_u16 V (ka_threshold kargs)) < io_cap"
    and "new_client W' (ka_address kargs) = Inr client"
    and "transport_ok call client display decode canceled_text node"
    and "rpc_delegate (js_handler (nd_server node))
      (CallKeygen (ka_room kargs) (ka_number_of_parties kargs) (ka_threshold kargs)) = Inr rq"
  shows "(room_id_from blake3_hex (ka_room kargs) = room_id_from blake3_hex ''tss/0'' \<longrightarrow>
      (\<exists>rt h service. serve_request (nd_env node) rq (nd_runtime node) = (rt, []) \<and>
         rt_rooms_rpc (nd_runtime node) (room_id_from blake3_hex ''tss/0'') = Some h \<and>
         view (rt_oneshots rt) h = Some (TxSent \<lparr>rpc_n = ka_number_of_parties kargs,
           rpc_args = enc_u16 V (ka_threshold kargs),
           rpc_agent = KeyGen (deploy_key_share base58 service), rpc_on_done = rpc_tx\<rparr>, True))) \<and>
    (room_id_from blake3_hex (ka_room kargs) \<noteq> room_id_from blake3_hex ''tss/0'' \<longrightarrow>
      serve_request (nd_env node) rq (nd_runtime node) =
        (nd_runtime node, [RtDone rpc_tx (Inl ''protocol is busy'')]) \<and>
      keygen_command W' call keccak_hex kargs = ([], Inl (Err (''received error: '' @ display
        (rpc_internal_error ''computation terminated with err: protocol is busy'')))))"
proof -
  let ?room = "room_id_from blake3_hex (ka_room kargs)" and ?tss = "room_id_from blake3_hex ''tss/0''"
  let ?call = "CallKeygen (ka_room kargs) (ka_number_of_parties kargs) (ka_threshold kargs)"
  obtain config :: "('pid, 'pr) node_config" and service where E: "nd_env node = deploy_env P V OS checks (deploy_key_share base58 service)"
    and rt: "nd_runtime node = deploy_runtime (nd_env node) base58 blake3_hex tx args config service os"
    and handler: "js_handler (nd_server node) = rpc_api V checks blake3_hex rpc_tx"
    using deploy_start_InrD [OF assms(1)] by blast
  have os: "oneshot_ok (env_oneshot (nd_env node)) view" using assms(2) by (simp add: E deploy_env_def)
  from deploy_runtime_idle [OF os rt] obtain h where
    rooms: "rt_rooms_rpc (nd_runtime node) = [?tss \<mapsto> h]"
    and open_h: "view (rt_oneshots (nd_runtime node)) h = Some (TxOpen, True)" by blast
  have env: "tss_env (deploy_key_share base58 service) (nd_env node)"
    by (simp add: tss_env_def E deploy_env_def)
  have rq: "rq_room_id rq = ?room" "rq_n rq = ka_number_of_parties kargs" "rq_protocol_id rq = 0"
    "rq_on_done rq = rpc_tx" "rq_args rq = enc_u16 V (ka_threshold kargs)"
    using assms(6) bw_write_all_fits [of bw_new "enc_u16 V (ka_threshold kargs)"] assms(3)
    by (auto simp: handler rpc_api_def rpc_keygen_def request_computation_def bw_new_def)
  show ?thesis
  proof (intro conjI impI)
    assume same: "?room = ?tss"
    let ?msg = "\<lparr>rpc_n = ka_number_of_parties kargs, rpc_args = enc_u16 V (ka_threshold kargs),
      rpc_agent = KeyGen (deploy_key_share base58 service), rpc_on_done = rpc_tx\<rparr>"
    have "serve_request (nd_env node) rq (nd_runtime node) =
        ((nd_runtime node)\<lparr>rt_rooms_rpc := (rt_rooms_rpc (nd_runtime node))(rq_room_id rq := None),
          rt_oneshots := os_send (env_oneshot (nd_env node)) h ?msg (rt_oneshots (nd_runtime node))\<rparr>, [])"
      using serve_request_idle [of "nd_runtime node" rq h "nd_env node" "KeyGen (deploy_key_share base58 service)"]
        rq same rooms tss_env_factory(1) [OF env] oneshot_okD(7) [OF os open_h] by simp
    moreover have "view (os_send (env_oneshot (nd_env node)) h ?msg (rt_oneshots (nd_runtime node))) h =
        Some (TxSent ?msg, True)"
      using oneshot_okD(3) [OF os open_h] by simp
    ultimately show "\<exists>rt h service. serve_request (nd_env node) rq (nd_runtime node) = (rt, []) \<and>
         rt_rooms_rpc (nd_runtime node) ?tss = Some h \<and>
         view (rt_oneshots rt) h = Some (TxSent \<lparr>rpc_n = ka_number_of_parties kargs,
           rpc_args = enc_u16 V (ka_threshold kargs),
           rpc_agent = KeyGen (deploy_key_share base58 service), rpc_on_done = rpc_tx\<rparr>, True)"
      using rooms by auto
  next
    assume other: "?room \<noteq> ?tss"
    then show served: "serve_request (nd_env node) rq (nd_runtime node) =
        (nd_runtime node, [RtDone rpc_tx (Inl ''protocol is busy'')])"
      by (simp add: serve_request_def on_computation_request_def rq rooms)
    have "answered_call (nd_env node) (nd_runtime node) decode canceled_text (Inr rq) =
        Some (Inl (rpc_internal_error ''computation terminated with err: protocol is busy''))"
      by (simp add: answered_call_def served async_result_poll_def)
    with assms(5,6) have "call client ?call =
        Inl (display (rpc_internal_error ''computation terminated with err: protocol is busy''))"
      by (simp add: transport_ok_def del: rpc_delegate.simps)
    then show "keygen_command W' call keccak_hex kargs = ([], Inl (Err (''received error: '' @ display
        (rpc_internal_error ''computation terminated with err: protocol is busy''))))"
      by (simp add: keygen_command_def assms(4))
  qed
qed

text \<open>A sample transport: every address is valid, and the calls are answered by one node.\<close>

definition sample_ws :: "(string, string, string, string) ws_ops" where
  "sample_ws = \<lparr>ws_parse_addr = Some, ws_start = Inr, ws_wait = (\<lambda>_. Inr ()), ws_parse_url = Some,
     ws_connect = Inr\<rparr>"

definition sample_call ::
  "(rpc_error \<Rightarrow> string) \<Rightarrow> (bytes \<Rightarrow> string + 'v) \<Rightarrow> string \<Rightarrow>
   ('worker, 'pid, 'done, 'o, 'server) running_node \<Rightarrow> 'client \<Rightarrow> rpc_call \<Rightarrow> string + 'v" where
  "sample_call display decode canceled_text node client c =
     (case answered_call (nd_env node) (nd_runtime node) decode canceled_text
          (rpc_delegate (js_handler (nd_server node)) c) of
        Some v \<Rightarrow> map_sum display id v
      | None \<Rightarrow> Inl ''timeout'')"

lemma sample_transport_ok:
  "transport_ok (sample_call display decode canceled_text node) client display decode canceled_text node"
  by (simp add: transport_ok_def sample_call_def)

definition sample_nat_pid :: "nat pid_ops" where
  "sample_nat_pid = \<lparr>pid_to_bytes = (\<lambda>p. []), pid_from_bytes = (\<lambda>b. None)\<rparr>"

definition sample_deploy_args :: deploy_args where
  "sample_deploy_args = \<lparr>da_config_path = [''config.json''], da_path = ''data/:id'', da_kademlia = True,
     da_mdns = True\<rparr>"

definition sample_host :: host_fs where
  "sample_host = empty_host\<lparr>fs_files := [[''config.json''] \<mapsto> [123, 125]]\<rparr>"

lemma sample_node_key:
  "\<exists>fs'. into_keypair sample_secret_key 5 (Ed25519 (File [''data'', ''Q5'', ''secret.key''])) sample_host =
     (fs', Inr (KeypairEd25519 5))"
proof -
  let ?f = "[''data'', ''Q5'', ''secret.key'']"
  have "host_ok sample_host" "fs_files sample_host ?f = None" "fs_can_write sample_host ?f"
    "path_parent ?f = Some [''data'', ''Q5'']" "fs_can_mkdir sample_host [''data'', ''Q5'']"
    "fs_files sample_host [''data'', ''Q5''] = None" "fs_space sample_host ?f = 4096"
    by (simp_all add: sample_host_def host_ok_def empty_host_def path_parent_def)
  then show ?thesis
    using get_secret_new [of sample_host ?f "[''data'', ''Q5'']" "parse_secret sample_secret_key" 5
        "sk_to_bytes sample_secret_key"] by (simp add: sample_secret_key_def)
qed

lemma sample_deploy:
  "\<exists>fs' node. deploy_start sample_rr sample_kad sample_mdns sample_secret_key sample_config_ops id ()
     (\<lambda>_. 5) (\<lambda>_. True) (\<lambda>_. ''Q5'') id 5 9 sample_nat_pid leb_ops list_oneshot True sample_ws
     ([] :: ((tss_agent, nat) local_rpc_msg tx_state \<times> bool) list) (6 :: nat) sample_deploy_args sample_host = (fs', Inr node)"
proof -
  have path: "deploy_base_path (\<lambda>_. ''Q5'') sample_deploy_args sample_config = [''data'', ''Q5'']"
    by (simp add: deploy_base_path_def sample_deploy_args_def node_path_def str_replace.simps path_of_def Let_def)
  let ?pm = "fst (snd (deploy_params id 9 sample_deploy_args sample_config))"
  have "\<exists>d. discovery_new sample_kad sample_mdns 5 ?pm = Inr d"
    by (simp add: discovery_new_def boot_addresses_def add_addresses_def sample_kad_def sample_mdns_def
        deploy_params_def room_args_new_full_def sample_deploy_args_def sample_config_def Let_def)
  moreover have "\<exists>b. broadcast_new sample_rr (map room_protocol (pm_rooms ?pm)) = Inr b"
    by (simp add: broadcast_new_def register_protocol_def deploy_params_def room_args_new_full_def Let_def)
  moreover obtain fs' where "into_keypair sample_secret_key 5 (Ed25519 (File [''data'', ''Q5'', ''secret.key'']))
      sample_host = (fs', Inr (KeypairEd25519 5))"
    using sample_node_key by blast
  moreover have "load_config sample_config_ops [''config.json''] sample_host = Inr sample_config"
    by (simp add: load_config_def read_file_def sample_host_def empty_host_def sample_config_ops_def)
  moreover have "da_config_path sample_deploy_args = [''config.json'']" by (simp add: sample_deploy_args_def)
  ultimately show ?thesis
    by (auto simp: deploy_start_def deploy_worker_def deploy_node_key_def path worker_new_def behaviour_new_def
        json_rpc_server_new_def sample_ws_def Let_def)
qed

theorem deployed_node_serves_one_room_witness:
  "\<exists>fs' node. deploy_start sample_rr sample_kad sample_mdns sample_secret_key sample_config_ops id ()
       (\<lambda>_. 5) (\<lambda>_. True) (\<lambda>_. ''Q5'') id 5 9 sample_nat_pid leb_ops list_oneshot True sample_ws
       ([] :: ((tss_agent, nat) local_rpc_msg tx_state \<times> bool) list) 6 sample_deploy_args sample_host =
         (fs', Inr node) \<and>
     keygen_command sample_ws (sample_call re_message (\<lambda>b. Inr b) ''canceled'' node) (\<lambda>_. [])
       \<lparr>ka_room = ''other'', ka_address = ''ws'', ka_threshold = 1, ka_number_of_parties = 2\<rparr> =
       ([], Inl (Err (''received error: '' @ re_message
         (rpc_internal_error ''computation terminated with err: protocol is busy''))))"
proof -
  let ?args = "\<lparr>ka_room = ''other'', ka_address = ''ws'', ka_threshold = 1, ka_number_of_parties = 2\<rparr>"
  obtain fs' node where deployed: "deploy_start sample_rr sample_kad sample_mdns sample_secret_key
      sample_config_ops id () (\<lambda>_. 5) (\<lambda>_. True) (\<lambda>_. ''Q5'') id 5 9 sample_nat_pid leb_ops list_oneshot True
      sample_ws ([] :: ((tss_agent, nat) local_rpc_msg tx_state \<times> bool) list) 6 sample_deploy_args sample_host =
      (fs', Inr node)"
    using sample_deploy by blast
  then have "js_handler (nd_server node) = rpc_api leb_ops True id 6"
    by (rule deploy_start_handler)
  then have "\<exists>rq. rpc_delegate (js_handler (nd_server node))
      (CallKeygen (ka_room ?args) (ka_number_of_parties ?args) (ka_threshold ?args)) = Inr rq"
    by (simp add: rpc_api_def)
  then obtain rq where rq: "rpc_delegate (js_handler (nd_server node))
      (CallKeygen (ka_room ?args) (ka_number_of_parties ?args) (ka_threshold ?args)) = Inr rq" by blast
  have fits: "length (enc_u16 leb_ops (ka_threshold ?args)) < io_cap"
    by (simp add: leb_ops_def leb_enc.simps)
  have client: "new_client sample_ws (ka_address ?args) = Inr ''ws''"
    by (simp add: new_client_def sample_ws_def)
  from deployed_node_serves_one_room [OF deployed list_oneshot_ok fits client
      sample_transport_ok [where display = re_message and decode = "\<lambda>b. Inr b" and canceled_text = "''canceled''"]
      rq, where keccak_hex = "\<lambda>_. []"] deployed
  show ?thesis by (auto simp: room_id_from_def)
qed

end
